(* ===== verification/Iofsl_Prelude.thy ===== *)
theory Iofsl_Prelude
  imports Main "HOL-Library.Word" "HOL-Library.Multiset" "HOL-Library.Monad_Syntax"
begin

text \<open>
  Shared vocabulary of the development.

  \<^item> The machine types of the sources: \<open>size_t\<close>, \<open>zoidfs_file_ofs_t\<close> and
    \<open>zoidfs_file_size_t\<close> are 64-bit unsigned words, pointers are addresses with 0 as
    the null pointer.
  \<^item> \<open>'o heap\<close>: the C++ free store for the objects of one class. The policy by
    which \<open>operator new\<close> picks an address is part of the state (\<open>hp_alloc\<close>, which
    may depend on how many allocations were made and on what is live), so nothing proved
    about a program depends on the order of the addresses.
  \<^item> \<open>std::set\<close> and \<open>std::map\<close> as strictly ascending lists, because the code
    iterates over them in key order and calls \<open>lower_bound\<close>.
  \<^item> Fallible operations return \<open>option\<close>: \<open>None\<close> stands for a failed assertion
    or for undefined behaviour (a dangling pointer, an index out of range).
\<close>

type_synonym u64 = "64 word"
type_synonym u32 = "32 word"
type_synonym addr = nat

abbreviation (input) null :: addr where
  "null \<equiv> 0"

named_theorems heap_simps \<open>reading the free store after an allocation, a write or a delete\<close>
named_theorems fault_elims \<open>inversion of computations that return normally\<close>

subsection \<open>Assertions\<close>

text \<open>\<open>ASSERT(b)\<close> and \<open>ALWAYS_ASSERT(b)\<close>: the program stops when \<open>b\<close> is false.\<close>

definition assert_that :: "bool \<Rightarrow> unit option" where
  "assert_that b = (if b then Some () else None)"

lemma assert_that_simps [simp]:
  "assert_that True = Some ()"
  "assert_that False = None"
  by (simp_all add: assert_that_def)

lemma assert_that_eq_Some [simp]: "assert_that b = Some u \<longleftrightarrow> b"
  by (simp add: assert_that_def)

lemma bind_eq_SomeE [fault_elims]:
  assumes "Option.bind m f = Some y"
  obtains x where "m = Some x" and "f x = Some y"
  using assms by (cases m) auto

subsection \<open>Callback status\<close>

text \<open>
  \<open>iofwdevent::CBException\<close>: the exception, if any, that a blocking operation hands to
  its callback. \<open>cancelledOperation h\<close> records the handle of the cancelled operation; any
  other exception is kept as an opaque code.
\<close>

datatype cb_exception = CB_None | CB_Cancelled addr | CB_Other nat

definition hasException :: "cb_exception \<Rightarrow> bool" where
  "hasException e \<longleftrightarrow> e \<noteq> CB_None"

definition isCancelled :: "cb_exception \<Rightarrow> bool" where
  "isCancelled e \<longleftrightarrow> (case e of CB_Cancelled h \<Rightarrow> True | _ \<Rightarrow> False)"

text \<open>\<open>check ()\<close> rethrows a stored exception; otherwise it does nothing.\<close>

definition cb_check :: "cb_exception \<Rightarrow> cb_exception + unit" where
  "cb_check e = (if hasException e then Inl e else Inr ())"

subsection \<open>Extents\<close>

text \<open>One entry of the parallel arrays of a read or write call: memory start and size, file start and size.\<close>

record extent =
  x_mem :: addr
  x_msize :: u64
  x_start :: u64
  x_size :: u64

subsection \<open>The free store\<close>

record 'o heap =
  hp_objs :: "addr \<rightharpoonup> 'o"
  hp_clock :: nat
  hp_alloc :: "nat \<Rightarrow> (addr \<rightharpoonup> 'o) \<Rightarrow> addr"

text \<open>What \<open>operator new\<close> guarantees: a non-null address that is not in use.\<close>

definition heap_ok :: "'o heap \<Rightarrow> bool" where
  "heap_ok h \<longleftrightarrow> finite (dom (hp_objs h)) \<and>
     (\<forall>t m. finite (dom m) \<longrightarrow> m (hp_alloc h t m) = None \<and> hp_alloc h t m \<noteq> null)"

definition heap_new :: "'o \<Rightarrow> 'o heap \<Rightarrow> addr \<times> 'o heap" where
  "heap_new x h =
     (let a = hp_alloc h (hp_clock h) (hp_objs h)
      in (a, h\<lparr>hp_objs := (hp_objs h)(a \<mapsto> x), hp_clock := Suc (hp_clock h)\<rparr>))"

definition heap_read :: "'o heap \<Rightarrow> addr \<Rightarrow> 'o option" where
  "heap_read h a = hp_objs h a"

definition heap_write :: "addr \<Rightarrow> 'o \<Rightarrow> 'o heap \<Rightarrow> 'o heap option" where
  "heap_write a x h =
     (case hp_objs h a of None \<Rightarrow> None
      | Some _ \<Rightarrow> Some (h\<lparr>hp_objs := (hp_objs h)(a \<mapsto> x)\<rparr>))"

definition heap_delete :: "addr \<Rightarrow> 'o heap \<Rightarrow> 'o heap option" where
  "heap_delete a h =
     (case hp_objs h a of None \<Rightarrow> None
      | Some _ \<Rightarrow> Some (h\<lparr>hp_objs := (hp_objs h)(a := None)\<rparr>))"

text \<open>
  A concrete allocator for closed examples: the allocation number as the address, and some
  unused address should that one be taken.
\<close>

definition spare_addr :: "(addr \<rightharpoonup> 'o) \<Rightarrow> addr" where
  [code del]: "spare_addr m = Suc (Max (dom m))"

definition empty_heap :: "'o heap" where
  "empty_heap = \<lparr>hp_objs = Map.empty, hp_clock = 0,
     hp_alloc = (\<lambda>t m. case m (Suc t) of None \<Rightarrow> Suc t | Some _ \<Rightarrow> spare_addr m)\<rparr>"

lemma empty_heap_objs [simp]: "hp_objs empty_heap = Map.empty"
  by (simp add: empty_heap_def)

lemma heap_ok_empty: "heap_ok empty_heap"
proof -
  have "m (spare_addr m) = None" if "finite (dom m)" for m :: "addr \<rightharpoonup> 'a"
    using Max_ge [OF that, of "spare_addr m"]
    by (cases "m (spare_addr m)") (auto simp: spare_addr_def dom_def)
  then show ?thesis
    by (auto simp: heap_ok_def empty_heap_def spare_addr_def split: option.splits)
qed

lemma heap_new_fresh:
  assumes "heap_ok h" "heap_new x h = (a, h')"
  shows "hp_objs h a = None" "a \<noteq> null" "hp_objs h' = (hp_objs h)(a \<mapsto> x)" "heap_ok h'"
  using assms by (auto simp: heap_ok_def heap_new_def Let_def)

lemma heap_ok_delete: "heap_ok h \<Longrightarrow> heap_delete a h = Some h' \<Longrightarrow> heap_ok h'"
  by (auto simp: heap_ok_def heap_delete_def split: option.splits)

lemma heap_ok_write: "heap_ok h \<Longrightarrow> heap_write a x h = Some h' \<Longrightarrow> heap_ok h'"
  by (auto simp: heap_ok_def heap_write_def split: option.splits)

lemma heap_delete_eq_Some [heap_simps]:
  "heap_delete a h = Some h' \<longleftrightarrow>
     hp_objs h a \<noteq> None \<and> h' = h\<lparr>hp_objs := (hp_objs h)(a := None)\<rparr>"
  by (auto simp: heap_delete_def split: option.splits)

lemma heap_write_eq_Some [heap_simps]:
  "heap_write a x h = Some h' \<longleftrightarrow>
     hp_objs h a \<noteq> None \<and> h' = h\<lparr>hp_objs := (hp_objs h)(a \<mapsto> x)\<rparr>"
  by (auto simp: heap_write_def split: option.splits)

lemma sum_list_le:
  fixes f :: "'a \<Rightarrow> nat"
  shows "(\<And>x. x \<in> set xs \<Longrightarrow> f x \<le> k) \<Longrightarrow> sum_list (map f xs) \<le> length xs * k"
  by (induction xs) (auto simp: add_mono)

end
