(* ===== verification/Token_Resource.thy ===== *)
theory Token_Resource
  imports Iofsl_Prelude
begin

text \<open>
  \<open>iofwdevent::TokenResource\<close> (\<open>src/iofwdevent/TokenResource.hh\<close>, \<open>.cpp\<close>): a counter
  of free tokens with a first-in-first-out list of waiting requests. A callback is named by a
  number; calling it is an event in the result of the operation, in the order of the calls.
  The lock is dropped before a callback runs, so every operation is one atomic step.
  \<open>tokens_available_\<close> is a \<open>size_t\<close> and wraps around.
\<close>

record TokenRequest =
  tr_cb :: nat
  tr_tokens :: u64

record token_resource =
  tokens_available :: u64
  waitlist :: "(addr \<times> TokenRequest) list"
  tk_started :: bool

type_synonym cb_event = "nat \<times> cb_exception"

definition TokenResource :: "u64 \<Rightarrow> token_resource" where
  "TokenResource tokens = \<lparr>tokens_available = tokens, waitlist = [], tk_started = False\<rparr>"

definition token_start :: "token_resource \<Rightarrow> token_resource option" where
  "token_start s = do { assert_that (\<not> tk_started s); Some (s\<lparr>tk_started := True\<rparr>) }"

definition token_stop :: "token_resource \<Rightarrow> token_resource option" where
  "token_stop s = do { assert_that (tk_started s); Some (s\<lparr>tk_started := False\<rparr>) }"

definition notify_next :: "token_resource \<Rightarrow> (token_resource \<times> nat option) option" where
  "notify_next s =
     (case waitlist s of
        [] \<Rightarrow> Some (s, None)
      | (h, f) # rest \<Rightarrow>
          if tr_tokens f > tokens_available s then Some (s, None)
          else do {
            assert_that (tr_tokens f \<noteq> 0);
            assert_that (tokens_available s \<ge> tr_tokens f);
            Some (s\<lparr>tokens_available := tokens_available s - tr_tokens f, waitlist := rest\<rparr>,
                  Some (tr_cb f))
          })"

definition token_check :: "token_resource \<Rightarrow> (token_resource \<times> nat option) option" where
  "token_check s =
     (case waitlist s of
        [] \<Rightarrow> Some (s, None)
      | (h, f) # rest \<Rightarrow>
          if tr_tokens f \<le> tokens_available s then notify_next s else Some (s, None))"

text \<open>The tail shared by \<open>add_tokens_limit\<close> and \<open>release\<close>: one check, one callback.\<close>

definition check_and_call :: "token_resource \<Rightarrow> (token_resource \<times> cb_event list) option" where
  "check_and_call s = do {
     (s', cb) \<leftarrow> token_check s;
     Some (s', case cb of None \<Rightarrow> [] | Some c \<Rightarrow> [(c, CB_None)])
   }"

definition add_tokens_limit ::
    "u64 \<Rightarrow> u64 \<Rightarrow> token_resource \<Rightarrow> (token_resource \<times> cb_event list) option" where
  "add_tokens_limit tokens limit s =
     (if tokens = 0 then Some (s, [])
      else if limit \<noteq> 0 then
        (if tokens_available s \<ge> limit then Some (s, [])
         else check_and_call (s\<lparr>tokens_available :=
                tokens_available s + min (limit - tokens_available s) tokens\<rparr>))
      else check_and_call (s\<lparr>tokens_available := tokens_available s + tokens\<rparr>))"

definition add_tokens :: "u64 \<Rightarrow> token_resource \<Rightarrow> (token_resource \<times> cb_event list) option" where
  "add_tokens tokens s = add_tokens_limit tokens 0 s"

definition try_request_unlocked :: "u64 \<Rightarrow> token_resource \<Rightarrow> token_resource \<times> bool" where
  "try_request_unlocked n s =
     (if n = 0 then (s, True)
      else if waitlist s \<noteq> [] then (s, False)
      else if tokens_available s \<ge> n
      then (s\<lparr>tokens_available := tokens_available s - n\<rparr>, True)
      else (s, False))"

definition try_request :: "u64 \<Rightarrow> token_resource \<Rightarrow> (token_resource \<times> bool) option" where
  "try_request n s = do { assert_that (tk_started s); Some (try_request_unlocked n s) }"

text \<open>\<open>h\<close> is the address \<open>new TokenRequest\<close> returns when the request has to wait.\<close>

definition token_request ::
    "nat \<Rightarrow> u64 \<Rightarrow> addr \<Rightarrow> token_resource \<Rightarrow> (token_resource \<times> addr \<times> cb_event list) option" where
  "token_request cb n h s = do {
     assert_that (tk_started s);
     (case try_request_unlocked n s of
        (s', True) \<Rightarrow> Some (s', null, [(cb, CB_None)])
      | (s', False) \<Rightarrow>
          Some (s'\<lparr>waitlist := waitlist s' @ [(h, \<lparr>tr_cb = cb, tr_tokens = n\<rparr>)]\<rparr>, h, []))
   }"

definition token_release :: "u64 \<Rightarrow> token_resource \<Rightarrow> (token_resource \<times> cb_event list) option" where
  "token_release n s = do {
     assert_that (tk_started s);
     check_and_call (s\<lparr>tokens_available := tokens_available s + n\<rparr>)
   }"

text \<open>
  The search loop of \<open>cancel\<close>. The iterator \<open>I\<close> is the rest of the list from its
  position, \<open>pre\<close> what precedes it. The source has no \<open>++I\<close>, so the loop goes round with
  the same \<open>I\<close> when the element is not the one looked for.
\<close>

partial_function (option) cancel_loop ::
    "addr \<Rightarrow> (addr \<times> TokenRequest) list \<Rightarrow> (addr \<times> TokenRequest) list \<Rightarrow>
     (TokenRequest \<times> (addr \<times> TokenRequest) list) option option" where
  "cancel_loop h pre I =
     (case I of
        [] \<Rightarrow> Some None
      | (a, f) # rest \<Rightarrow>
          if a = h then Some (Some (f, pre @ rest)) else cancel_loop h pre I)"

definition token_cancel ::
    "addr \<Rightarrow> token_resource \<Rightarrow> (token_resource \<times> bool \<times> cb_event list) option" where
  "token_cancel h s = do {
     found \<leftarrow> cancel_loop h [] (waitlist s);
     (case found of
        None \<Rightarrow> Some (s, False, [])
      | Some (f, wl) \<Rightarrow> Some (s\<lparr>waitlist := wl\<rparr>, True, [(tr_cb f, CB_Cancelled h)]))
   }"

subsection \<open>Runs\<close>

text \<open>A client's calls in the order in which the lock serialises them.\<close>

datatype token_op =
    Request nat u64 addr
  | TryRequest u64
  | Release u64
  | AddTokens u64

text \<open>
  The result of a step: the new state, the callbacks made, and the tokens that a successful
  \<open>try_request\<close> handed to its caller.
\<close>

fun token_step :: "token_op \<Rightarrow> token_resource \<Rightarrow> (token_resource \<times> cb_event list \<times> nat) option" where
  "token_step (Request cb n h) s = do { (s', _, ev) \<leftarrow> token_request cb n h s; Some (s', ev, 0) }"
| "token_step (TryRequest n) s = do {
     (s', ok) \<leftarrow> try_request n s;
     Some (s', [], if ok then unat n else 0)
   }"
| "token_step (Release n) s = do { (s', ev) \<leftarrow> token_release n s; Some (s', ev, 0) }"
| "token_step (AddTokens n) s = do { (s', ev) \<leftarrow> add_tokens n s; Some (s', ev, 0) }"

fun token_run ::
    "token_op list \<Rightarrow> token_resource \<Rightarrow> (token_resource \<times> cb_event list \<times> nat) option" where
  "token_run [] s = Some (s, [], 0)"
| "token_run (x # xs) s = do {
     (s1, ev, n) \<leftarrow> token_step x s;
     (s2, evs, ns) \<leftarrow> token_run xs s1;
     Some (s2, ev @ evs, n + ns)
   }"

definition op_waiter :: "token_op \<Rightarrow> (addr \<times> TokenRequest) list" where
  "op_waiter x = (case x of Request cb n h \<Rightarrow> [(h, \<lparr>tr_cb = cb, tr_tokens = n\<rparr>)] | _ \<Rightarrow> [])"

definition op_supply :: "token_op \<Rightarrow> nat" where
  "op_supply x = (case x of Release n \<Rightarrow> unat n | AddTokens n \<Rightarrow> unat n | _ \<Rightarrow> 0)"

definition op_positive :: "token_op \<Rightarrow> bool" where
  "op_positive x \<longleftrightarrow> (case x of Request cb n h \<Rightarrow> n \<noteq> 0 | _ \<Rightarrow> True)"

definition waiter_event :: "addr \<times> TokenRequest \<Rightarrow> cb_event" where
  "waiter_event w = (tr_cb (snd w), CB_None)"

definition demand :: "(addr \<times> TokenRequest) list \<Rightarrow> nat" where
  "demand ws = sum_list (map (\<lambda>w. unat (tr_tokens (snd w))) ws)"

text \<open>The well-formedness invariant: the resource runs and nobody waits for nothing.\<close>

definition token_inv :: "token_resource \<Rightarrow> bool" where
  "token_inv s \<longleftrightarrow> tk_started s \<and> (\<forall>w \<in> set (waitlist s). tr_tokens (snd w) \<noteq> 0)"

lemma demand_simps [simp]:
  "demand [] = 0"
  "demand (w # ws) = unat (tr_tokens (snd w)) + demand ws"
  "demand (us @ ws) = demand us + demand ws"
  by (simp_all add: demand_def)

lemma unat_minus_le: "(b :: u64) \<le> a \<Longrightarrow> unat (a - b) = unat a - unat b"
  by (simp add: unat_sub)

lemma unat_plus_no_overflow: "unat a + unat (b :: u64) < 2 ^ 64 \<Longrightarrow> unat (a + b) = unat a + unat b"
  by (simp add: unat_word_ariths)

text \<open>
  What one check does: it hands the head of the waiting list its tokens, or nobody's demand
  is met; the assertions in \<open>notify_next\<close> hold.
\<close>

lemma check_and_call_serves:
  assumes "token_inv s"
  obtains s' served where
    "check_and_call s = Some (s', map waiter_event served)"
    "waitlist s = served @ waitlist s'" "length served \<le> 1"
    "unat (tokens_available s) = unat (tokens_available s') + demand served"
    "token_inv s'"
proof (cases "waitlist s")
  case Nil
  with assms show ?thesis
    by (intro that [of s "[]"]) (auto simp: check_and_call_def token_check_def)
next
  case (Cons w rest)
  obtain h f where w: "w = (h, f)" by (cases w)
  show ?thesis
  proof (cases "tr_tokens f \<le> tokens_available s")
    case True
    let ?s = "s\<lparr>tokens_available := tokens_available s - tr_tokens f, waitlist := rest\<rparr>"
    have "check_and_call s = Some (?s, map waiter_event [w])"
      using True Cons w assms
      by (auto simp: check_and_call_def token_check_def notify_next_def waiter_event_def token_inv_def)
    then show ?thesis
      using True Cons w assms word_le_nat_alt [of "tr_tokens f" "tokens_available s"]
      by (intro that [of ?s "[w]"]) (auto simp: token_inv_def unat_minus_le)
  next
    case False
    with Cons w assms show ?thesis
      by (intro that [of s "[]"]) (auto simp: check_and_call_def token_check_def)
  qed
qed

lemma token_inv_add [simp]: "token_inv (s\<lparr>tokens_available := n\<rparr>) = token_inv s"
  by (simp add: token_inv_def)

text \<open>One step, whatever the operation: first come, first served, and no token is lost.\<close>

lemma token_step_serves:
  assumes "token_inv s" "op_positive x" "unat (tokens_available s) + op_supply x < 2 ^ 64"
  obtains s' served n where
    "token_step x s = Some (s', map waiter_event served, n)"
    "waitlist s @ op_waiter x = served @ waitlist s'"
    "unat (tokens_available s) + op_supply x = unat (tokens_available s') + demand served + n"
    "token_inv s'"
proof (cases x)
  case (Request cb n h)
  let ?w = "(h, \<lparr>tr_cb = cb, tr_tokens = n\<rparr>)"
  show ?thesis
  proof (cases "waitlist s = [] \<and> n \<le> tokens_available s")
    case True
    then show ?thesis
      using assms Request word_le_nat_alt [of n "tokens_available s"]
      by (intro that [of "s\<lparr>tokens_available := tokens_available s - n\<rparr>" "[?w]" 0])
         (auto simp: token_request_def try_request_unlocked_def token_inv_def op_waiter_def
            op_supply_def op_positive_def waiter_event_def unat_minus_le)
  next
    case False
    then show ?thesis
      using assms Request
      by (intro that [of "s\<lparr>waitlist := waitlist s @ [?w]\<rparr>" "[]" 0])
         (auto simp: token_request_def try_request_unlocked_def token_inv_def op_waiter_def
            op_supply_def op_positive_def)
  qed
next
  case (TryRequest n)
  show ?thesis
  proof (cases "snd (try_request_unlocked n s)")
    case True
    then show ?thesis
      using assms TryRequest word_le_nat_alt [of n "tokens_available s"]
      by (intro that [of "fst (try_request_unlocked n s)" "[]" "unat n"])
         (auto simp: try_request_def try_request_unlocked_def token_inv_def op_waiter_def
            op_supply_def unat_minus_le split: if_splits)
  next
    case False
    then show ?thesis
      using assms TryRequest
      by (intro that [of s "[]" 0])
         (auto simp: try_request_def try_request_unlocked_def token_inv_def op_waiter_def
            op_supply_def split: if_splits)
  qed
next
  case (Release n)
  let ?s = "s\<lparr>tokens_available := tokens_available s + n\<rparr>"
  obtain s' served where *: "check_and_call ?s = Some (s', map waiter_event served)"
    "waitlist ?s = served @ waitlist s'"
    "unat (tokens_available ?s) = unat (tokens_available s') + demand served" "token_inv s'"
    by (rule check_and_call_serves [of ?s]) (use assms(1) in auto)
  show ?thesis
    using assms Release *
    by (intro that [of s' served 0])
       (auto simp: token_release_def token_inv_def op_waiter_def op_supply_def unat_plus_no_overflow)
next
  case (AddTokens n)
  let ?s = "s\<lparr>tokens_available := tokens_available s + n\<rparr>"
  obtain s' served where *: "check_and_call ?s = Some (s', map waiter_event served)"
    "waitlist ?s = served @ waitlist s'"
    "unat (tokens_available ?s) = unat (tokens_available s') + demand served" "token_inv s'"
    by (rule check_and_call_serves [of ?s]) (use assms(1) in auto)
  show ?thesis
  proof (cases "n = 0")
    case True
    then show ?thesis
      using assms AddTokens
      by (intro that [of s "[]" 0])
         (auto simp: add_tokens_def add_tokens_limit_def op_waiter_def op_supply_def)
  next
    case False
    then show ?thesis
      using assms AddTokens *
      by (intro that [of s' served 0])
         (auto simp: add_tokens_def add_tokens_limit_def op_waiter_def op_supply_def
            unat_plus_no_overflow)
  qed
qed

text \<open>The same for a whole run: the served requests are a prefix of those made, in order.\<close>

lemma token_run_serves:
  assumes "token_inv s" "list_all op_positive xs"
    "unat (tokens_available s) + sum_list (map op_supply xs) < 2 ^ 64"
  shows "\<exists>s' served n. token_run xs s = Some (s', map waiter_event served, n) \<and>
    waitlist s @ concat (map op_waiter xs) = served @ waitlist s' \<and>
    unat (tokens_available s) + sum_list (map op_supply xs) =
      unat (tokens_available s') + demand served + n \<and> token_inv s'"
  using assms
proof (induction xs arbitrary: s)
  case Nil
  then show ?case by (intro exI [of _ s] exI [of _ "[]"] exI [of _ 0]) simp
next
  case (Cons x xs)
  obtain s1 sv1 n1 where 1: "token_step x s = Some (s1, map waiter_event sv1, n1)"
    "waitlist s @ op_waiter x = sv1 @ waitlist s1"
    "unat (tokens_available s) + op_supply x = unat (tokens_available s1) + demand sv1 + n1"
    "token_inv s1"
    by (rule token_step_serves [of s x]) (use Cons.prems in auto)
  obtain s2 sv2 n2 where 2: "token_run xs s1 = Some (s2, map waiter_event sv2, n2)"
    "waitlist s1 @ concat (map op_waiter xs) = sv2 @ waitlist s2"
    "unat (tokens_available s1) + sum_list (map op_supply xs) =
       unat (tokens_available s2) + demand sv2 + n2" "token_inv s2"
    using Cons.IH [of s1] Cons.prems 1 by auto
  have "waitlist s @ concat (map op_waiter (x # xs)) = (sv1 @ sv2) @ waitlist s2"
    using 1(2) 2(2) by (metis append.assoc concat.simps(2) list.simps(9))
  with 1 2 show ?case
    by (intro exI [of _ s2] exI [of _ "sv1 @ sv2"] exI [of _ "n1 + n2"]) auto
qed

text \<open>An element of the list that is not the one looked for keeps the loop going for ever.\<close>

lemma cancel_loop_stuck:
  assumes "a \<noteq> h"
  shows "cancel_loop h pre ((a, f) # rest) = None"
proof (cases "cancel_loop h pre ((a, f) # rest)")
  case (Some r)
  have "(\<exists>g xs. I = (a, g) # xs) \<longrightarrow> h' \<noteq> a \<longrightarrow> False" if "cancel_loop h' p I = Some y" for h' p I y
    using that
    by (rule cancel_loop.raw_induct [rotated]) (auto split: list.splits if_splits)
  with Some assms show ?thesis by blast
qed simp

subsection \<open>Properties\<close>





text \<open>
  (C31) \<open>cancel (h)\<close> returns only when the waiting list is empty or \<open>h\<close> is its first
  element; the search loop does not advance its iterator, so for any other handle, also that of
  a request waiting further back, it never returns. When it returns it removes the request
  and calls its callback with the cancellation.
\<close>

theorem token_cancel_returns_iff:
  "token_cancel h s =
     (case waitlist s of
        [] \<Rightarrow> Some (s, False, [])
      | (a, f) # rest \<Rightarrow>
          if a = h then Some (s\<lparr>waitlist := rest\<rparr>, True, [(tr_cb f, CB_Cancelled h)]) else None)"
  by (cases "waitlist s")
     (auto simp: token_cancel_def cancel_loop_stuck cancel_loop.simps [of _ _ "[]"]
       cancel_loop.simps [of h _ "(h, _) # _"])

text \<open>
  One call of \<open>add_tokens\<close> or \<open>release\<close> wakes at most one waiter, even when it
  supplies enough tokens for several: after two requests for one token each and one release of
  two tokens, the second request is still waiting although its token is free.
\<close>

lemma token_release_wakes_one:
  "token_run [Request 1 1 100, Request 2 1 101, Release 2] ((TokenResource 0)\<lparr>tk_started := True\<rparr>) =
     Some (\<lparr>tokens_available = 1, waitlist = [(101, \<lparr>tr_cb = 2, tr_tokens = 1\<rparr>)],
            tk_started = True\<rparr>, [(1, CB_None)], 0)"
  by code_simp

end
