(* ===== verification/Std_Containers.thy ===== *)
theory Std_Containers
  imports Iofsl_Prelude
begin

text \<open>
  \<open>std::set\<close> and \<open>std::map\<close> as the code uses them: a set is the strictly ascending list
  of its elements, a map the list of its key/value pairs with strictly ascending keys, which is
  the order in which the iterators of both visit them.
\<close>

abbreviation ascending :: "'a::linorder list \<Rightarrow> bool" where
  "ascending xs \<equiv> sorted_wrt (<) xs"

fun sset_insert :: "'a::linorder \<Rightarrow> 'a list \<Rightarrow> 'a list" where
  "sset_insert x [] = [x]"
| "sset_insert x (y # ys) =
     (if x < y then x # y # ys else if x = y then y # ys else y # sset_insert x ys)"

definition sset_erase :: "'a \<Rightarrow> 'a list \<Rightarrow> 'a list" where
  "sset_erase x xs = filter (\<lambda>y. y \<noteq> x) xs"

text \<open>\<open>m[k] = v\<close>, \<open>m.erase (k)\<close> and the iteration that starts at \<open>m.lower_bound (k)\<close>.\<close>

fun smap_put :: "'k::linorder \<Rightarrow> 'v \<Rightarrow> ('k \<times> 'v) list \<Rightarrow> ('k \<times> 'v) list" where
  "smap_put k v [] = [(k, v)]"
| "smap_put k v ((a, b) # m) =
     (if k < a then (k, v) # (a, b) # m
      else if k = a then (k, v) # m
      else (a, b) # smap_put k v m)"

definition smap_erase :: "'k \<Rightarrow> ('k \<times> 'v) list \<Rightarrow> ('k \<times> 'v) list" where
  "smap_erase k m = filter (\<lambda>p. fst p \<noteq> k) m"

definition smap_lower_bound :: "'k::linorder \<Rightarrow> ('k \<times> 'v) list \<Rightarrow> ('k \<times> 'v) list" where
  "smap_lower_bound k m = dropWhile (\<lambda>p. fst p < k) m"

text \<open>A map that is in order.\<close>

definition smap_ok :: "('k::linorder \<times> 'v) list \<Rightarrow> bool" where
  "smap_ok m \<longleftrightarrow> ascending (map fst m)"

lemma set_sset_insert [simp]: "set (sset_insert x xs) = insert x (set xs)"
  by (induction xs) auto

lemma ascending_sset_insert [simp]: "ascending xs \<Longrightarrow> ascending (sset_insert x xs)"
  by (induction xs) auto

lemma set_sset_erase [simp]: "set (sset_erase x xs) = set xs - {x}"
  by (auto simp: sset_erase_def)

lemma ascending_sset_erase [simp]: "ascending xs \<Longrightarrow> ascending (sset_erase x xs)"
  by (simp add: sset_erase_def sorted_wrt_filter)

lemma ascending_distinct: "ascending xs \<Longrightarrow> distinct xs"
  by (induction xs) auto

lemma ascending_unique: "ascending xs \<Longrightarrow> ascending ys \<Longrightarrow> set xs = set ys \<Longrightarrow> xs = ys"
  by (metis strict_sorted_equal)

lemma set_smap_put:
  "smap_ok m \<Longrightarrow> set (smap_put k v m) = insert (k, v) {p \<in> set m. fst p \<noteq> k}"
  by (induction k v m rule: smap_put.induct) (auto simp: smap_ok_def)

lemma keys_smap_put: "fst ` set (smap_put k v m) = insert k (fst ` set m)"
  by (induction k v m rule: smap_put.induct) auto

lemma smap_ok_put [simp]: "smap_ok m \<Longrightarrow> smap_ok (smap_put k v m)"
proof (induction k v m rule: smap_put.induct)
  case (2 k v a b m)
  have "ascending (map fst (smap_put k v m))" if "\<not> k < a" "k \<noteq> a"
    using 2 that by (auto simp: smap_ok_def)
  moreover have "\<forall>x \<in> fst ` set (smap_put k v m). a < x" if "\<not> k < a" "k \<noteq> a"
    using 2(2) that unfolding keys_smap_put by (auto simp: smap_ok_def)
  ultimately show ?case
    using 2(2) by (force simp: smap_ok_def)
qed (simp add: smap_ok_def)

lemma set_smap_erase [simp]: "set (smap_erase k m) = {p \<in> set m. fst p \<noteq> k}"
  by (auto simp: smap_erase_def)

lemma smap_ok_erase [simp]: "smap_ok m \<Longrightarrow> smap_ok (smap_erase k m)"
  by (induction m) (auto simp: smap_ok_def smap_erase_def)

lemma set_smap_lower_bound: "smap_ok m \<Longrightarrow> set (smap_lower_bound k m) = {p \<in> set m. k \<le> fst p}"
  by (induction m) (force simp: smap_ok_def smap_lower_bound_def)+

lemma smap_ok_lower_bound [simp]: "smap_ok m \<Longrightarrow> smap_ok (smap_lower_bound k m)"
  by (induction m) (auto simp: smap_ok_def smap_lower_bound_def)

lemma smap_ok_Cons: "smap_ok ((k, v) # m) \<longleftrightarrow> smap_ok m \<and> (\<forall>p \<in> set m. k < fst p)"
  by (auto simp: smap_ok_def)

lemma smap_ok_Nil [simp]: "smap_ok []"
  by (simp add: smap_ok_def)

lemma set_takeWhile_mono:
  "sorted_wrt (\<lambda>x y. P y \<longrightarrow> P x) xs \<Longrightarrow> set (takeWhile P xs) = {x \<in> set xs. P x}"
  by (induction xs) auto

lemma set_fold_sset_insert: "set (fold sset_insert xs s) = set xs \<union> set s"
  by (induction xs arbitrary: s) auto

lemma ascending_fold_sset_insert: "ascending s \<Longrightarrow> ascending (fold sset_insert xs s)"
  by (induction xs arbitrary: s) auto

lemma smap_ok_sorted_wrt: "smap_ok m \<longleftrightarrow> sorted_wrt (\<lambda>p q. fst p < fst q) m"
  by (simp add: smap_ok_def sorted_wrt_map)

lemma interval_touch:
  fixes s e s' e' :: "'a::linorder"
  assumes "s \<le> e" "s' \<le> e'"
  shows "s \<le> e' \<and> s' \<le> e \<longleftrightarrow>
    (s' \<le> s \<and> s \<le> e') \<or> (s' \<le> e \<and> e \<le> e') \<or> (s \<le> s' \<and> e' \<le> e)"
  using assms by (meson linear order.trans)

lemma mset_sset_insert: "x \<notin> set xs \<Longrightarrow> mset (sset_insert x xs) = add_mset x (mset xs)"
  by (induction xs) auto

lemma mset_concat_filter:
  "mset (concat (map f (filter P xs))) + mset (concat (map f (filter (\<lambda>x. \<not> P x) xs))) =
   mset (concat (map f xs))"
  by (induction xs) auto

lemma mset_concat_map: "mset (concat (map f xs)) = (\<Sum>x \<in># mset xs. mset (f x))"
  by (induction xs) auto

lemma Min_eq_dominating:
  fixes A B :: "'c::linorder set"
  assumes "finite A" "finite B" "A \<noteq> {}" "B \<noteq> {}"
    "\<And>a. a \<in> A \<Longrightarrow> \<exists>b \<in> B. b \<le> a" "\<And>b. b \<in> B \<Longrightarrow> \<exists>a \<in> A. a \<le> b"
  shows "Min A = Min B"
  proof (rule antisym)
  obtain a where "a \<in> A" "a \<le> Min B" using assms(6) Min_in [OF assms(2,4)] by blast
  then show "Min A \<le> Min B" using Min_le [OF assms(1)] by (blast intro: order.trans)
  obtain b where "b \<in> B" "b \<le> Min A" using assms(5) Min_in [OF assms(1,3)] by blast
  then show "Min B \<le> Min A" using Min_le [OF assms(2)] by (blast intro: order.trans)
qed

lemma Max_eq_dominating:
  fixes A B :: "'c::linorder set"
  assumes "finite A" "finite B" "A \<noteq> {}" "B \<noteq> {}"
    "\<And>a. a \<in> A \<Longrightarrow> \<exists>b \<in> B. a \<le> b" "\<And>b. b \<in> B \<Longrightarrow> \<exists>a \<in> A. b \<le> a"
  shows "Max A = Max B"
  proof (rule antisym)
  obtain b where "b \<in> B" "Max A \<le> b" using assms(5) Max_in [OF assms(1,3)] by blast
  then show "Max A \<le> Max B" using Max_ge [OF assms(2)] by (blast intro: order.trans)
  obtain a where "a \<in> A" "Max B \<le> a" using assms(6) Max_in [OF assms(2,4)] by blast
  then show "Max B \<le> Max A" using Max_ge [OF assms(1)] by (blast intro: order.trans)
qed

lemma Min_nested:
  fixes g :: "'b \<Rightarrow> 'c::linorder"
  assumes "finite T" "\<And>a. a \<in> T \<Longrightarrow> finite (L a) \<and> L a \<noteq> {} \<and> f a = Min (g ` L a)"
  shows "Min (insert v (f ` T)) = Min (insert v (g ` (\<Union>a \<in> T. L a)))"
proof (rule Min_eq_dominating)
  have in_L: "f a \<in> g ` L a" "\<And>c. c \<in> L a \<Longrightarrow> f a \<le> g c" if "a \<in> T" for a
    using assms(2) [OF that] Min_in [of "g ` L a"] by auto
  show "\<exists>b \<in> insert v (g ` (\<Union>a \<in> T. L a)). b \<le> y" if "y \<in> insert v (f ` T)" for y
    using that in_L(1) by blast
  show "\<exists>y \<in> insert v (f ` T). y \<le> b" if "b \<in> insert v (g ` (\<Union>a \<in> T. L a))" for b
    using that in_L(2) by blast
qed (use assms in auto)

lemma Max_nested:
  fixes g :: "'b \<Rightarrow> 'c::linorder"
  assumes "finite T" "\<And>a. a \<in> T \<Longrightarrow> finite (L a) \<and> L a \<noteq> {} \<and> f a = Max (g ` L a)"
  shows "Max (insert v (f ` T)) = Max (insert v (g ` (\<Union>a \<in> T. L a)))"
proof (rule Max_eq_dominating)
  have in_L: "f a \<in> g ` L a" "\<And>c. c \<in> L a \<Longrightarrow> g c \<le> f a" if "a \<in> T" for a
    using assms(2) [OF that] Max_in [of "g ` L a"] by auto
  show "\<exists>b \<in> insert v (g ` (\<Union>a \<in> T. L a)). y \<le> b" if "y \<in> insert v (f ` T)" for y
    using that in_L(1) by blast
  show "\<exists>y \<in> insert v (f ` T). b \<le> y" if "b \<in> insert v (g ` (\<Union>a \<in> T. L a))" for b
    using that in_L(2) by blast
qed (use assms in auto)

text \<open>A range that does not touch \<open>r\<close> and is apart from each range that does is apart from their hull.\<close>

lemma hull_apart:
  fixes s e :: "'a::linorder"
  assumes "finite T" "sb \<le> eb" "\<not> (sb \<le> e \<and> s \<le> eb)" "s \<le> e"
    "\<And>a. a \<in> T \<Longrightarrow> sa a \<le> e \<and> s \<le> ea a \<and> \<not> (sb \<le> ea a \<and> sa a \<le> eb)"
  shows "\<not> (sb \<le> Max (insert e (ea ` T)) \<and> Min (insert s (sa ` T)) \<le> eb)"
proof (cases "sb \<le> e")
  case True
  then have "eb < s" using assms(3) by auto
  moreover have "eb < sa a" if "a \<in> T" for a
  proof -
    have "s \<le> ea a" using assms(5) [OF that] by simp
    then have "sb \<le> ea a" using \<open>eb < s\<close> assms(2) by order
    then show ?thesis using assms(5) [OF that] by auto
  qed
  ultimately have "eb < Min (insert s (sa ` T))"
    using assms(1) by (subst Min_gr_iff) auto
  then show ?thesis by auto
next
  case False
  moreover have "ea a < sb" if "a \<in> T" for a
  proof -
    have "sa a \<le> e" using assms(5) [OF that] by simp
    then have "sa a \<le> eb" using False assms(2) by order
    then show ?thesis using assms(5) [OF that] by auto
  qed
  ultimately have "Max (insert e (ea ` T)) < sb"
    using assms(1) by (subst Max_less_iff) auto
  then show ?thesis by auto
qed

lemma hull_bytes:
  fixes s e :: "'a::linorder"
  assumes "finite T" "s \<le> e" "\<And>a. a \<in> T \<Longrightarrow> sa a \<le> e \<and> s \<le> ea a"
  shows "{Min (insert s (sa ` T)) ..< Max (insert e (ea ` T))} = {s ..< e} \<union> (\<Union>a \<in> T. {sa a ..< ea a})"
proof (intro equalityI subsetI)
  fix x assume x: "x \<in> {Min (insert s (sa ` T)) ..< Max (insert e (ea ` T))}"
  have "Min (insert s (sa ` T)) \<in> insert s (sa ` T)" "Max (insert e (ea ` T)) \<in> insert e (ea ` T)"
    using assms(1) by (intro Min_in Max_in; simp)+
  then consider "s \<le> x" "x < e" | a where "a \<in> T" "sa a \<le> x" "x < s" | a where "a \<in> T" "e \<le> x" "x < ea a"
    using x by (auto simp: not_le) (metis not_le)+
  then show "x \<in> {s ..< e} \<union> (\<Union>a \<in> T. {sa a ..< ea a})"
  proof cases
    case (2 a)
    then have "x < ea a" using assms(3) [of a] by auto
    then show ?thesis using 2 by auto
  next
    case (3 a)
    then have "sa a \<le> x" using assms(3) [of a] by auto
    then show ?thesis using 3 by auto
  qed simp
next
  fix x assume "x \<in> {s ..< e} \<union> (\<Union>a \<in> T. {sa a ..< ea a})"
  then obtain b c where "b \<in> insert s (sa ` T)" "c \<in> insert e (ea ` T)" "b \<le> x" "x < c" by auto
  moreover from this have "Min (insert s (sa ` T)) \<le> b" "c \<le> Max (insert e (ea ` T))"
    using assms(1) by (intro Min_le Max_ge; simp)+
  ultimately show "x \<in> {Min (insert s (sa ` T)) ..< Max (insert e (ea ` T))}"
    by (metis atLeastLessThan_iff order.strict_trans2 order.trans)
qed

lemma distinct_concat_filter:
  "distinct (concat (map f xs)) \<Longrightarrow> distinct (concat (map f (filter P xs)))"
  by (induction xs) auto

end
