(* ===== verification/Ranges.thy ===== *)
theory Ranges
  imports Std_Containers
begin

text \<open>
  The byte ranges of queued requests (\<open>src/iofwd/Range.hh\<close>). A \<open>ChildRange\<close> is one
  extent of one request, a \<open>ParentRange\<close> the merge of several of them. The objects live on
  the free store \<open>range_obj heap\<close> and refer to each other by address. A field that a
  constructor leaves without a value is \<open>None\<close>: its value is indeterminate.
\<close>

datatype RangeType = RANGE_WRITE | RANGE_READ

record range_fields =
  rtype :: "RangeType option"
  rhandle :: "addr option"
  rbuf :: "addr option"
  rst :: u64
  ren :: u64
  rhint :: "addr option"
  rcb :: addr

datatype range_obj =
    ChildRange (range_fields: range_fields)
  | ParentRange (range_fields: range_fields) (child_ranges: "addr list") (child_cbs: "addr list")

type_synonym range_heap = "range_obj heap"

abbreviation st_of :: "range_obj \<Rightarrow> u64" where
  "st_of x \<equiv> rst (range_fields x)"

abbreviation en_of :: "range_obj \<Rightarrow> u64" where
  "en_of x \<equiv> ren (range_fields x)"

abbreviation cb_of :: "range_obj \<Rightarrow> addr" where
  "cb_of x \<equiv> rcb (range_fields x)"

definition init_fields :: "u64 \<Rightarrow> u64 \<Rightarrow> range_fields" where
  "init_fields st en = \<lparr>rtype = None, rhandle = None, rbuf = None, rst = st, ren = en,
     rhint = None, rcb = null\<rparr>"

definition new_ChildRange :: "u64 \<Rightarrow> u64 \<Rightarrow> range_obj" where
  "new_ChildRange st en = ChildRange (init_fields st en)"

definition new_ParentRange :: "u64 \<Rightarrow> u64 \<Rightarrow> range_obj" where
  "new_ParentRange st en = ParentRange (init_fields st en) [] []"

fun hasSubIntervals :: "range_obj \<Rightarrow> bool" where
  "hasSubIntervals (ChildRange f) = False"
| "hasSubIntervals (ParentRange f cs cbs) = True"

text \<open>The insertion wrappers, on the value of a \<open>ParentRange\<close>.\<close>

fun insertMultipleChildren :: "addr list \<Rightarrow> range_obj \<Rightarrow> range_obj" where
  "insertMultipleChildren rs (ParentRange f cs cbs) = ParentRange f (cs @ rs) cbs"
| "insertMultipleChildren rs (ChildRange f) = ChildRange f"

fun insertMultipleCBs :: "addr list \<Rightarrow> range_obj \<Rightarrow> range_obj" where
  "insertMultipleCBs bs (ParentRange f cs cbs) = ParentRange f cs (cbs @ bs)"
| "insertMultipleCBs bs (ChildRange f) = ChildRange f"

definition insertSingleChild :: "addr \<Rightarrow> range_obj \<Rightarrow> range_obj" where
  "insertSingleChild r x = insertMultipleChildren [r] x"

definition insertSingleCB :: "addr \<Rightarrow> range_obj \<Rightarrow> range_obj" where
  "insertSingleCB b x = insertMultipleCBs [b] x"

fun map_fields :: "(range_fields \<Rightarrow> range_fields) \<Rightarrow> range_obj \<Rightarrow> range_obj" where
  "map_fields g (ChildRange f) = ChildRange (g f)"
| "map_fields g (ParentRange f cs cbs) = ParentRange (g f) cs cbs"

text \<open>The interval update at the head of \<open>ParentRange::merge\<close> and \<open>ParentRange::add\<close>.\<close>

definition widen :: "range_obj \<Rightarrow> range_fields \<Rightarrow> range_fields" where
  "widen c f =
     (let f1 = (if rst f > st_of c then f\<lparr>rst := st_of c\<rparr> else f)
      in if ren f1 < en_of c then f1\<lparr>ren := en_of c\<rparr> else f1)"

fun parent_merge :: "range_obj \<Rightarrow> range_obj \<Rightarrow> range_obj" where
  "parent_merge (ParentRange g cs cbs) p =
     insertMultipleCBs cbs (insertMultipleChildren cs (map_fields (widen (ParentRange g cs cbs)) p))"
| "parent_merge (ChildRange g) p = p"

definition parent_add :: "addr \<Rightarrow> range_obj \<Rightarrow> range_obj \<Rightarrow> range_obj" where
  "parent_add a c p =
     insertSingleCB (cb_of c) (insertSingleChild a (map_fields (widen c) p))"

definition range_eq :: "range_obj \<Rightarrow> range_obj \<Rightarrow> bool" where
  "range_eq r1 r2 \<longleftrightarrow> st_of r1 = st_of r2 \<and> en_of r1 = en_of r2"

definition range_less :: "range_obj \<Rightarrow> range_obj \<Rightarrow> bool" where
  "range_less r1 r2 \<longleftrightarrow>
     (if st_of r1 = st_of r2 then en_of r1 < en_of r2 else st_of r1 < st_of r2)"

text \<open>
  \<open>delete r\<close>: the destructor of a parent first deletes its children, one by one from the
  front (\<open>destroySubRanges\<close>).
\<close>

fun destroySubRanges :: "addr list \<Rightarrow> range_heap \<Rightarrow> range_heap option" where
  "destroySubRanges [] h = Some h"
| "destroySubRanges (c # cs) h = do { h1 \<leftarrow> heap_delete c h; destroySubRanges cs h1 }"

definition delete_range :: "addr \<Rightarrow> range_heap \<Rightarrow> range_heap option" where
  "delete_range a h = do {
     x \<leftarrow> heap_read h a;
     (case x of
        ChildRange f \<Rightarrow> heap_delete a h
      | ParentRange f cs cbs \<Rightarrow> do { h1 \<leftarrow> destroySubRanges cs h; heap_delete a h1 })
   }"

subsection \<open>Leaves\<close>

text \<open>The extents a range stands for: itself, or its children.\<close>

definition leaf_addrs :: "range_heap \<Rightarrow> addr \<Rightarrow> addr list" where
  "leaf_addrs h a =
     (case hp_objs h a of
        Some (ChildRange f) \<Rightarrow> [a]
      | Some (ParentRange f cs cbs) \<Rightarrow> cs
      | None \<Rightarrow> [])"

definition leaf_ok :: "range_heap \<Rightarrow> addr \<Rightarrow> bool" where
  "leaf_ok h a \<longleftrightarrow> (\<exists>f. hp_objs h a = Some (ChildRange f) \<and> rst f \<le> ren f)"

text \<open>The start, end and callback of the range at an address.\<close>

definition st_at :: "range_heap \<Rightarrow> addr \<Rightarrow> u64" where
  "st_at h a = (case hp_objs h a of Some x \<Rightarrow> st_of x | None \<Rightarrow> 0)"

definition en_at :: "range_heap \<Rightarrow> addr \<Rightarrow> u64" where
  "en_at h a = (case hp_objs h a of Some x \<Rightarrow> en_of x | None \<Rightarrow> 0)"

definition cb_at :: "range_heap \<Rightarrow> addr \<Rightarrow> addr" where
  "cb_at h a = (case hp_objs h a of Some x \<Rightarrow> cb_of x | None \<Rightarrow> null)"

lemmas at_simps = st_at_def en_at_def cb_at_def

lemma range_fields_widen [simp]:
  "rst (widen c f) = min (rst f) (st_of c)"
  "ren (widen c f) = max (ren f) (en_of c)"
  by (auto simp: widen_def Let_def min_def max_def)

text \<open>Deleting a list of distinct live objects succeeds and removes exactly them.\<close>

lemma destroySubRanges_Some:
  "distinct cs \<Longrightarrow> \<forall>c \<in> set cs. hp_objs h c \<noteq> None \<Longrightarrow>
   destroySubRanges cs h = Some (h\<lparr>hp_objs := hp_objs h |` (- set cs)\<rparr>)"
proof (induction cs arbitrary: h)
  case Nil
  show ?case by (simp add: restrict_map_def)
next
  case (Cons c cs)
  let ?h = "h\<lparr>hp_objs := (hp_objs h)(c := None)\<rparr>"
  have "heap_delete c h = Some ?h"
    using Cons.prems by (simp add: heap_simps)
  moreover have "destroySubRanges cs ?h = Some (?h\<lparr>hp_objs := hp_objs ?h |` (- set cs)\<rparr>)"
    using Cons.prems by (intro Cons.IH) auto
  moreover have "hp_objs ?h |` (- set cs) = hp_objs h |` (- set (c # cs))"
    by (auto simp: restrict_map_def fun_eq_iff)
  ultimately show ?case by simp
qed

text \<open>
  A range in the set is well formed: a child covers a valid interval; a parent has valid
  children, one callback per child, and is their convex hull.
\<close>

definition range_ok :: "range_heap \<Rightarrow> addr \<Rightarrow> bool" where
  "range_ok h a \<longleftrightarrow>
     (case hp_objs h a of
        None \<Rightarrow> False
      | Some (ChildRange f) \<Rightarrow> rst f \<le> ren f
      | Some (ParentRange f cs cbs) \<Rightarrow>
          cs \<noteq> [] \<and> distinct cs \<and> (\<forall>c \<in> set cs. leaf_ok h c) \<and> cbs = map (cb_at h) cs \<and>
          rst f = Min (st_at h ` set cs) \<and> ren f = Max (en_at h ` set cs))"

lemma leaf_okD: "leaf_ok h a \<Longrightarrow> hp_objs h a \<noteq> None \<and> st_at h a \<le> en_at h a"
  by (auto simp: leaf_ok_def at_simps)

lemma range_okD:
  assumes "range_ok h a"
  shows "hp_objs h a \<noteq> None" "st_at h a \<le> en_at h a"
proof -
  show "hp_objs h a \<noteq> None" using assms by (auto simp: range_ok_def split: option.splits)
  then obtain x where x: "hp_objs h a = Some x" by auto
  show "st_at h a \<le> en_at h a"
  proof (cases x)
    case (ChildRange f)
    then show ?thesis using assms x by (simp add: range_ok_def at_simps)
  next
    case (ParentRange f cs cbs)
    then obtain c where c: "c \<in> set cs" "leaf_ok h c"
      using assms x by (cases cs) (auto simp: range_ok_def)
    have "Min (st_at h ` set cs) \<le> st_at h c" "en_at h c \<le> Max (en_at h ` set cs)"
      using c by simp_all
    then show ?thesis
      using ParentRange assms x leaf_okD [OF c(2)] by (auto simp: range_ok_def at_simps)
  qed
qed

definition cb_addrs :: "range_heap \<Rightarrow> addr \<Rightarrow> addr list" where
  "cb_addrs h a =
     (case hp_objs h a of
        Some (ChildRange f) \<Rightarrow> [rcb f] | Some (ParentRange f cs cbs) \<Rightarrow> cbs | None \<Rightarrow> [])"

text \<open>Ranges whose objects and children a step leaves alone.\<close>

definition same_range :: "range_heap \<Rightarrow> range_heap \<Rightarrow> addr \<Rightarrow> bool" where
  "same_range h h' a \<longleftrightarrow> hp_objs h' a = hp_objs h a \<and>
     (\<forall>c \<in> set (leaf_addrs h a). hp_objs h' c = hp_objs h c)"

lemma same_rangeD:
  assumes "same_range h h' a"
  shows "st_at h' a = st_at h a" "en_at h' a = en_at h a" "leaf_addrs h' a = leaf_addrs h a"
    "range_ok h' a = range_ok h a"
proof -
  have eq: "hp_objs h' a = hp_objs h a" and
    ch: "\<And>c. c \<in> set (leaf_addrs h a) \<Longrightarrow> hp_objs h' c = hp_objs h c"
    using assms by (auto simp: same_range_def)
  show "st_at h' a = st_at h a" "en_at h' a = en_at h a" "leaf_addrs h' a = leaf_addrs h a"
    using eq by (simp_all add: at_simps leaf_addrs_def)
  have at: "cb_at h' c = cb_at h c" "st_at h' c = st_at h c" "en_at h' c = en_at h c"
    "leaf_ok h' c = leaf_ok h c" if "c \<in> set (leaf_addrs h a)" for c
    using ch [OF that] by (simp_all add: at_simps leaf_ok_def)
  show "range_ok h' a = range_ok h a"
  proof (cases "hp_objs h a")
    case (Some x)
    then show ?thesis
    proof (cases x)
      case (ParentRange f cs cbs)
      then have cs: "leaf_addrs h a = cs" using Some by (simp add: leaf_addrs_def)
      have "map (cb_at h') cs = map (cb_at h) cs" "st_at h' ` set cs = st_at h ` set cs"
        "en_at h' ` set cs = en_at h ` set cs"
        using at unfolding cs by (simp_all cong: image_cong)
      then show ?thesis
        using Some ParentRange eq at(4) unfolding cs by (simp add: range_ok_def cong: map_cong)
    qed (simp add: range_ok_def eq)
  qed (simp add: range_ok_def eq)
qed

lemma range_ok_leaves:
  assumes "range_ok h a"
  shows "leaf_addrs h a \<noteq> []" "\<And>c. c \<in> set (leaf_addrs h a) \<Longrightarrow> leaf_ok h c"
    "cb_addrs h a = map (cb_at h) (leaf_addrs h a)"
    "st_at h a = Min (st_at h ` set (leaf_addrs h a))"
    "en_at h a = Max (en_at h ` set (leaf_addrs h a))"
  using assms
  by (auto simp: range_ok_def leaf_addrs_def cb_addrs_def leaf_ok_def at_simps
      split: option.splits range_obj.splits)

lemma leaf_ok_range_ok: "leaf_ok h a \<Longrightarrow> range_ok h a \<and> leaf_addrs h a = [a]"
  by (auto simp: leaf_ok_def range_ok_def leaf_addrs_def)

text \<open>The bytes of a range, and the maximal runs of a set of bytes.\<close>

definition bytes_at :: "range_heap \<Rightarrow> addr \<Rightarrow> u64 set" where
  "bytes_at h a = {st_at h a ..< en_at h a}"

definition byte_runs :: "u64 set \<Rightarrow> (u64 \<times> u64) set" where
  "byte_runs B = {(s, e). s < e \<and> {s ..< e} \<subseteq> B \<and> e \<notin> B \<and> (\<forall>t < s. \<not> {t ..< s} \<subseteq> B)}"

text \<open>Separated intervals are the maximal runs of their union.\<close>

lemma separated_runs:
  assumes "\<And>s e. (s, e) \<in> I \<Longrightarrow> s < e"
    and "\<And>s e s' e'. (s, e) \<in> I \<Longrightarrow> (s', e') \<in> I \<Longrightarrow> s \<le> e' \<Longrightarrow> s' \<le> e \<Longrightarrow> s = s' \<and> e = e'"
  shows "byte_runs (\<Union>(s, e) \<in> I. {s ..< e}) = I"
proof -
  let ?B = "\<Union>(s, e) \<in> I. {s ..< e}"
  have end_out: "e \<notin> ?B" if "(s, e) \<in> I" for s e
  proof
    assume "e \<in> ?B"
    then obtain s' e' where se: "(s', e') \<in> I" "s' \<le> e" "e < e'" by auto
    then have "s \<le> e'" using assms(1) [OF that] by order
    then show False using assms(2) [OF that se(1) _ se(2)] se(3) by auto
  qed
  have run_sub: "{s ..< e} \<subseteq> ?B" if "(s, e) \<in> I" for s e
    using that by auto
  have start: "\<not> {t ..< s} \<subseteq> ?B" if "(s, e) \<in> I" "t < s" for s e t
  proof
    assume *: "{t ..< s} \<subseteq> ?B"
    then have "t \<in> ?B" using that(2) by (meson atLeastLessThan_iff order_refl subsetD)
    then obtain s' e' where se: "(s', e') \<in> I" "s' \<le> t" "t < e'" by auto
    have "s' \<le> e" using se that assms(1) [OF that(1)] by order
    have "e' < s"
    proof (rule ccontr)
      assume "\<not> e' < s"
      then have "s = s'" using assms(2) [OF that(1) se(1) _ \<open>s' \<le> e\<close>] by auto
      then show False using se that by order
    qed
    then have "e' \<in> ?B" using * se(3) by (meson atLeastLessThan_iff less_imp_le subsetD)
    then show False using end_out [OF se(1)] by simp
  qed
  have "(s, e) \<in> I" if "(s, e) \<in> byte_runs ?B" for s e
  proof -
    have r: "s < e" "{s ..< e} \<subseteq> ?B" "e \<notin> ?B" "\<And>t. t < s \<Longrightarrow> \<not> {t ..< s} \<subseteq> ?B"
      using that by (auto simp: byte_runs_def)
    then have "s \<in> ?B" by (meson atLeastLessThan_iff order_refl subsetD)
    then obtain s' e' where se: "(s', e') \<in> I" "s' \<le> s" "s < e'" by auto
    have "\<not> s' < s"
    proof
      assume "s' < s"
      moreover have "{s' ..< s} \<subseteq> {s' ..< e'}" using se by auto
      ultimately show False using r(4) run_sub [OF se(1)] by blast
    qed
    moreover have "\<not> e < e'"
      using r(1,3) se run_sub [OF se(1)] by (meson atLeastLessThan_iff less_imp_le order.trans subsetD)
    moreover have "\<not> e' < e"
      using end_out [OF se(1)] r(2) se(3) by (meson atLeastLessThan_iff less_imp_le subsetD)
    ultimately have "s = s'" "e = e'" using se(2) by auto
    then show ?thesis using se(1) by simp
  qed
  moreover have "(s, e) \<in> byte_runs ?B" if "(s, e) \<in> I" for s e
    unfolding byte_runs_def using that assms(1) run_sub end_out start by (simp del: UN_iff)
  ultimately show ?thesis by auto
qed

lemma range_ok_nonempty:
  assumes "range_ok h a" "\<And>c. c \<in> set (leaf_addrs h a) \<Longrightarrow> st_at h c < en_at h c"
  shows "st_at h a < en_at h a"
proof -
  note lv = range_ok_leaves [OF assms(1)]
  obtain c where c: "c \<in> set (leaf_addrs h a)" using lv(1) by (cases "leaf_addrs h a") auto
  have "st_at h a \<le> st_at h c" "en_at h c \<le> en_at h a" unfolding lv(4,5) using c by simp_all
  then show ?thesis using assms(2) [OF c] by order
qed

text \<open>Deleting a well-formed range frees exactly the range and its children.\<close>

lemma delete_range_Some:
  assumes "range_ok h a"
  shows "delete_range a h = Some (h\<lparr>hp_objs := hp_objs h |` (- insert a (set (leaf_addrs h a)))\<rparr>)"
proof -
  obtain x where x: "hp_objs h a = Some x" using range_okD(1) [OF assms] by auto
  show ?thesis
  proof (cases x)
    case (ChildRange f)
    then show ?thesis
      using x by (auto simp: delete_range_def heap_read_def heap_delete_def leaf_addrs_def restrict_map_def fun_eq_iff)
  next
    case (ParentRange f cs cbs)
    have cs: "distinct cs" "\<And>c. c \<in> set cs \<Longrightarrow> leaf_ok h c" "leaf_addrs h a = cs"
      using assms x ParentRange by (auto simp: range_ok_def leaf_addrs_def)
    then have "\<forall>c \<in> set cs. hp_objs h c \<noteq> None" using leaf_okD by blast
    moreover have "\<not> leaf_ok h a" using x ParentRange by (simp add: leaf_ok_def)
    then have "a \<notin> set cs" using cs(2) by blast
    moreover have "(hp_objs h |` (- set cs))(a := None) = hp_objs h |` (- insert a (set cs))"
      by (auto simp: restrict_map_def fun_eq_iff)
    ultimately show ?thesis
      using x ParentRange cs destroySubRanges_Some [OF cs(1), of h]
      by (simp add: delete_range_def heap_read_def heap_delete_def)
  qed
qed

end
