(* ===== verification/Base_Range_Set.thy ===== *)
theory Base_Range_Set
  imports Ranges
begin

text \<open>
  \<open>iofwd::BaseRangeSet\<close> (\<open>src/iofwd/BaseRangeSet.hh\<close>), the abstract class behind which the
  range mergers hide: the virtual functions as a record of functions over the state of the
  concrete class, and the contract of the class as a locale.
\<close>

record 's BaseRangeSet =
  brs_new :: 's
  brs_add :: "range_heap \<Rightarrow> 's \<Rightarrow> addr \<Rightarrow> (range_heap \<times> 's) option"
  brs_get :: "range_heap \<Rightarrow> 's \<Rightarrow> (range_heap \<times> 's \<times> addr) option"
  brs_empty :: "'s \<Rightarrow> bool"
  brs_delete :: "range_heap \<Rightarrow> 's \<Rightarrow> range_heap option"

text \<open>The direction and file handle of a range, and the objects a range stands for.\<close>

definition labelled :: "range_heap \<Rightarrow> RangeType \<times> addr \<Rightarrow> addr \<Rightarrow> bool" where
  "labelled h l a \<longleftrightarrow>
     (case hp_objs h a of None \<Rightarrow> False
      | Some x \<Rightarrow> rtype (range_fields x) = Some (fst l) \<and> rhandle (range_fields x) = Some (snd l))"

definition range_own :: "range_heap \<Rightarrow> addr \<Rightarrow> addr set" where
  "range_own h a = insert a (set (leaf_addrs h a))"

text \<open>
  The two ways ownership moves between a component that owns the objects \<open>O\<close> of a store and
  its client: a request \<open>r\<close> is taken in, or a range \<open>r\<close> with direction and handle \<open>l\<close> is handed
  out. Objects the component does not own are never touched, request objects never change, and
  no object is leaked: what is live afterwards and not owned is what was so before, but for what
  was taken in or handed out.
\<close>

definition taken_in :: "range_heap \<Rightarrow> addr set \<Rightarrow> addr \<Rightarrow> range_heap \<Rightarrow> addr set \<Rightarrow> bool" where
  "taken_in h own r h' own' \<longleftrightarrow> heap_ok h' \<and>
     dom (hp_objs h') - own' = dom (hp_objs h) - own - {r} \<and>
     (\<forall>a \<in> dom (hp_objs h) - own. hp_objs h' a = hp_objs h a) \<and>
     (\<forall>c. leaf_ok h c \<longrightarrow> hp_objs h' c = hp_objs h c)"

definition handed_out ::
  "range_heap \<Rightarrow> addr set \<Rightarrow> RangeType \<times> addr \<Rightarrow> addr \<Rightarrow> range_heap \<Rightarrow> addr set \<Rightarrow> bool" where
  "handed_out h own l r h' own' \<longleftrightarrow> heap_ok h' \<and> range_ok h' r \<and>
     (\<forall>a \<in> range_own h' r. labelled h' l a) \<and> own' \<inter> range_own h' r = {} \<and>
     dom (hp_objs h') - own' = dom (hp_objs h) - own \<union> range_own h' r \<and>
     range_own h' r \<inter> (dom (hp_objs h) - own) = {} \<and>
     (\<forall>a \<in> dom (hp_objs h) - own. hp_objs h' a = hp_objs h a) \<and>
     (\<forall>c. leaf_ok h c \<longrightarrow> hp_objs h' c = hp_objs h c)"

text \<open>Both are local: they extend to a component that owns more.\<close>

lemma taken_in_mono:
  assumes "taken_in h own r h' own'" "own \<subseteq> P" "r \<notin> P" "P \<subseteq> dom (hp_objs h)"
  shows "taken_in h P r h' (own' \<union> (P - own))"
proof -
  have "dom (hp_objs h') - (own' \<union> (P - own)) = dom (hp_objs h') - own' - (P - own)" by blast
  also have "dom (hp_objs h') - own' = dom (hp_objs h) - own - {r}"
    using assms(1) by (simp add: taken_in_def)
  also have "\<dots> - (P - own) = dom (hp_objs h) - P - {r}" using assms(2) by blast
  finally show ?thesis using assms(1,2) by (auto simp: taken_in_def)
qed

lemma handed_out_mono:
  assumes "handed_out h own l r h' own'" "own \<subseteq> P" "P \<subseteq> dom (hp_objs h)"
  shows "handed_out h P l r h' (own' \<union> (P - own))"
proof -
  have r: "own' \<inter> range_own h' r = {}" "range_own h' r \<inter> (dom (hp_objs h) - own) = {}"
    using assms(1) by (simp_all add: handed_out_def)
  have "dom (hp_objs h') - (own' \<union> (P - own)) = dom (hp_objs h') - own' - (P - own)" by blast
  also have "dom (hp_objs h') - own' = dom (hp_objs h) - own \<union> range_own h' r"
    using assms(1) by (simp add: handed_out_def)
  also have "\<dots> - (P - own) = dom (hp_objs h) - P \<union> range_own h' r"
    using assms(2,3) r(2) by blast
  finally have "dom (hp_objs h') - (own' \<union> (P - own)) = dom (hp_objs h) - P \<union> range_own h' r" .
  moreover have "(own' \<union> (P - own)) \<inter> range_own h' r = {}" "range_own h' r \<inter> (dom (hp_objs h) - P) = {}"
    using r assms(2,3) by blast+
  moreover have "\<forall>a \<in> dom (hp_objs h) - P. hp_objs h' a = hp_objs h a"
    using assms(1,2) by (auto simp: handed_out_def)
  ultimately show ?thesis using assms(1) by (simp add: handed_out_def)
qed

text \<open>Objects of the client stay apart from the component.\<close>

lemma taken_inD:
  assumes "taken_in h own r h' own'" "x \<in> dom (hp_objs h)" "x \<notin> own"
  shows "hp_objs h' x = hp_objs h x" "x \<noteq> r \<Longrightarrow> x \<notin> own'"
  using assms by (auto simp: taken_in_def)

lemma handed_outD:
  assumes "handed_out h own l r h' own'" "x \<in> dom (hp_objs h)" "x \<notin> own"
  shows "hp_objs h' x = hp_objs h x" "x \<notin> own'"
  using assms by (auto simp: handed_out_def)

text \<open>
  What a client of a range set may rely on. \<open>rs_inv l h s\<close> is the invariant of a set \<open>s\<close> on
  store \<open>h\<close> all of whose requests have direction and handle \<open>l\<close>; \<open>rs_own\<close> are the objects the
  set owns; \<open>rs_leaves\<close> the requests in it.
\<close>

locale base_range_set =
  fixes ops :: "'s BaseRangeSet"
    and rs_inv :: "RangeType \<times> addr \<Rightarrow> range_heap \<Rightarrow> 's \<Rightarrow> bool"
    and rs_own :: "range_heap \<Rightarrow> 's \<Rightarrow> addr set"
    and rs_leaves :: "range_heap \<Rightarrow> 's \<Rightarrow> addr multiset"
  assumes new_set: "rs_inv l h (brs_new ops)" "rs_own h (brs_new ops) = {}" "rs_leaves h (brs_new ops) = {#}"
    and empty_iff: "rs_inv l h s \<Longrightarrow> brs_empty ops s \<longleftrightarrow> rs_leaves h s = {#}"
    and own_live: "rs_inv l h s \<Longrightarrow> rs_own h s \<subseteq> dom (hp_objs h)"
    and own_leaves: "rs_inv l h s \<Longrightarrow> leaf_ok h c \<Longrightarrow> c \<in> rs_own h s \<longleftrightarrow> c \<in># rs_leaves h s"
    and leaves_ok: "rs_inv l h s \<Longrightarrow> c \<in># rs_leaves h s \<Longrightarrow> leaf_ok h c \<and> labelled h l c"
    and own_empty: "rs_inv l h s \<Longrightarrow> rs_leaves h s = {#} \<Longrightarrow> rs_own h s = {}"
    and delete_empty: "rs_inv l h s \<Longrightarrow> brs_empty ops s \<Longrightarrow> brs_delete ops h s = Some h"
    and frame: "\<forall>a \<in> rs_own h s. hp_objs h' a = hp_objs h a \<Longrightarrow>
       rs_own h' s = rs_own h s \<and> rs_leaves h' s = rs_leaves h s \<and> rs_inv l h' s = rs_inv l h s"
    and add_range: "heap_ok h \<Longrightarrow> rs_inv l h s \<Longrightarrow> leaf_ok h r \<Longrightarrow> labelled h l r \<Longrightarrow> r \<notin> rs_own h s \<Longrightarrow>
       \<exists>h' s'. brs_add ops h s r = Some (h', s') \<and> rs_inv l h' s' \<and>
         rs_leaves h' s' = add_mset r (rs_leaves h s) \<and> taken_in h (rs_own h s) r h' (rs_own h' s')"
    and get_range: "heap_ok h \<Longrightarrow> rs_inv l h s \<Longrightarrow> \<not> brs_empty ops s \<Longrightarrow>
       \<exists>h' s' r. brs_get ops h s = Some (h', s', r) \<and> rs_inv l h' s' \<and>
         rs_leaves h s = mset (leaf_addrs h' r) + rs_leaves h' s' \<and>
         handed_out h (rs_own h s) l r h' (rs_own h' s')"

text \<open>
  A client usually holds several sets on one store; the contract lifts to such families.
\<close>

definition fam_own :: "(range_heap \<Rightarrow> 's \<Rightarrow> addr set) \<Rightarrow> range_heap \<Rightarrow> 'a set \<Rightarrow> ('a \<Rightarrow> 's) \<Rightarrow> addr set" where
  "fam_own own h A S = (\<Union>a \<in> A. own h (S a))"

definition fam_leaves ::
  "(range_heap \<Rightarrow> 's \<Rightarrow> addr multiset) \<Rightarrow> range_heap \<Rightarrow> 'a set \<Rightarrow> ('a \<Rightarrow> 's) \<Rightarrow> addr multiset" where
  "fam_leaves leaves h A S = (\<Sum>a \<in> A. leaves h (S a))"

definition fam_ok ::
  "(RangeType \<times> addr \<Rightarrow> range_heap \<Rightarrow> 's \<Rightarrow> bool) \<Rightarrow> (range_heap \<Rightarrow> 's \<Rightarrow> addr set) \<Rightarrow>
   range_heap \<Rightarrow> 'a set \<Rightarrow> ('a \<Rightarrow> RangeType \<times> addr) \<Rightarrow> ('a \<Rightarrow> 's) \<Rightarrow> bool" where
  "fam_ok ok own h A lab S \<longleftrightarrow> finite A \<and> (\<forall>a \<in> A. ok (lab a) h (S a)) \<and>
     (\<forall>a \<in> A. \<forall>b \<in> A. a \<noteq> b \<longrightarrow> own h (S a) \<inter> own h (S b) = {})"

context base_range_set
begin

abbreviation "ok \<equiv> fam_ok rs_inv rs_own"

abbreviation "owned \<equiv> fam_own rs_own"

abbreviation "requests \<equiv> fam_leaves rs_leaves"

text \<open>A step on one member that leaves everything outside it alone leaves the others alone.\<close>

lemma fam_step:
  assumes "ok h A lab S" "a \<in> A" "rs_inv (lab a) h' s'"
    and same: "\<And>x. x \<in> dom (hp_objs h) - rs_own h (S a) - R \<Longrightarrow>
      hp_objs h' x = hp_objs h x \<and> x \<notin> rs_own h' s'"
    and R: "R \<inter> owned h A S = {}"
  shows "ok h' A lab (S(a := s'))"
    "owned h' A (S(a := s')) = rs_own h' s' \<union> (owned h A S - rs_own h (S a))"
    "requests h' A (S(a := s')) + rs_leaves h (S a) = rs_leaves h' s' + requests h A S"
proof -
  have fin: "finite A" and inv: "\<And>b. b \<in> A \<Longrightarrow> rs_inv (lab b) h (S b)"
    and dj: "\<And>b c. b \<in> A \<Longrightarrow> c \<in> A \<Longrightarrow> b \<noteq> c \<Longrightarrow> rs_own h (S b) \<inter> rs_own h (S c) = {}"
    using assms(1) by (auto simp: fam_ok_def)
  have out: "x \<in> dom (hp_objs h) - rs_own h (S a) - R" if "b \<in> A" "b \<noteq> a" "x \<in> rs_own h (S b)" for b x
    using own_live [OF inv [OF that(1)]] dj [OF that(1) assms(2) that(2)] R that by (auto simp: fam_own_def)
  have keep: "rs_own h' (S b) = rs_own h (S b) \<and> rs_leaves h' (S b) = rs_leaves h (S b) \<and>
      rs_inv (lab b) h' (S b) = rs_inv (lab b) h (S b)" if "b \<in> A" "b \<noteq> a" for b
    using out [OF that] same by (intro frame) blast
  have dj': "rs_own h' s' \<inter> rs_own h (S b) = {}" if "b \<in> A" "b \<noteq> a" for b
    using out [OF that] same by blast
  show "ok h' A lab (S(a := s'))"
    using fin inv dj dj' keep assms(3) by (fastforce simp: fam_ok_def)
  have "(\<Union>b \<in> A - {a}. rs_own h' (S b)) = (\<Union>b \<in> A - {a}. rs_own h (S b))"
    using keep by auto
  moreover have "(\<Union>b \<in> A - {a}. rs_own h (S b)) = owned h A S - rs_own h (S a)"
    using dj assms(2) by (fastforce simp: fam_own_def)
  moreover have "owned h' A (S(a := s')) = rs_own h' s' \<union> (\<Union>b \<in> A - {a}. rs_own h' (S b))"
    using assms(2) by (auto simp: fam_own_def split: if_splits)
  ultimately show "owned h' A (S(a := s')) = rs_own h' s' \<union> (owned h A S - rs_own h (S a))" by simp
  have "(\<Sum>b \<in> A - {a}. rs_leaves h' ((S(a := s')) b)) = (\<Sum>b \<in> A - {a}. rs_leaves h (S b))"
    using keep by (intro sum.cong) auto
  then show "requests h' A (S(a := s')) + rs_leaves h (S a) = rs_leaves h' s' + requests h A S"
    using fin assms(2) by (simp add: fam_leaves_def sum.remove [of A a])
qed

lemma fam_members:
  assumes "ok h A lab S"
  shows "owned h A S \<subseteq> dom (hp_objs h)"
    "leaf_ok h c \<Longrightarrow> c \<in> owned h A S \<longleftrightarrow> c \<in># requests h A S"
    "c \<in># requests h A S \<Longrightarrow> leaf_ok h c \<and> (\<exists>l. labelled h l c)"
    "requests h A S = {#} \<longleftrightarrow> (\<forall>a \<in> A. brs_empty ops (S a))"
proof -
  have fin: "finite A" and inv: "\<And>b. b \<in> A \<Longrightarrow> rs_inv (lab b) h (S b)"
    using assms by (auto simp: fam_ok_def)
  show "owned h A S \<subseteq> dom (hp_objs h)"
    unfolding fam_own_def by (rule UN_least, rule own_live, erule inv)
  show "leaf_ok h c \<Longrightarrow> c \<in> owned h A S \<longleftrightarrow> c \<in># requests h A S"
    using own_leaves [OF inv] fin by (simp add: fam_own_def fam_leaves_def set_mset_sum)
  show "leaf_ok h c \<and> (\<exists>l. labelled h l c)" if c: "c \<in># requests h A S"
  proof -
    obtain a where "a \<in> A" "c \<in># rs_leaves h (S a)"
      using c fin by (auto simp: fam_leaves_def set_mset_sum)
    then show ?thesis using leaves_ok [OF inv] by blast
  qed
  show "requests h A S = {#} \<longleftrightarrow> (\<forall>a \<in> A. brs_empty ops (S a))"
    using empty_iff [OF inv] fin
    by (simp add: fam_leaves_def set_mset_sum flip: set_mset_eq_empty_iff)
qed

lemma fam_add:
  assumes "heap_ok h" "ok h A lab S" "a \<in> A" "leaf_ok h r" "labelled h (lab a) r" "r \<notin> owned h A S"
  shows "\<exists>h' s'. brs_add ops h (S a) r = Some (h', s') \<and> ok h' A lab (S(a := s')) \<and>
    \<not> brs_empty ops s' \<and> requests h' A (S(a := s')) = add_mset r (requests h A S) \<and>
    taken_in h (owned h A S) r h' (owned h' A (S(a := s')))"
proof -
  have inv: "rs_inv (lab a) h (S a)" and own: "rs_own h (S a) \<subseteq> owned h A S"
    using assms(2,3) by (auto simp: fam_ok_def fam_own_def)
  have "r \<notin> rs_own h (S a)" using assms(6) own by auto
  from add_range [OF assms(1) inv assms(4,5) this]
  obtain h' s' where 1: "brs_add ops h (S a) r = Some (h', s')" "rs_inv (lab a) h' s'"
    "rs_leaves h' s' = add_mset r (rs_leaves h (S a))" "taken_in h (rs_own h (S a)) r h' (rs_own h' s')"
    by blast
  have st: "ok h' A lab (S(a := s'))"
    "owned h' A (S(a := s')) = rs_own h' s' \<union> (owned h A S - rs_own h (S a))"
    "requests h' A (S(a := s')) + rs_leaves h (S a) = rs_leaves h' s' + requests h A S"
    using assms(6) taken_inD [OF 1(4)] by (intro fam_step [OF assms(2,3) 1(2), of "{r}"]; simp)+
  have "requests h' A (S(a := s')) = add_mset r (requests h A S)"
    using st(3) 1(3) by simp
  moreover have "\<not> brs_empty ops s'" using empty_iff [OF 1(2)] 1(3) by simp
  ultimately show ?thesis
    using 1(1) st(1) taken_in_mono [OF 1(4) own assms(6) fam_members(1) [OF assms(2)], folded st(2)] by blast
qed

lemma fam_get:
  assumes "heap_ok h" "ok h A lab S" "a \<in> A" "\<not> brs_empty ops (S a)"
  shows "\<exists>h' s' r. brs_get ops h (S a) = Some (h', s', r) \<and> ok h' A lab (S(a := s')) \<and>
    requests h A S = mset (leaf_addrs h' r) + requests h' A (S(a := s')) \<and>
    handed_out h (owned h A S) (lab a) r h' (owned h' A (S(a := s')))"
proof -
  have inv: "rs_inv (lab a) h (S a)" and own: "rs_own h (S a) \<subseteq> owned h A S"
    using assms(2,3) by (auto simp: fam_ok_def fam_own_def)
  from get_range [OF assms(1) inv assms(4)]
  obtain h' s' r where 1: "brs_get ops h (S a) = Some (h', s', r)" "rs_inv (lab a) h' s'"
    "rs_leaves h (S a) = mset (leaf_addrs h' r) + rs_leaves h' s'"
    "handed_out h (rs_own h (S a)) (lab a) r h' (rs_own h' s')"
    by blast
  have st: "ok h' A lab (S(a := s'))"
    "owned h' A (S(a := s')) = rs_own h' s' \<union> (owned h A S - rs_own h (S a))"
    "requests h' A (S(a := s')) + rs_leaves h (S a) = rs_leaves h' s' + requests h A S"
    using handed_outD [OF 1(4)] by (intro fam_step [OF assms(2,3) 1(2), of "{}"]; simp)+
  have "requests h A S = mset (leaf_addrs h' r) + requests h' A (S(a := s'))"
    using st(3) 1(3) by (simp add: ac_simps)
  then show ?thesis
    using 1(1) st(1) handed_out_mono [OF 1(4) own fam_members(1) [OF assms(2)], folded st(2)] by blast
qed

text \<open>A new member, and the end of an empty one.\<close>

lemma fam_new:
  assumes "ok h A lab S" "a \<notin> A"
  shows "ok h (insert a A) (lab(a := l)) (S(a := brs_new ops))"
    "owned h (insert a A) (S(a := brs_new ops)) = owned h A S"
    "requests h (insert a A) (S(a := brs_new ops)) = requests h A S"
proof -
  have fin: "finite A" using assms(1) by (simp add: fam_ok_def)
  have eq: "(S(a := brs_new ops)) b = S b" "(lab(a := l)) b = lab b" if "b \<in> A" for b
    using that assms(2) by auto
  show "ok h (insert a A) (lab(a := l)) (S(a := brs_new ops))"
    using assms new_set by (auto simp: fam_ok_def)
  show "owned h (insert a A) (S(a := brs_new ops)) = owned h A S"
    using eq new_set by (auto simp: fam_own_def split: if_splits)
  show "requests h (insert a A) (S(a := brs_new ops)) = requests h A S"
    using eq(1) new_set fin assms(2) by (simp add: fam_leaves_def cong: sum.cong)
qed

lemma fam_drop:
  assumes "ok h A lab S" "a \<in> A" "brs_empty ops (S a)"
  shows "ok h (A - {a}) lab S" "owned h (A - {a}) S = owned h A S" "requests h (A - {a}) S = requests h A S"
proof -
  have inv: "rs_inv (lab a) h (S a)" "finite A" using assms(1,2) by (auto simp: fam_ok_def)
  then have "rs_leaves h (S a) = {#}" using empty_iff assms(3) by blast
  moreover from this have "rs_own h (S a) = {}" using own_empty [OF inv(1)] by simp
  ultimately show "ok h (A - {a}) lab S" "owned h (A - {a}) S = owned h A S" "requests h (A - {a}) S = requests h A S"
    using assms(1,2) inv(2) by (auto simp: fam_ok_def fam_own_def fam_leaves_def sum.remove [of A a])
qed

lemma fam_frame:
  assumes "\<forall>x \<in> owned h A S. hp_objs h' x = hp_objs h x"
  shows "owned h' A S = owned h A S" "requests h' A S = requests h A S" "ok h' A lab S = ok h A lab S"
proof -
  have keep: "rs_own h' (S a) = rs_own h (S a) \<and> rs_leaves h' (S a) = rs_leaves h (S a) \<and>
      rs_inv (lab a) h' (S a) = rs_inv (lab a) h (S a)" if "a \<in> A" for a
    using assms that by (intro frame) (auto simp: fam_own_def)
  then show "owned h' A S = owned h A S" by (simp add: fam_own_def)
  show "requests h' A S = requests h A S" using keep by (simp add: fam_leaves_def cong: sum.cong)
  show "ok h' A lab S = ok h A lab S" using keep by (simp add: fam_ok_def)
qed

end

end
