(* ===== verification/Hier_Range_Set.thy ===== *)
theory Hier_Range_Set
  imports Base_Range_Set
begin

text \<open>
  \<open>iofwd::HierarchicalRangeSet\<close> (\<open>src/iofwd/HierarchicalRangeSet.hh\<close>), the default range
  merger: a set of range pointers and two maps that index the same ranges by their start and by
  their end. Adding a range replaces every range it overlaps or touches by one parent range.
\<close>

record hrs =
  ranges :: "addr list"
  st_map :: "(u64 \<times> addr) list"
  en_map :: "(u64 \<times> addr) list"

definition HierarchicalRangeSet :: hrs where
  "HierarchicalRangeSet = \<lparr>ranges = [], st_map = [], en_map = []\<rparr>"

text \<open>The destructor deletes the ranges that are still in the set, with their children.\<close>

fun hrs_delete_loop :: "addr list \<Rightarrow> range_heap \<Rightarrow> range_heap option" where
  "hrs_delete_loop [] h = Some h"
| "hrs_delete_loop (r # rs) h = do { h1 \<leftarrow> delete_range r h; hrs_delete_loop rs h1 }"

definition hrs_delete :: "range_heap \<Rightarrow> hrs \<Rightarrow> range_heap option" where
  "hrs_delete h rs = hrs_delete_loop (ranges rs) h"

definition hrs_size :: "hrs \<Rightarrow> nat" where
  "hrs_size rs = length (ranges rs)"

definition hrs_empty :: "hrs \<Rightarrow> bool" where
  "hrs_empty rs \<longleftrightarrow> ranges rs = []"

definition hrs_get :: "range_heap \<Rightarrow> hrs \<Rightarrow> (range_heap \<times> hrs \<times> addr) option" where
  "hrs_get h rs = do {
     assert_that (\<not> hrs_empty rs);
     let r = hd (ranges rs);
     x \<leftarrow> heap_read h r;
     Some (h, \<lparr>ranges = tl (ranges rs), st_map = smap_erase (st_of x) (st_map rs),
               en_map = smap_erase (en_of x) (en_map rs)\<rparr>, r)
   }"

text \<open>The two loops of \<open>intersect\<close> and the loop of \<open>included\<close>; each stops at the first range that fails its test.\<close>

fun intersect_st_loop :: "range_heap \<Rightarrow> range_obj \<Rightarrow> (u64 \<times> addr) list \<Rightarrow> addr list \<Rightarrow> addr list option" where
  "intersect_st_loop h r [] s = Some s"
| "intersect_st_loop h r ((k, rr) # it) s = do {
     x \<leftarrow> heap_read h rr;
     if st_of r \<le> st_of x \<and> st_of x \<le> en_of r
     then intersect_st_loop h r it (sset_insert rr s)
     else Some s
   }"

fun intersect_en_loop :: "range_heap \<Rightarrow> range_obj \<Rightarrow> (u64 \<times> addr) list \<Rightarrow> addr list \<Rightarrow> addr list option" where
  "intersect_en_loop h r [] s = Some s"
| "intersect_en_loop h r ((k, rr) # it) s = do {
     x \<leftarrow> heap_read h rr;
     if st_of r \<le> en_of x \<and> en_of x \<le> en_of r
     then intersect_en_loop h r it (sset_insert rr s)
     else Some s
   }"

fun included_loop :: "range_heap \<Rightarrow> range_obj \<Rightarrow> (u64 \<times> addr) list \<Rightarrow> addr list \<Rightarrow> addr list option" where
  "included_loop h r [] s = Some s"
| "included_loop h r ((k, rr) # it) s = do {
     x \<leftarrow> heap_read h rr;
     if st_of x \<le> st_of r \<and> en_of r \<le> en_of x
     then included_loop h r it (sset_insert rr s)
     else Some s
   }"

definition hrs_intersect :: "range_heap \<Rightarrow> hrs \<Rightarrow> addr \<Rightarrow> addr list \<Rightarrow> addr list option" where
  "hrs_intersect h rs r s = do {
     x \<leftarrow> heap_read h r;
     s1 \<leftarrow> intersect_st_loop h x (smap_lower_bound (st_of x) (st_map rs)) s;
     intersect_en_loop h x (smap_lower_bound (st_of x) (en_map rs)) s1
   }"

definition hrs_included :: "range_heap \<Rightarrow> hrs \<Rightarrow> addr \<Rightarrow> addr list \<Rightarrow> addr list option" where
  "hrs_included h rs r s = do {
     x \<leftarrow> heap_read h r;
     included_loop h x (smap_lower_bound (en_of x) (en_map rs)) s
   }"

fun hrs_merge_loop :: "range_heap \<Rightarrow> addr list \<Rightarrow> hrs \<Rightarrow> u64 \<Rightarrow> u64 \<Rightarrow> (hrs \<times> u64 \<times> u64) option" where
  "hrs_merge_loop h [] rs st en = Some (rs, st, en)"
| "hrs_merge_loop h (rr # s) rs st en = do {
     x \<leftarrow> heap_read h rr;
     hrs_merge_loop h s
       \<lparr>ranges = sset_erase rr (ranges rs), st_map = smap_erase (st_of x) (st_map rs),
        en_map = smap_erase (en_of x) (en_map rs)\<rparr>
       (min st (st_of x)) (max en (en_of x))
   }"

definition hrs_merge :: "range_heap \<Rightarrow> hrs \<Rightarrow> addr \<Rightarrow> addr list \<Rightarrow> (hrs \<times> u64 \<times> u64) option" where
  "hrs_merge h rs r s = do {
     x \<leftarrow> heap_read h r;
     hrs_merge_loop h s rs (st_of x) (en_of x)
   }"

text \<open>
  The consolidation loop of \<open>add\<close>: the children and callbacks of every merged range move to
  the new parent at address \<open>p\<close>; a merged parent is emptied and deleted.
\<close>

fun absorb_loop :: "addr \<Rightarrow> addr list \<Rightarrow> range_heap \<Rightarrow> range_heap option" where
  "absorb_loop p [] h = Some h"
| "absorb_loop p (rr # s) h = do {
     x \<leftarrow> heap_read h rr;
     px \<leftarrow> heap_read h p;
     (case x of
        ParentRange f cs cbs \<Rightarrow> do {
          h1 \<leftarrow> heap_write p (insertMultipleChildren cs px) h;
          h2 \<leftarrow> heap_write p (insertMultipleCBs cbs (insertMultipleChildren cs px)) h1;
          h3 \<leftarrow> heap_write rr (ParentRange f [] []) h2;
          h4 \<leftarrow> delete_range rr h3;
          absorb_loop p s h4
        }
      | ChildRange f \<Rightarrow> do {
          h1 \<leftarrow> heap_write p (insertSingleCB (rcb f) (insertSingleChild rr px)) h;
          absorb_loop p s h1
        })
   }"

text \<open>The parent range that \<open>add\<close> creates for the merged interval.\<close>

definition merged_parent :: "addr \<Rightarrow> range_obj \<Rightarrow> u64 \<Rightarrow> u64 \<Rightarrow> range_obj" where
  "merged_parent r x st en =
     map_fields (\<lambda>f. f\<lparr>rtype := rtype (range_fields x), rhandle := rhandle (range_fields x)\<rparr>)
       (insertSingleCB (cb_of x) (insertSingleChild r (new_ParentRange st en)))"

definition hrs_add :: "range_heap \<Rightarrow> hrs \<Rightarrow> addr \<Rightarrow> (range_heap \<times> hrs) option" where
  "hrs_add h rs r = do {
     s0 \<leftarrow> hrs_intersect h rs r [];
     s \<leftarrow> hrs_included h rs r s0;
     (rs1, st, en) \<leftarrow> hrs_merge h rs r s;
     x \<leftarrow> heap_read h r;
     let (new_r, h1) = (if s \<noteq> [] then heap_new (merged_parent r x st en) h else (r, h));
     h2 \<leftarrow> absorb_loop new_r s h1;
     Some (h2, \<lparr>ranges = sset_insert new_r (ranges rs1), st_map = smap_put st new_r (st_map rs1),
                en_map = smap_put en new_r (en_map rs1)\<rparr>)
   }"

subsection \<open>The invariant\<close>

definition touches :: "range_heap \<Rightarrow> addr \<Rightarrow> addr \<Rightarrow> bool" where
  "touches h a b \<longleftrightarrow> st_at h a \<le> en_at h b \<and> st_at h b \<le> en_at h a"

definition indexes :: "(u64 \<times> addr) list \<Rightarrow> (addr \<Rightarrow> u64) \<Rightarrow> addr list \<Rightarrow> bool" where
  "indexes m key as \<longleftrightarrow> smap_ok m \<and> set m = (\<lambda>a. (key a, a)) ` set as"

definition hrs_leaves :: "range_heap \<Rightarrow> hrs \<Rightarrow> addr list" where
  "hrs_leaves h rs = concat (map (leaf_addrs h) (ranges rs))"

definition hrs_own :: "range_heap \<Rightarrow> hrs \<Rightarrow> addr set" where
  "hrs_own h rs = set (ranges rs) \<union> set (hrs_leaves h rs)"

definition hrs_inv :: "range_heap \<Rightarrow> hrs \<Rightarrow> bool" where
  "hrs_inv h rs \<longleftrightarrow>
     ascending (ranges rs) \<and> (\<forall>a \<in> set (ranges rs). range_ok h a) \<and>
     indexes (st_map rs) (st_at h) (ranges rs) \<and> indexes (en_map rs) (en_at h) (ranges rs) \<and>
     (\<forall>a \<in> set (ranges rs). \<forall>b \<in> set (ranges rs). touches h a b \<longrightarrow> a = b) \<and>
     distinct (hrs_leaves h rs)"

subsection \<open>The loops\<close>

lemma intersect_st_loop_eq:
  "\<forall>p \<in> set m. hp_objs h (snd p) \<noteq> None \<Longrightarrow>
   intersect_st_loop h r m s = Some (fold sset_insert (map snd (takeWhile
     (\<lambda>p. st_of r \<le> st_at h (snd p) \<and> st_at h (snd p) \<le> en_of r) m)) s)"
  by (induction h r m s rule: intersect_st_loop.induct) (auto simp: heap_read_def at_simps)

lemma intersect_en_loop_eq:
  "\<forall>p \<in> set m. hp_objs h (snd p) \<noteq> None \<Longrightarrow>
   intersect_en_loop h r m s = Some (fold sset_insert (map snd (takeWhile
     (\<lambda>p. st_of r \<le> en_at h (snd p) \<and> en_at h (snd p) \<le> en_of r) m)) s)"
  by (induction h r m s rule: intersect_en_loop.induct) (auto simp: heap_read_def at_simps)

lemma included_loop_eq:
  "\<forall>p \<in> set m. hp_objs h (snd p) \<noteq> None \<Longrightarrow>
   included_loop h r m s = Some (fold sset_insert (map snd (takeWhile
     (\<lambda>p. st_at h (snd p) \<le> st_of r \<and> en_of r \<le> en_at h (snd p)) m)) s)"
  by (induction h r m s rule: included_loop.induct) (auto simp: heap_read_def at_simps)

lemma hrs_invD:
  assumes "hrs_inv h rs"
  shows "ascending (ranges rs)" "smap_ok (st_map rs)" "smap_ok (en_map rs)"
    "set (st_map rs) = (\<lambda>a. (st_at h a, a)) ` set (ranges rs)"
    "set (en_map rs) = (\<lambda>a. (en_at h a, a)) ` set (ranges rs)"
    "\<And>a. a \<in> set (ranges rs) \<Longrightarrow> range_ok h a"
    "\<And>a b. a \<in> set (ranges rs) \<Longrightarrow> b \<in> set (ranges rs) \<Longrightarrow> touches h a b \<Longrightarrow> a = b"
    "distinct (hrs_leaves h rs)"
  using assms by (auto simp: hrs_inv_def indexes_def)

text \<open>Separated ranges are ordered by their ends as they are by their starts.\<close>

lemma hrs_inv_en_less:
  assumes "hrs_inv h rs" "a \<in> set (ranges rs)" "b \<in> set (ranges rs)" "en_at h a < en_at h b"
  shows "en_at h a < st_at h b"
proof -
  have "st_at h a \<le> en_at h b"
    using assms(4) range_okD(2) [OF hrs_invD(6) [OF assms(1,2)]] by simp
  moreover have "\<not> touches h a b"
    using hrs_invD(7) [OF assms(1-3)] assms(4) by auto
  ultimately show ?thesis by (auto simp: touches_def)
qed

lemma hrs_found:
  assumes inv: "hrs_inv h rs" and r: "hp_objs h r = Some x" "st_of x \<le> en_of x"
  shows "\<exists>s0. hrs_intersect h rs r [] = Some s0 \<and>
    hrs_included h rs r s0 = Some (filter (\<lambda>a. touches h a r) (ranges rs))"
proof -
  note inv = hrs_invD [OF assms(1)]
  have live: "hp_objs h (snd p) \<noteq> None" if "p \<in> set (st_map rs) \<union> set (en_map rs)" for p
    using that inv(4,5,6) range_okD(1) by auto
  let ?A = "smap_lower_bound (st_of x) (st_map rs)"
  let ?B = "smap_lower_bound (st_of x) (en_map rs)"
  let ?C = "smap_lower_bound (en_of x) (en_map rs)"
  let ?P = "\<lambda>p. st_of x \<le> st_at h (snd p) \<and> st_at h (snd p) \<le> en_of x"
  let ?Q = "\<lambda>p. st_of x \<le> en_at h (snd p) \<and> en_at h (snd p) \<le> en_of x"
  let ?R = "\<lambda>p. st_at h (snd p) \<le> st_of x \<and> en_of x \<le> en_at h (snd p)"
  note lb = set_smap_lower_bound [OF inv(2)] set_smap_lower_bound [OF inv(3)]
  have A: "set (takeWhile ?P ?A) = {p \<in> set ?A. ?P p}"
  proof (rule set_takeWhile_mono)
    have "sorted_wrt (\<lambda>p q. fst p < fst q) ?A"
      using smap_ok_lower_bound [OF inv(2)] by (simp add: smap_ok_sorted_wrt)
    then show "sorted_wrt (\<lambda>p q. ?P q \<longrightarrow> ?P p) ?A"
      by (rule sorted_wrt_mono_rel [rotated]) (auto simp: lb inv(4))
  qed
  have B: "set (takeWhile ?Q ?B) = {p \<in> set ?B. ?Q p}"
  proof (rule set_takeWhile_mono)
    have "sorted_wrt (\<lambda>p q. fst p < fst q) ?B"
      using smap_ok_lower_bound [OF inv(3)] by (simp add: smap_ok_sorted_wrt)
    then show "sorted_wrt (\<lambda>p q. ?Q q \<longrightarrow> ?Q p) ?B"
      by (rule sorted_wrt_mono_rel [rotated]) (auto simp: lb inv(5))
  qed
  have C: "set (takeWhile ?R ?C) = {p \<in> set ?C. ?R p}"
  proof (rule set_takeWhile_mono)
    have "sorted_wrt (\<lambda>p q. fst p < fst q) ?C"
      using smap_ok_lower_bound [OF inv(3)] by (simp add: smap_ok_sorted_wrt)
    then show "sorted_wrt (\<lambda>p q. ?R q \<longrightarrow> ?R p) ?C"
    proof (rule sorted_wrt_mono_rel [rotated])
      fix p q assume pq: "p \<in> set ?C" "q \<in> set ?C" "fst p < fst q"
      then have *: "snd p \<in> set (ranges rs)" "snd q \<in> set (ranges rs)"
        "fst p = en_at h (snd p)" "fst q = en_at h (snd q)" "en_of x \<le> en_at h (snd p)"
        unfolding lb inv(5) by auto
      have "st_at h (snd p) \<le> en_at h (snd p)"
        using * by (blast intro: range_okD(2) inv(6))
      also have "en_at h (snd p) < st_at h (snd q)"
        using * pq(3) by (intro hrs_inv_en_less [OF assms(1)]) simp_all
      finally show "?R q \<longrightarrow> ?R p"
        using *(5) by (meson less_imp_le order.trans)
    qed
  qed
  let ?s = "fold sset_insert (map snd (takeWhile ?Q ?B)) (fold sset_insert (map snd (takeWhile ?P ?A)) [])"
  let ?s' = "fold sset_insert (map snd (takeWhile ?R ?C)) ?s"
  have 1: "hrs_intersect h rs r [] = Some ?s"
    using r(1) live by (simp add: hrs_intersect_def heap_read_def intersect_st_loop_eq
      intersect_en_loop_eq lb)
  have 2: "hrs_included h rs r ?s = Some ?s'"
    using r(1) live by (simp add: hrs_included_def heap_read_def included_loop_eq lb)
  have "set ?s' = {a \<in> set (ranges rs). (st_of x \<le> st_at h a \<and> st_at h a \<le> en_of x) \<or>
      (st_of x \<le> en_at h a \<and> en_at h a \<le> en_of x) \<or> (st_at h a \<le> st_of x \<and> en_of x \<le> en_at h a)}"
    unfolding set_fold_sset_insert set_map A B C lb inv(4,5) by (auto simp: image_iff)
  also have "\<dots> = {a \<in> set (ranges rs). touches h a r}"
    using interval_touch [OF range_okD(2) [OF inv(6)] r(2)] r(1)
    by (auto simp: touches_def st_at_def [of h r] en_at_def [of h r])
  finally have "set ?s' = {a \<in> set (ranges rs). touches h a r}" .
  then have "?s' = filter (\<lambda>a. touches h a r) (ranges rs)"
    by (intro ascending_unique ascending_fold_sset_insert sorted_wrt_filter inv(1)) auto
  with 1 2 show ?thesis by auto
qed


text \<open>The merge loop removes the ranges of \<open>s\<close> from the set and both indexes.\<close>

lemma hrs_merge_loop_eq:
  assumes "\<forall>a \<in> set s. hp_objs h a \<noteq> None"
  shows "hrs_merge_loop h s rs st en =
    Some (\<lparr>ranges = filter (\<lambda>a. a \<notin> set s) (ranges rs),
           st_map = filter (\<lambda>p. fst p \<notin> st_at h ` set s) (st_map rs),
           en_map = filter (\<lambda>p. fst p \<notin> en_at h ` set s) (en_map rs)\<rparr>,
          Min (insert st (st_at h ` set s)), Max (insert en (en_at h ` set s)))"
  using assms
proof (induction s arbitrary: rs st en)
  case Nil
  then show ?case by simp
next
  case (Cons a s)
  then obtain x where x: "hp_objs h a = Some x" by auto
  have "Min (insert (min st (st_at h a)) (st_at h ` set s)) = Min (insert st (st_at h ` set (a # s)))"
    "Max (insert (max en (en_at h a)) (en_at h ` set s)) = Max (insert en (en_at h ` set (a # s)))"
    by (cases "s = []"; simp add: ac_simps)+
  then show ?case
    using Cons x
    by (auto simp: heap_read_def st_at_def [of h a] en_at_def [of h a] sset_erase_def smap_erase_def
        intro!: filter_cong)
qed

text \<open>What the consolidation loop leaves on the free store.\<close>

definition parents :: "range_heap \<Rightarrow> addr list \<Rightarrow> addr set" where
  "parents h s = {a \<in> set s. \<exists>f cs cbs. hp_objs h a = Some (ParentRange f cs cbs)}"

lemma absorb_loop_eq:
  assumes "hp_objs h p = Some (ParentRange f cs cbs)" "p \<notin> set s" "distinct s"
    "\<forall>a \<in> set s. hp_objs h a \<noteq> None"
  shows "absorb_loop p s h = Some (h\<lparr>hp_objs := (hp_objs h |` (- parents h s))
     (p \<mapsto> ParentRange f (cs @ concat (map (leaf_addrs h) s)) (cbs @ concat (map (cb_addrs h) s)))\<rparr>)"
  using assms
proof (induction s arbitrary: h cs cbs)
  case Nil
  have "hp_objs h = (hp_objs h)(p \<mapsto> ParentRange f cs cbs)"
    using Nil.prems(1) by auto
  then show ?case
    by (simp add: parents_def restrict_map_def fun_upd_def [symmetric])
next
  case (Cons a s)
  then obtain x where x: "hp_objs h a = Some x" by auto
  have pa: "p \<noteq> a" "a \<notin> set s" "p \<notin> set s" using Cons.prems by auto
  show ?case
  proof (cases x)
    case (ChildRange g)
    let ?h = "h\<lparr>hp_objs := (hp_objs h)(p \<mapsto> ParentRange f (cs @ [a]) (cbs @ [rcb g]))\<rparr>"
    have eqs: "map (leaf_addrs ?h) s = map (leaf_addrs h) s" "map (cb_addrs ?h) s = map (cb_addrs h) s"
      "parents ?h s = parents h (a # s)"
      using pa x ChildRange by (auto simp: leaf_addrs_def cb_addrs_def parents_def)
    have "absorb_loop p (a # s) h = absorb_loop p s ?h"
      using Cons.prems(1) x ChildRange
      by (simp add: heap_read_def heap_write_def insertSingleCB_def insertSingleChild_def)
    also have "\<dots> = Some (?h\<lparr>hp_objs := (hp_objs ?h |` (- parents ?h s))(p \<mapsto>
        ParentRange f ((cs @ [a]) @ concat (map (leaf_addrs ?h) s))
          ((cbs @ [rcb g]) @ concat (map (cb_addrs ?h) s)))\<rparr>)"
      using Cons.prems by (intro Cons.IH) auto
    also have "(hp_objs ?h |` (- parents ?h s))(p \<mapsto> ParentRange f ((cs @ [a]) @ concat (map (leaf_addrs ?h) s))
          ((cbs @ [rcb g]) @ concat (map (cb_addrs ?h) s))) =
        (hp_objs h |` (- parents h (a # s)))(p \<mapsto> ParentRange f
          (cs @ concat (map (leaf_addrs h) (a # s))) (cbs @ concat (map (cb_addrs h) (a # s))))"
      unfolding eqs using pa x ChildRange
      by (intro ext) (simp add: leaf_addrs_def [of h a] cb_addrs_def [of h a] restrict_map_def)
    finally show ?thesis by simp
  next
    case (ParentRange g ds dbs)
    let ?h = "h\<lparr>hp_objs := (hp_objs h)(p \<mapsto> ParentRange f (cs @ ds) (cbs @ dbs), a := None)\<rparr>"
    have eqs: "map (leaf_addrs ?h) s = map (leaf_addrs h) s" "map (cb_addrs ?h) s = map (cb_addrs h) s"
      "parents h (a # s) = insert a (parents ?h s)"
      using pa x ParentRange by (auto simp: leaf_addrs_def cb_addrs_def parents_def)
    have "absorb_loop p (a # s) h = absorb_loop p s ?h"
      using Cons.prems(1) x ParentRange pa
      by (simp add: heap_read_def heap_write_def heap_delete_def delete_range_def fun_upd_twist)
    also have "\<dots> = Some (?h\<lparr>hp_objs := (hp_objs ?h |` (- parents ?h s))(p \<mapsto>
        ParentRange f ((cs @ ds) @ concat (map (leaf_addrs ?h) s))
          ((cbs @ dbs) @ concat (map (cb_addrs ?h) s)))\<rparr>)"
      using Cons.prems pa by (intro Cons.IH) auto
    also have "(hp_objs ?h |` (- parents ?h s))(p \<mapsto> ParentRange f ((cs @ ds) @ concat (map (leaf_addrs ?h) s))
          ((cbs @ dbs) @ concat (map (cb_addrs ?h) s))) =
        (hp_objs h |` (- parents h (a # s)))(p \<mapsto> ParentRange f
          (cs @ concat (map (leaf_addrs h) (a # s))) (cbs @ concat (map (cb_addrs h) (a # s))))"
      unfolding eqs using pa x ParentRange
      by (intro ext) (simp add: leaf_addrs_def [of h a] cb_addrs_def [of h a] restrict_map_def)
    finally show ?thesis by simp
  qed
qed

text \<open>The closed form of \<open>add\<close>, without and with ranges to merge.\<close>

lemma hrs_add_apart:
  assumes "hrs_inv h rs" "hp_objs h r = Some x" "st_of x \<le> en_of x"
    "filter (\<lambda>a. touches h a r) (ranges rs) = []"
  shows "hrs_add h rs r = Some (h, \<lparr>ranges = sset_insert r (ranges rs),
     st_map = smap_put (st_at h r) r (st_map rs), en_map = smap_put (en_at h r) r (en_map rs)\<rparr>)"
  using hrs_found [OF assms(1-3)] assms(2,4)
  by (auto simp: hrs_add_def hrs_merge_def heap_read_def st_at_def en_at_def)

definition merged_rest :: "range_heap \<Rightarrow> hrs \<Rightarrow> addr list \<Rightarrow> hrs" where
  "merged_rest h rs T = \<lparr>ranges = filter (\<lambda>a. a \<notin> set T) (ranges rs),
     st_map = filter (\<lambda>p. fst p \<notin> st_at h ` set T) (st_map rs),
     en_map = filter (\<lambda>p. fst p \<notin> en_at h ` set T) (en_map rs)\<rparr>"

definition merged_fields :: "range_obj \<Rightarrow> u64 \<Rightarrow> u64 \<Rightarrow> range_fields" where
  "merged_fields x st en = (init_fields st en)\<lparr>rtype := rtype (range_fields x),
     rhandle := rhandle (range_fields x)\<rparr>"

lemma merged_parent_eq:
  "merged_parent r x st en = ParentRange (merged_fields x st en) [r] [cb_of x]"
  by (simp add: merged_parent_def new_ParentRange_def insertSingleChild_def insertSingleCB_def
      merged_fields_def)

lemma hrs_add_merge:
  fixes h rs r x
  defines "T \<equiv> filter (\<lambda>a. touches h a r) (ranges rs)"
  defines "st \<equiv> Min (insert (st_at h r) (st_at h ` set T))"
    and "en \<equiv> Max (insert (en_at h r) (en_at h ` set T))"
  assumes "heap_ok h" "hrs_inv h rs" "hp_objs h r = Some x" "st_of x \<le> en_of x" "T \<noteq> []"
    "heap_new (merged_parent r x st en) h = (p, h1)"
  shows "hrs_add h rs r = Some (h1\<lparr>hp_objs := (hp_objs h |` (- parents h T))(p \<mapsto>
       ParentRange (merged_fields x st en) (r # concat (map (leaf_addrs h) T))
         (cb_of x # concat (map (cb_addrs h) T)))\<rparr>,
     \<lparr>ranges = sset_insert p (ranges (merged_rest h rs T)),
      st_map = smap_put st p (st_map (merged_rest h rs T)),
      en_map = smap_put en p (en_map (merged_rest h rs T))\<rparr>)"
proof -
  obtain s0 where s0: "hrs_intersect h rs r [] = Some s0" "hrs_included h rs r s0 = Some T"
    using hrs_found [OF assms(5-7)] by (auto simp: T_def)
  note new = heap_new_fresh [OF assms(4,9)]
  have T: "a \<in> set T \<Longrightarrow> hp_objs h a \<noteq> None" for a
    using hrs_invD(6) [OF assms(5)] range_okD(1) by (auto simp: T_def)
  have "st_at h r = st_of x" "en_at h r = en_of x"
    using assms(6) by (simp_all add: at_simps)
  then have mrg: "hrs_merge h rs r T = Some (merged_rest h rs T, st, en)"
    using assms(6) T by (simp add: hrs_merge_def heap_read_def hrs_merge_loop_eq merged_rest_def st_def en_def)
  have pT: "p \<notin> set T" using T [of p] new(1) by auto
  have dT: "distinct T" using hrs_invD(1) [OF assms(5)] by (simp add: T_def ascending_distinct)
  have eqs: "map (leaf_addrs h1) T = map (leaf_addrs h) T" "map (cb_addrs h1) T = map (cb_addrs h) T"
    "parents h1 T = parents h T"
    using pT new(3) by (auto simp: leaf_addrs_def cb_addrs_def parents_def)
  have "absorb_loop p T h1 = Some (h1\<lparr>hp_objs := (hp_objs h1 |` (- parents h1 T))(p \<mapsto>
       ParentRange (merged_fields x st en) ([r] @ concat (map (leaf_addrs h1) T))
         ([cb_of x] @ concat (map (cb_addrs h1) T)))\<rparr>)"
    using new(3) pT dT T by (intro absorb_loop_eq) (auto simp: merged_parent_eq)
  moreover have "(hp_objs h1 |` (- parents h T))(p \<mapsto> y) = (hp_objs h |` (- parents h T))(p \<mapsto> y)" for y
    using new(3) by (auto simp: restrict_map_def)
  ultimately show ?thesis
    using s0 mrg assms(6,8,9) by (simp add: hrs_add_def heap_read_def eqs)
qed


text \<open>
  The effect of \<open>add\<close> on set and store, as its clients see it: the range stays in its
  place in the set or is replaced, with all the ranges it touches, by one new range; nothing
  else on the store that is in use changes except that merged parents are gone.
\<close>

definition hrs_added :: "range_heap \<Rightarrow> hrs \<Rightarrow> addr \<Rightarrow> range_heap \<Rightarrow> hrs \<Rightarrow> addr \<Rightarrow> bool" where
  "hrs_added h rs r h' rs' p \<longleftrightarrow>
     (let T = {a \<in> set (ranges rs). touches h a r} in
      heap_ok h' \<and> hrs_inv h' rs' \<and>
      set (ranges rs') = insert p (set (ranges rs) - T) \<and>
      st_at h' p = Min (insert (st_at h r) (st_at h ` T)) \<and>
      en_at h' p = Max (insert (en_at h r) (en_at h ` T)) \<and>
      (if T = {} then p = r else hp_objs h p = None) \<and>
      (\<forall>a \<in> set (ranges rs) - T. same_range h h' a) \<and>
      mset (hrs_leaves h' rs') = add_mset r (mset (hrs_leaves h rs)) \<and>
      (\<forall>a. a \<noteq> p \<longrightarrow> a \<notin> T \<longrightarrow> hp_objs h' a = hp_objs h a) \<and>
      (\<forall>a \<in> T. \<not> leaf_ok h a \<longrightarrow> hp_objs h' a = None) \<and>
      (\<forall>c. leaf_ok h c \<longrightarrow> hp_objs h' c = hp_objs h c) \<and>
      (\<forall>l. labelled h l r \<longrightarrow> labelled h' l p))"

lemma indexes_put:
  assumes "indexes m key as" "p \<notin> set as" "\<And>a. a \<in> set as \<Longrightarrow> key a \<noteq> k"
    "\<And>a. a \<in> set as \<Longrightarrow> key' a = key a" "key' p = k"
  shows "indexes (smap_put k p m) key' (sset_insert p as)"
  using assms by (auto simp: indexes_def set_smap_put image_iff)

lemma indexes_filter:
  assumes "indexes m key as" "inj_on key (set as)" "set T \<subseteq> set as"
  shows "indexes (filter (\<lambda>p. fst p \<notin> key ` set T) m) key (filter (\<lambda>a. a \<notin> set T) as)"
proof -
  have "smap_ok (filter (\<lambda>p. fst p \<notin> key ` set T) m)"
    using assms(1) by (simp add: indexes_def smap_ok_sorted_wrt sorted_wrt_filter)
  moreover have "key a \<in> key ` set T \<longleftrightarrow> a \<in> set T" if "a \<in> set as" for a
    using assms(2,3) that by (auto dest: inj_onD)
  then have "{p \<in> (\<lambda>a. (key a, a)) ` set as. fst p \<notin> key ` set T} =
      (\<lambda>a. (key a, a)) ` {a \<in> set as. a \<notin> set T}"
    by fastforce
  ultimately show ?thesis
    using assms(1) by (simp add: indexes_def)
qed

lemma hrs_inv_inj:
  assumes "hrs_inv h rs"
  shows "inj_on (st_at h) (set (ranges rs))" "inj_on (en_at h) (set (ranges rs))"
proof -
  have "a = b" if "a \<in> set (ranges rs)" "b \<in> set (ranges rs)"
    "st_at h a = st_at h b \<or> en_at h a = en_at h b" for a b
  proof -
    have "st_at h a \<le> en_at h a" "st_at h b \<le> en_at h b"
      using that by (auto intro: range_okD(2) hrs_invD(6) [OF assms])
    then have "touches h a b" using that(3) by (auto simp: touches_def)
    then show ?thesis using that hrs_invD(7) [OF assms] by blast
  qed
  then show "inj_on (st_at h) (set (ranges rs))" "inj_on (en_at h) (set (ranges rs))"
    by (auto intro!: inj_onI)
qed

lemma touches_sym: "touches h a b = touches h b a"
  by (auto simp: touches_def)

lemma hrs_add_apart_added:
  assumes "heap_ok h" "hrs_inv h rs" "leaf_ok h r" "r \<notin> hrs_own h rs"
    "filter (\<lambda>a. touches h a r) (ranges rs) = []"
  shows "\<exists>rs'. hrs_add h rs r = Some (h, rs') \<and> hrs_added h rs r h rs' r"
proof -
  note inv = hrs_invD [OF assms(2)]
  obtain x where x: "hp_objs h r = Some x" "st_of x \<le> en_of x"
    using assms(3) by (auto simp: leaf_ok_def)
  let ?rs = "\<lparr>ranges = sset_insert r (ranges rs), st_map = smap_put (st_at h r) r (st_map rs),
    en_map = smap_put (en_at h r) r (en_map rs)\<rparr>"
  have r: "r \<notin> set (ranges rs)" "r \<notin> set (hrs_leaves h rs)" "range_ok h r" "leaf_addrs h r = [r]"
    using assms(3,4) leaf_ok_range_ok by (auto simp: hrs_own_def)
  have apart: "\<not> touches h a r" "\<not> touches h r a" if "a \<in> set (ranges rs)" for a
    using assms(5) that touches_sym [of h a r] by (auto simp: filter_empty_conv)
  have "mset (hrs_leaves h ?rs) = add_mset r (mset (hrs_leaves h rs))"
    using r by (simp add: hrs_leaves_def mset_concat_map mset_sset_insert)
  moreover from this have "distinct (hrs_leaves h ?rs)"
    using inv(8) r(2) by (metis distinct.simps(2) mset.simps(2) mset_eq_imp_distinct_iff)
  moreover have "st_at h a \<noteq> st_at h r" "en_at h a \<noteq> en_at h r" if "a \<in> set (ranges rs)" for a
    using apart(1) [OF that] range_okD(2) [OF inv(6) [OF that]] range_okD(2) [OF r(3)]
    by (auto simp: touches_def)
  then have "indexes (st_map ?rs) (st_at h) (ranges ?rs)" "indexes (en_map ?rs) (en_at h) (ranges ?rs)"
    using assms(2) r(1) by (auto simp: hrs_inv_def intro!: indexes_put)
  ultimately have "hrs_inv h ?rs"
    using inv(1,6,7) r apart by (auto simp: hrs_inv_def)
  moreover have T: "{a \<in> set (ranges rs). touches h a r} = {}" using apart by auto
  ultimately have "hrs_added h rs r h ?rs r"
    using assms(1) \<open>mset (hrs_leaves h ?rs) = _\<close>
    unfolding hrs_added_def Let_def T by (simp add: same_range_def)
  then show ?thesis
    using hrs_add_apart [OF assms(2) x assms(5)] by blast
qed


lemma hrs_added_merge:
  fixes h rs r
  defines "T \<equiv> filter (\<lambda>a. touches h a r) (ranges rs)"
  defines "rest \<equiv> filter (\<lambda>a. a \<notin> set T) (ranges rs)"
  assumes "heap_ok h'" "hrs_inv h rs" "leaf_ok h r" "r \<notin> hrs_own h rs" "T \<noteq> []" "hp_objs h p = None"
    and rest_same: "\<And>b. b \<in> set rest \<Longrightarrow> same_range h h' b"
    and other_same: "\<And>a. a \<noteq> p \<Longrightarrow> a \<notin> set T \<Longrightarrow> hp_objs h' a = hp_objs h a"
    and leaf_same: "\<And>c. leaf_ok h c \<Longrightarrow> hp_objs h' c = hp_objs h c"
    and label: "\<And>l. labelled h l r \<Longrightarrow> labelled h' l p"
    and gone: "\<And>a. a \<in> set T \<Longrightarrow> \<not> leaf_ok h a \<Longrightarrow> hp_objs h' a = None"
    and p: "range_ok h' p" "leaf_addrs h' p = r # concat (map (leaf_addrs h) T)"
    and st: "st_at h' p = Min (insert (st_at h r) (st_at h ` set T))"
    and en: "en_at h' p = Max (insert (en_at h r) (en_at h ` set T))"
  shows "hrs_added h rs r h' \<lparr>ranges = sset_insert p (ranges (merged_rest h rs T)),
      st_map = smap_put (st_at h' p) p (st_map (merged_rest h rs T)),
      en_map = smap_put (en_at h' p) p (en_map (merged_rest h rs T))\<rparr> p"
    (is "hrs_added h rs r h' ?rs' p")
proof -
  note inv = hrs_invD [OF assms(4)] and rest = same_rangeD [OF rest_same]
  have sets: "set T = {a \<in> set (ranges rs). touches h a r}"
    "set rest = set (ranges rs) - {a \<in> set (ranges rs). touches h a r}"
    by (auto simp: T_def rest_def)
  have fresh: "p \<notin> set rest" 
    using assms(8) inv(6) [of p] range_okD(1) [of h p] by (auto simp: rest_def)
  have apart: "\<not> touches h' b p" if b: "b \<in> set rest" for b
  proof -
    have rb: "b \<in> set (ranges rs)" "\<not> touches h b r" using b sets by auto
    have *: "st_at h a \<le> en_at h r \<and> st_at h r \<le> en_at h a \<and>
        \<not> (st_at h b \<le> en_at h a \<and> st_at h a \<le> en_at h b)" if "a \<in> set T" for a
      using that rb inv(7) [of b a] unfolding sets by (auto simp: touches_def)
    show ?thesis
      using hull_apart [OF finite_set range_okD(2) [OF inv(6) [OF rb(1)]] _ _ *] rb(2)
        leaf_okD [OF assms(5)]
      by (simp add: touches_def rest [OF b] st en)
  qed
  have ranges': "ranges ?rs' = sset_insert p rest"
    by (simp add: merged_rest_def rest_def)
  have neq: "st_at h b \<noteq> st_at h' p" "en_at h b \<noteq> en_at h' p" if b: "b \<in> set rest" for b
    using apart [OF b] range_okD(2) [OF p(1)] range_okD(2) [OF inv(6), of b] b
    by (auto simp: touches_def rest [OF b] sets)
  have sub: "set T \<subseteq> set (ranges rs)" using sets by auto
  have "indexes (st_map (merged_rest h rs T)) (st_at h) rest" "indexes (en_map (merged_rest h rs T)) (en_at h) rest"
    using assms(4) hrs_inv_inj [OF assms(4)] sub unfolding merged_rest_def rest_def hrs_inv_def
    by (auto intro!: indexes_filter)
  then have "indexes (st_map ?rs') (st_at h') (ranges ?rs')" "indexes (en_map ?rs') (en_at h') (ranges ?rs')"
    unfolding ranges' using fresh rest neq by (auto intro: indexes_put)
  moreover have leaves: "mset (hrs_leaves h' ?rs') = add_mset r (mset (hrs_leaves h rs))"
  proof -
    have "mset (hrs_leaves h' ?rs') = mset (leaf_addrs h' p) + mset (concat (map (leaf_addrs h') rest))"
      using fresh unfolding hrs_leaves_def ranges' by (simp add: mset_concat_map mset_sset_insert)
    also have "map (leaf_addrs h') rest = map (leaf_addrs h) rest" using rest by simp
    also have "mset (leaf_addrs h' p) + mset (concat (map (leaf_addrs h) rest)) = add_mset r (mset (hrs_leaves h rs))"
      using mset_concat_filter [of "leaf_addrs h" "\<lambda>a. touches h a r" "ranges rs"]
      by (simp add: p(2) hrs_leaves_def rest_def T_def cong: filter_cong)
    finally show ?thesis .
  qed
  moreover from this have "distinct (hrs_leaves h' ?rs')"
    using inv(8) assms(6) by (metis UnCI distinct.simps(2) hrs_own_def mset.simps(2) mset_eq_imp_distinct_iff)
  moreover have "ascending rest" using inv(1) by (simp add: rest_def sorted_wrt_filter)
  moreover have "\<not> touches h' p b" if "b \<in> set rest" for b
    using apart [OF that] touches_sym by metis
  moreover have "a = b" if "a \<in> set rest" "b \<in> set rest" "touches h' a b" for a b
    using that inv(7) [of a b] by (auto simp: touches_def rest sets)
  moreover have "range_ok h' b" if "b \<in> set rest" for b
    using that inv(6) by (auto simp: rest sets)
  ultimately have "hrs_inv h' ?rs'"
    using p(1) apart unfolding hrs_inv_def ranges' by auto
  moreover have "set T \<noteq> {}" using assms(7) by simp
  ultimately show ?thesis
    using assms(3,5,8) leaves other_same leaf_same rest_same st en gone label
    unfolding hrs_added_def Let_def sets(1) [symmetric] sets(2) [folded sets(1), symmetric] ranges'
    by simp
qed

lemma hrs_add_merge_added:
  assumes "heap_ok h" "hrs_inv h rs" "leaf_ok h r" "r \<notin> hrs_own h rs"
    "filter (\<lambda>a. touches h a r) (ranges rs) \<noteq> []"
  shows "\<exists>h' rs' p. hrs_add h rs r = Some (h', rs') \<and> hrs_added h rs r h' rs' p"
proof -
  note inv = hrs_invD [OF assms(2)]
  obtain f where f: "hp_objs h r = Some (ChildRange f)" "rst f \<le> ren f"
    using assms(3) by (auto simp: leaf_ok_def)
  define T where "T = filter (\<lambda>a. touches h a r) (ranges rs)"
  define st where "st = Min (insert (st_at h r) (st_at h ` set T))"
  define en where "en = Max (insert (en_at h r) (en_at h ` set T))"
  obtain p h1 where ph: "heap_new (merged_parent r (ChildRange f) st en) h = (p, h1)" by fastforce
  note new = heap_new_fresh [OF assms(1) ph]
  define cs where "cs = r # concat (map (leaf_addrs h) T)"
  define h' where "h' = h1\<lparr>hp_objs := (hp_objs h |` (- parents h T))(p \<mapsto>
       ParentRange (merged_fields (ChildRange f) st en) cs (rcb f # concat (map (cb_addrs h) T)))\<rparr>"
  define rest where "rest = filter (\<lambda>a. a \<notin> set T) (ranges rs)"
  define rs' where "rs' = \<lparr>ranges = sset_insert p rest,
      st_map = smap_put st p (filter (\<lambda>q. fst q \<notin> st_at h ` set T) (st_map rs)),
      en_map = smap_put en p (filter (\<lambda>q. fst q \<notin> en_at h ` set T) (en_map rs))\<rparr>"
  have add: "hrs_add h rs r = Some (h', rs')"
    using hrs_add_merge [OF assms(1,2) f(1), of p h1] f(2) assms(5) ph
    by (simp add: T_def st_def en_def h'_def rs'_def cs_def rest_def merged_rest_def)
  have T: "set T = {a \<in> set (ranges rs). touches h a r}" "set T \<subseteq> set (ranges rs)"
    by (auto simp: T_def)
  have rT: "a \<in> set T \<Longrightarrow> range_ok h a" for a using inv(6) T by auto
  have leaf_same: "hp_objs h' c = hp_objs h c" if "leaf_ok h c" for c
    using that new(1) by (auto simp: h'_def leaf_ok_def parents_def)
  have rest_same: "same_range h h' b" if b: "b \<in> set rest" for b
  proof -
    have "range_ok h b" using b inv(6) by (auto simp: rest_def)
    then have "hp_objs h b \<noteq> None" "\<And>c. c \<in> set (leaf_addrs h b) \<Longrightarrow> hp_objs h' c = hp_objs h c"
      using range_okD(1) range_ok_leaves(2) leaf_same by blast+
    moreover have "hp_objs h' b = hp_objs h b"
      using \<open>hp_objs h b \<noteq> None\<close> b new(1) by (auto simp: h'_def rest_def parents_def restrict_map_def)
    ultimately show ?thesis by (simp add: same_range_def)
  qed
  have other_same: "hp_objs h' a = hp_objs h a" if "a \<noteq> p" "a \<notin> set T" for a
    using that by (auto simp: h'_def parents_def restrict_map_def)
  have gone: "hp_objs h' a = None" if a: "a \<in> set T" "\<not> leaf_ok h a" for a
  proof -
    have "a \<noteq> p" using rT [OF a(1)] range_okD(1) [of h a] new(1) by auto
    then show ?thesis
      using rT [OF a(1)] a by (auto simp: h'_def parents_def restrict_map_def range_ok_def leaf_ok_def
          split: option.splits range_obj.splits)
  qed
  have cs: "\<And>c. c \<in> set cs \<Longrightarrow> leaf_ok h c" "set cs = insert r (\<Union>a \<in> set T. set (leaf_addrs h a))"
    using assms(3) rT range_ok_leaves(2) by (auto simp: cs_def)
  have cs_ne: "cs \<noteq> []" "distinct cs"
    using distinct_concat_filter [of "leaf_addrs h" "ranges rs"] inv(8) assms(4)
    by (auto simp: cs_def T_def hrs_own_def hrs_leaves_def)
  have heap_ok: "heap_ok h'" using new(4) assms(1) by (simp add: h'_def heap_ok_def)
  have p_at: "st_at h' p = st" "en_at h' p = en" "leaf_addrs h' p = cs"
    by (simp_all add: at_simps leaf_addrs_def h'_def merged_fields_def init_fields_def)
  have hull: "st = Min (st_at h ` set cs)" "en = Max (en_at h ` set cs)"
    unfolding st_def en_def cs(2) image_insert
    by (rule Min_nested Max_nested; use rT range_ok_leaves in auto)+
  have cbs: "rcb f # concat (map (cb_addrs h) T) = map (cb_at h) cs"
    using f(1) rT range_ok_leaves(3) by (auto simp: cs_def at_simps map_concat intro!: arg_cong [where f = concat])
  have at': "cb_at h' c = cb_at h c" "st_at h' c = st_at h c" "en_at h' c = en_at h c" "leaf_ok h' c"
    if "c \<in> set cs" for c
    using leaf_same [OF cs(1) [OF that]] cs(1) [OF that] by (simp_all add: at_simps leaf_ok_def)
  have "hp_objs h' p = Some (ParentRange (merged_fields (ChildRange f) st en) cs (map (cb_at h) cs))"
    using cbs by (simp add: h'_def)
  moreover from this have label: "labelled h' l p" if "labelled h l r" for l
    using that f(1) by (simp add: labelled_def merged_fields_def)
  ultimately have "range_ok h' p"
    using at' hull cs_ne
    by (simp add: range_ok_def merged_fields_def init_fields_def
        cong: image_cong map_cong)
  then have "hrs_added h rs r h' rs' p"
    using hrs_added_merge [OF _ assms(2-5) new(1) rest_same [unfolded rest_def T_def]
        other_same [unfolded T_def] leaf_same _ gone [unfolded T_def]] label p_at heap_ok
    by (simp add: rs'_def merged_rest_def rest_def T_def cs_def st_def en_def)
  with add show ?thesis by blast
qed

lemma hrs_add_added:
  assumes "heap_ok h" "hrs_inv h rs" "leaf_ok h r" "r \<notin> hrs_own h rs"
  shows "\<exists>h' rs' p. hrs_add h rs r = Some (h', rs') \<and> hrs_added h rs r h' rs' p"
  using hrs_add_apart_added [OF assms] hrs_add_merge_added [OF assms] by blast

subsection \<open>Taking a range out\<close>

lemma hrs_leaf_own: "leaf_ok h r \<Longrightarrow> r \<in> hrs_own h rs \<longleftrightarrow> r \<in> set (hrs_leaves h rs)"
  by (auto simp: hrs_own_def hrs_leaves_def leaf_ok_range_ok intro: bexI [of _ r])

lemma hrs_get_Some:
  assumes "hrs_inv h rs" "\<not> hrs_empty rs"
  shows "\<exists>rs' a. hrs_get h rs = Some (h, rs', a) \<and> hrs_inv h rs' \<and> range_ok h a \<and>
    ranges rs = a # ranges rs' \<and> hrs_leaves h rs = leaf_addrs h a @ hrs_leaves h rs'"
proof -
  note inv = hrs_invD [OF assms(1)]
  obtain a as where as: "ranges rs = a # as" using assms(2) by (cases "ranges rs") (auto simp: hrs_empty_def)
  have aok: "range_ok h a" using inv(6) as by simp
  then obtain x where x: "hp_objs h a = Some x" using range_okD(1) by fastforce
  let ?rs = "\<lparr>ranges = as, st_map = smap_erase (st_of x) (st_map rs), en_map = smap_erase (en_of x) (en_map rs)\<rparr>"
  have a: "a \<notin> set as" using inv(1) as ascending_distinct [of "ranges rs"] by simp
  then have flt: "filter (\<lambda>b. b \<notin> set [a]) (ranges rs) = as" using as by (auto intro: filter_True)
  have "indexes (filter (\<lambda>p. fst p \<notin> st_at h ` set [a]) (st_map rs)) (st_at h) (filter (\<lambda>b. b \<notin> set [a]) (ranges rs))"
    "indexes (filter (\<lambda>p. fst p \<notin> en_at h ` set [a]) (en_map rs)) (en_at h) (filter (\<lambda>b. b \<notin> set [a]) (ranges rs))"
    using assms(1) hrs_inv_inj [OF assms(1)] as by (intro indexes_filter; simp add: hrs_inv_def)+
  then have "indexes (st_map ?rs) (st_at h) as" "indexes (en_map ?rs) (en_at h) as"
    unfolding flt using x by (simp_all add: smap_erase_def at_simps)
  then have "hrs_inv h ?rs"
    using assms(1) as by (auto simp: hrs_inv_def hrs_leaves_def)
  then show ?thesis
    using as aok x assms(2) by (auto simp: hrs_get_def heap_read_def hrs_leaves_def)
qed

subsection \<open>Sequences of additions\<close>

fun hrs_add_all :: "range_heap \<Rightarrow> hrs \<Rightarrow> addr list \<Rightarrow> (range_heap \<times> hrs) option" where
  "hrs_add_all h rs [] = Some (h, rs)"
| "hrs_add_all h rs (r # l) = do { (h1, rs1) \<leftarrow> hrs_add h rs r; hrs_add_all h1 rs1 l }"

lemma hrs_add_all_snoc:
  "hrs_add_all h rs (l @ [r]) = do { (h1, rs1) \<leftarrow> hrs_add_all h rs l; hrs_add h1 rs1 r }"
  by (induction l arbitrary: h rs) (auto split: Option.bind_splits)

definition hrs_intervals :: "range_heap \<Rightarrow> hrs \<Rightarrow> (u64 \<times> u64) set" where
  "hrs_intervals h rs = (\<lambda>a. (st_at h a, en_at h a)) ` set (ranges rs)"

text \<open>One addition in terms of bytes.\<close>

lemma hrs_added_bytes:
  assumes "hrs_added h rs r h' rs' p" "leaf_ok h r"
  shows "(\<Union>a \<in> set (ranges rs'). bytes_at h' a) = bytes_at h r \<union> (\<Union>a \<in> set (ranges rs). bytes_at h a)"
proof -
  let ?T = "{a \<in> set (ranges rs). touches h a r}"
  have set': "set (ranges rs') = insert p (set (ranges rs) - ?T)" and
    st: "st_at h' p = Min (insert (st_at h r) (st_at h ` ?T))" and
    en: "en_at h' p = Max (insert (en_at h r) (en_at h ` ?T))" and
    same: "\<And>a. a \<in> set (ranges rs) - ?T \<Longrightarrow> same_range h h' a"
    using assms(1) by (auto simp: hrs_added_def Let_def)
  have "bytes_at h' a = bytes_at h a" if "a \<in> set (ranges rs) - ?T" for a
    using same_rangeD(1,2) [OF same [OF that]] by (simp add: bytes_at_def)
  moreover have "bytes_at h' p = bytes_at h r \<union> (\<Union>a \<in> ?T. bytes_at h a)"
    unfolding bytes_at_def st en using leaf_okD [OF assms(2)]
    by (intro hull_bytes) (auto simp: touches_def)
  ultimately show ?thesis unfolding set' by auto
qed

text \<open>Everything a sequence of additions to a new set leaves behind.\<close>

definition hrs_built :: "range_heap \<Rightarrow> addr list \<Rightarrow> range_heap \<Rightarrow> hrs \<Rightarrow> bool" where
  "hrs_built h l h' rs' \<longleftrightarrow> heap_ok h' \<and> hrs_inv h' rs' \<and>
     mset (hrs_leaves h' rs') = mset l \<and> (\<forall>c \<in> set l. leaf_ok h c) \<and>
     (\<Union>a \<in> set (ranges rs'). bytes_at h' a) = (\<Union>r \<in> set l. bytes_at h r) \<and>
     (\<forall>c. leaf_ok h c \<longrightarrow> hp_objs h' c = hp_objs h c) \<and>
     (\<forall>a \<in> set (ranges rs'). hp_objs h a = None \<or> leaf_ok h a) \<and>
     (\<forall>a. a \<notin> set (ranges rs') \<longrightarrow> hp_objs h' a = hp_objs h a)"

lemma hrs_built_step:
  assumes "hrs_built h l h1 rs1" "leaf_ok h r" "r \<notin> set l"
  shows "\<exists>h' rs'. hrs_add h1 rs1 r = Some (h', rs') \<and> hrs_built h (l @ [r]) h' rs'"
proof -
  have b: "heap_ok h1" "hrs_inv h1 rs1" "mset (hrs_leaves h1 rs1) = mset l"
    "(\<Union>a \<in> set (ranges rs1). bytes_at h1 a) = (\<Union>r \<in> set l. bytes_at h r)"
    "\<And>c. leaf_ok h c \<Longrightarrow> hp_objs h1 c = hp_objs h c"
    "\<And>a. a \<in> set (ranges rs1) \<Longrightarrow> hp_objs h a = None \<or> leaf_ok h a"
    "\<And>a. a \<notin> set (ranges rs1) \<Longrightarrow> hp_objs h1 a = hp_objs h a"
    "\<And>c. c \<in> set l \<Longrightarrow> leaf_ok h c"
    using assms(1) by (auto simp: hrs_built_def)
  have r1: "leaf_ok h1 r" using assms(2) b(5) [OF assms(2)] by (simp add: leaf_ok_def)
  then have "r \<notin> hrs_own h1 rs1"
    using assms(3) b(3) by (metis hrs_leaf_own set_mset_mset)
  then obtain h' rs' p where add: "hrs_add h1 rs1 r = Some (h', rs')" and
    ad: "hrs_added h1 rs1 r h' rs' p"
    using hrs_add_added [OF b(1,2) r1] by blast
  let ?T = "{a \<in> set (ranges rs1). touches h1 a r}"
  have a: "heap_ok h'" "hrs_inv h' rs'" "set (ranges rs') = insert p (set (ranges rs1) - ?T)"
    "if ?T = {} then p = r else hp_objs h1 p = None"
    "mset (hrs_leaves h' rs') = add_mset r (mset (hrs_leaves h1 rs1))"
    "\<And>a. a \<noteq> p \<Longrightarrow> a \<notin> ?T \<Longrightarrow> hp_objs h' a = hp_objs h1 a"
    "\<And>a. a \<in> ?T \<Longrightarrow> \<not> leaf_ok h1 a \<Longrightarrow> hp_objs h' a = None"
    "\<And>c. leaf_ok h1 c \<Longrightarrow> hp_objs h' c = hp_objs h1 c"
    using ad by (auto simp: hrs_added_def Let_def)
  have bytes: "bytes_at h1 r = bytes_at h r"
    using b(5) [OF assms(2)] by (simp add: bytes_at_def at_simps)
  have leaf1: "leaf_ok h1 c" if "leaf_ok h c" for c
    using that b(5) [OF that] by (simp add: leaf_ok_def)
  have "hp_objs h1 p = None \<Longrightarrow> hp_objs h p = None"
    using b(6,7) leaf1 [of p] by (cases "p \<in> set (ranges rs1)") (auto simp: leaf_ok_def)
  then have "hp_objs h p = None \<or> leaf_ok h p" using a(4) assms(2) by (auto split: if_splits)
  moreover have "hp_objs h' a = hp_objs h a" if "a \<notin> set (ranges rs')" for a
  proof (cases "a \<in> ?T")
    case True
    then have "hp_objs h a = None \<or> leaf_ok h a" using b(6) by auto
    moreover have "leaf_ok h a" if "leaf_ok h1 a"
      using True hrs_leaf_own [OF that, of rs1] b(3,8) by (metis Un_iff hrs_own_def mem_Collect_eq set_mset_mset)
    ultimately show ?thesis
      using a(7) [OF True] a(8) [of a] leaf1 [of a] b(5) [of a] by (cases "leaf_ok h1 a") auto
  next
    case False
    then show ?thesis using that a(3,6) b(7) [of a] by auto
  qed
  ultimately have "hrs_built h (l @ [r]) h' rs'"
    using a(1,2,3,5,8) b(3,4,5,6,8) hrs_added_bytes [OF ad r1] leaf1 assms(2) bytes
    by (simp add: hrs_built_def)
  with add show ?thesis by blast
qed


lemma hrs_add_all_built:
  assumes "heap_ok h" "distinct l" "\<forall>r \<in> set l. leaf_ok h r"
  shows "\<exists>h' rs'. hrs_add_all h HierarchicalRangeSet l = Some (h', rs') \<and> hrs_built h l h' rs'"
  using assms(2,3)
proof (induction l rule: rev_induct)
  case Nil
  then show ?case
    using assms(1) by (simp add: hrs_built_def HierarchicalRangeSet_def hrs_inv_def indexes_def
      smap_ok_def hrs_leaves_def)
next
  case (snoc r l)
  then obtain h1 rs1 where 1: "hrs_add_all h HierarchicalRangeSet l = Some (h1, rs1)"
    "hrs_built h l h1 rs1" by auto
  then show ?case
    using hrs_built_step [OF 1(2), of r] snoc.prems by (auto simp: hrs_add_all_snoc)
qed


lemma hrs_built_runs:
  assumes "hrs_built h l h' rs'" "\<forall>r \<in> set l. st_at h r < en_at h r"
  shows "hrs_intervals h' rs' = byte_runs (\<Union>r \<in> set l. bytes_at h r)"
proof -
  have b: "hrs_inv h' rs'" "mset (hrs_leaves h' rs') = mset l" "\<And>c. c \<in> set l \<Longrightarrow> leaf_ok h c"
    "(\<Union>a \<in> set (ranges rs'). bytes_at h' a) = (\<Union>r \<in> set l. bytes_at h r)"
    "\<And>c. leaf_ok h c \<Longrightarrow> hp_objs h' c = hp_objs h c"
    using assms(1) by (auto simp: hrs_built_def)
  note inv = hrs_invD [OF b(1)]
  have "st_at h' a < en_at h' a" if "a \<in> set (ranges rs')" for a
  proof (rule range_ok_nonempty [OF inv(6) [OF that]])
    fix c assume "c \<in> set (leaf_addrs h' a)"
    then have "c \<in> set l"
      using that mset_eq_setD [OF b(2)] by (auto simp: hrs_leaves_def)
    then show "st_at h' c < en_at h' c" using assms(2) b(3,5) by (simp add: at_simps)
  qed
  then have "byte_runs (\<Union>(s, e) \<in> hrs_intervals h' rs'. {s ..< e}) = hrs_intervals h' rs'"
  proof (intro separated_runs)
    fix s e s' e' assume "(s, e) \<in> hrs_intervals h' rs'" "(s', e') \<in> hrs_intervals h' rs'" "s \<le> e'" "s' \<le> e"
    then show "s = s' \<and> e = e'" unfolding hrs_intervals_def using inv(7) by (fastforce simp: touches_def)
  qed (auto simp: hrs_intervals_def)
  moreover have "(\<Union>(s, e) \<in> hrs_intervals h' rs'. {s ..< e}) = (\<Union>a \<in> set (ranges rs'). bytes_at h' a)"
    by (simp add: hrs_intervals_def bytes_at_def)
  ultimately show ?thesis using b(4) by simp
qed

subsection \<open>Properties\<close>

text \<open>Three requests on a store: the bytes 0 to 10, 5 to 20 and 30 to 40 of a file.\<close>

definition sample_heap :: range_heap where
  "sample_heap =
     (let h1 = snd (heap_new (new_ChildRange 0 10) empty_heap);
          h2 = snd (heap_new (new_ChildRange 30 40) h1)
      in snd (heap_new (new_ChildRange 5 20) h2))"

lemma sample_heap_ok: "heap_ok sample_heap"
  unfolding sample_heap_def Let_def
  by (intro heap_new_fresh(4) [OF _ prod.collapse [symmetric]] heap_ok_empty)

lemma sample_heap_objs:
  "hp_objs sample_heap = [1 \<mapsto> new_ChildRange 0 10, 2 \<mapsto> new_ChildRange 30 40, 3 \<mapsto> new_ChildRange 5 20]"
  by (simp add: sample_heap_def heap_new_def empty_heap_def Let_def numeral_2_eq_2 numeral_3_eq_3)

lemma sample_heap_leaf:
  "leaf_ok sample_heap 1" "leaf_ok sample_heap 2" "leaf_ok sample_heap 3"
  "st_at sample_heap 1 = 0" "en_at sample_heap 1 = 10"
  "st_at sample_heap 2 = 30" "en_at sample_heap 2 = 40"
  "st_at sample_heap 3 = 5" "en_at sample_heap 3 = 20"
  by (simp_all add: leaf_ok_def at_simps sample_heap_objs new_ChildRange_def init_fields_def)

lemmas sample_heap_at = sample_heap_leaf [unfolded One_nat_def]

text \<open>
  (C4) However overlapping, nested or adjacent the requests are, adding them to a new set in
  any order succeeds, and the set's ranges are exactly the maximal runs of bytes the requests
  cover: nothing is merged across a gap, nothing contiguous is left apart, and the result does
  not depend on the order of arrival.
\<close>

theorem hrs_add_all_maximal_runs:
  assumes "heap_ok h" "distinct l" "\<forall>r \<in> set l. leaf_ok h r \<and> st_at h r < en_at h r"
  shows "\<exists>h' rs'. hrs_add_all h HierarchicalRangeSet l = Some (h', rs') \<and>
    hrs_intervals h' rs' = byte_runs (\<Union>r \<in> set l. {st_at h r ..< en_at h r})"
  using hrs_add_all_built [OF assms(1,2)] hrs_built_runs assms(3) by (fastforce simp: bytes_at_def)

theorem hrs_add_all_maximal_runs_witness:
  "\<exists>h' rs'. hrs_add_all sample_heap HierarchicalRangeSet [1, 2, 3] = Some (h', rs') \<and>
    hrs_intervals h' rs' = {(0, 20), (30, 40)}"
proof -
  have u: "(\<Union>r \<in> set [1, 2, 3]. {st_at sample_heap r ..< en_at sample_heap r}) =
      (\<Union>(s, e) \<in> {(0, 20), (30, 40)}. {s ..< e})"
    by (auto simp: sample_heap_at word_less_nat_alt word_le_nat_alt)
  have r: "byte_runs (\<Union>(s, e) \<in> {(0, 20), (30, 40)}. {s ..< e}) = {(0, 20), (30, 40)}"
    by (rule separated_runs) auto
  show ?thesis
    using hrs_add_all_maximal_runs [OF sample_heap_ok, of "[1, 2, 3]"]
    unfolding u r by (simp add: sample_heap_at)
qed

text \<open>
  (C7) Adding requests to a new set never touches a freed or foreign object, loses none of
  them and duplicates none: the children below the ranges of the set are the requests, their
  objects are unchanged, every other object that was on the store is still there unchanged, and
  the only new objects are ranges of the set, so that no merged parent leaks.
\<close>

theorem hrs_add_all_conserves:
  assumes "heap_ok h" "distinct l" "\<forall>r \<in> set l. leaf_ok h r"
  shows "\<exists>h' rs'. hrs_add_all h HierarchicalRangeSet l = Some (h', rs') \<and>
    hrs_inv h' rs' \<and> mset (hrs_leaves h' rs') = mset l \<and>
    (\<forall>a x. hp_objs h a = Some x \<longrightarrow> hp_objs h' a = Some x) \<and>
    dom (hp_objs h') = dom (hp_objs h) \<union> set (ranges rs')"
proof -
  obtain h' rs' where 1: "hrs_add_all h HierarchicalRangeSet l = Some (h', rs')" "hrs_built h l h' rs'"
    using hrs_add_all_built [OF assms] by blast
  have b: "hrs_inv h' rs'" "mset (hrs_leaves h' rs') = mset l"
    "\<And>c. leaf_ok h c \<Longrightarrow> hp_objs h' c = hp_objs h c"
    "\<And>a. a \<in> set (ranges rs') \<Longrightarrow> hp_objs h a = None \<or> leaf_ok h a"
    "\<And>a. a \<notin> set (ranges rs') \<Longrightarrow> hp_objs h' a = hp_objs h a"
    using 1(2) by (auto simp: hrs_built_def)
  have same: "hp_objs h' a = Some x" if "hp_objs h a = Some x" for a x
    using that b(3-5) [of a] by (cases "a \<in> set (ranges rs')") auto
  have "dom (hp_objs h') = dom (hp_objs h) \<union> set (ranges rs')"
  proof (intro equalityI subsetI)
    fix a assume "a \<in> dom (hp_objs h) \<union> set (ranges rs')"
    then show "a \<in> dom (hp_objs h')"
      using same range_okD(1) [OF hrs_invD(6) [OF b(1)]] by auto
  qed (use b(5) in force)
  then show ?thesis using 1(1) b(1,2) same by blast
qed

theorem hrs_add_all_conserves_witness:
  "(\<exists>h' rs'. hrs_add_all sample_heap HierarchicalRangeSet [1, 2, 3] = Some (h', rs') \<and>
    hrs_inv h' rs' \<and> mset (hrs_leaves h' rs') = mset [1, 2, 3] \<and>
    (\<forall>a x. hp_objs sample_heap a = Some x \<longrightarrow> hp_objs h' a = Some x) \<and>
    dom (hp_objs h') = dom (hp_objs sample_heap) \<union> set (ranges rs')) \<and>
   map_option (\<lambda>(h, rs). map (\<lambda>a. (a, st_at h a, en_at h a, leaf_addrs h a)) (ranges rs))
     (hrs_add_all sample_heap HierarchicalRangeSet [1, 2, 3]) =
   Some [(2, 30, 40, [2]), (4, 0, 20, [3, 1])]"
proof (rule conjI, rule hrs_add_all_conserves)
  show "\<forall>r \<in> set [1, 2, 3]. leaf_ok sample_heap r" by (simp add: sample_heap_at)
qed (simp add: sample_heap_ok, simp, code_simp)

text \<open>
  (C35) Whenever an addition merges anything, the parent range it puts into the set takes over
  type and handle of the added range but has an indeterminate operation hint, whatever the hints
  of the requests are.
\<close>

theorem hrs_add_merged_hint:
  assumes "heap_ok h" "hrs_inv h rs" "hp_objs h r = Some (ChildRange f)" "rst f \<le> ren f"
    "a \<in> set (ranges rs)" "touches h a r"
  shows "\<exists>h' rs' p g cs cbs. hrs_add h rs r = Some (h', rs') \<and> p \<in> set (ranges rs') \<and>
    hp_objs h' p = Some (ParentRange g cs cbs) \<and> r \<in> set cs \<and>
    rtype g = rtype f \<and> rhandle g = rhandle f \<and> rhint g = None"
proof -
  have "filter (\<lambda>a. touches h a r) (ranges rs) \<noteq> []"
    using assms(5,6) by (auto simp: filter_empty_conv)
  from hrs_add_merge [OF assms(1-3) _ this prod.collapse [symmetric]]
  show ?thesis using assms(4) by (auto simp: merged_fields_def init_fields_def)
qed

theorem hrs_add_merged_hint_witness:
  "\<exists>h' rs' p g cs cbs. hrs_add sample_heap \<lparr>ranges = [1], st_map = [(0, 1)], en_map = [(10, 1)]\<rparr> 3 = Some (h', rs') \<and>
    p \<in> set (ranges rs') \<and> hp_objs h' p = Some (ParentRange g cs cbs) \<and> 3 \<in> set cs \<and>
    rtype g = rtype (init_fields 5 20) \<and> rhandle g = rhandle (init_fields 5 20) \<and> rhint g = None"
  by (rule hrs_add_merged_hint [OF sample_heap_ok, where a = 1])
    (simp_all add: sample_heap_objs sample_heap_at touches_def hrs_inv_def indexes_def smap_ok_def
      hrs_leaves_def range_ok_def leaf_addrs_def new_ChildRange_def init_fields_def)

subsection \<open>The contract of the class\<close>

definition hrs_ops :: "hrs BaseRangeSet" where
  "hrs_ops = \<lparr>brs_new = HierarchicalRangeSet, brs_add = hrs_add, brs_get = hrs_get, brs_empty = hrs_empty,
     brs_delete = hrs_delete\<rparr>"

definition hrs_labelled :: "RangeType \<times> addr \<Rightarrow> range_heap \<Rightarrow> hrs \<Rightarrow> bool" where
  "hrs_labelled l h rs \<longleftrightarrow> hrs_inv h rs \<and> (\<forall>a \<in> hrs_own h rs. labelled h l a)"

lemma hrs_inv_frame:
  assumes "\<forall>a \<in> hrs_own h s. hp_objs h' a = hp_objs h a"
  shows "hrs_own h' s = hrs_own h s" "hrs_leaves h' s = hrs_leaves h s" "hrs_inv h' s = hrs_inv h s"
    "hrs_labelled l h' s = hrs_labelled l h s"
proof -
  have same: "same_range h h' a" if "a \<in> set (ranges s)" for a
    using that assms by (auto simp: same_range_def hrs_own_def hrs_leaves_def)
  note same = same_rangeD [OF same]
  show lv: "hrs_leaves h' s = hrs_leaves h s"
    by (auto simp: hrs_leaves_def same intro!: arg_cong [where f = concat])
  show own: "hrs_own h' s = hrs_own h s" by (simp add: hrs_own_def lv)
  have "indexes m (st_at h') (ranges s) = indexes m (st_at h) (ranges s)"
    "indexes m (en_at h') (ranges s) = indexes m (en_at h) (ranges s)" for m
    by (simp_all add: indexes_def same cong: image_cong)
  then show inv: "hrs_inv h' s = hrs_inv h s"
    by (simp add: hrs_inv_def same lv touches_def)
  show "hrs_labelled l h' s = hrs_labelled l h s"
    using assms by (simp add: hrs_labelled_def inv own labelled_def)
qed

lemma hrs_own_live: "hrs_inv h rs \<Longrightarrow> hrs_own h rs \<subseteq> dom (hp_objs h)"
  using hrs_invD(6) range_okD(1) range_ok_leaves(2) leaf_okD
  by (fastforce simp: hrs_own_def hrs_leaves_def)

text \<open>The store around the set: nothing else changes, nothing leaks, the labels agree.\<close>

lemma hrs_added_store:
  assumes "hrs_added h rs r h' rs' p" "hrs_inv h rs" "leaf_ok h r"
  shows "taken_in h (hrs_own h rs) r h' (hrs_own h' rs')"
proof -
  let ?T = "{a \<in> set (ranges rs). touches h a r}"
  have a: "hrs_inv h' rs'" "set (ranges rs') = insert p (set (ranges rs) - ?T)"
    "if ?T = {} then p = r else hp_objs h p = None"
    "mset (hrs_leaves h' rs') = add_mset r (mset (hrs_leaves h rs))"
    "\<And>a. a \<noteq> p \<Longrightarrow> a \<notin> ?T \<Longrightarrow> hp_objs h' a = hp_objs h a"
    "\<And>a. a \<in> ?T \<Longrightarrow> \<not> leaf_ok h a \<Longrightarrow> hp_objs h' a = None"
    "\<And>c. leaf_ok h c \<Longrightarrow> hp_objs h' c = hp_objs h c"
    using assms(1) by (auto simp: hrs_added_def Let_def)
  have lv: "set (hrs_leaves h' rs') = insert r (set (hrs_leaves h rs))"
    using a(4) by (metis mset.simps(2) mset_eq_setD list.simps(15))
  then have own': "hrs_own h' rs' = insert r (insert p (set (ranges rs) - ?T) \<union> set (hrs_leaves h rs))"
    by (auto simp: hrs_own_def a(2))
  have p: "p = r \<or> hp_objs h p = None" using a(3) by (auto split: if_splits)
  have 2: "\<forall>a \<in> dom (hp_objs h) - hrs_own h rs. hp_objs h' a = hp_objs h a"
  proof
    fix x assume x: "x \<in> dom (hp_objs h) - hrs_own h rs"
    then have "x \<notin> ?T" by (auto simp: hrs_own_def)
    then show "hp_objs h' x = hp_objs h x"
      using a(5) [of x] a(7) [OF assms(3)] p x by (cases "x = p") auto
  qed
  have gone: "a \<in> ?T \<Longrightarrow> a \<notin> set (hrs_leaves h rs) \<Longrightarrow> hp_objs h' a = None" for a
    using a(6) hrs_leaf_own [of h a rs] by (auto simp: hrs_own_def)
  have "dom (hp_objs h') - hrs_own h' rs' = dom (hp_objs h) - hrs_own h rs - {r}"
  proof (intro equalityI subsetI)
    fix x assume x: "x \<in> dom (hp_objs h') - hrs_own h' rs'"
    then have *: "x \<noteq> r" "x \<noteq> p" "x \<notin> set (hrs_leaves h rs)" "x \<notin> set (ranges rs) - ?T" "hp_objs h' x \<noteq> None"
      by (auto simp: own')
    then have "x \<notin> ?T" using gone [of x] by auto
    then show "x \<in> dom (hp_objs h) - hrs_own h rs - {r}"
      using * a(5) [of x] by (auto simp: hrs_own_def)
  next
    fix x assume x: "x \<in> dom (hp_objs h) - hrs_own h rs - {r}"
    then have "x \<noteq> p" using p by auto
    then have "x \<notin> hrs_own h' rs'" using x unfolding own' by (auto simp: hrs_own_def)
    moreover have "hp_objs h' x = hp_objs h x" using x 2 by auto
    ultimately show "x \<in> dom (hp_objs h') - hrs_own h' rs'" using x by auto
  qed
  moreover have "heap_ok h'" using assms(1) by (simp add: hrs_added_def Let_def)
  ultimately show ?thesis using 2 a(7) by (simp add: taken_in_def)
qed


lemma hrs_added_labelled:
  assumes "hrs_added h rs r h' rs' p" "hrs_labelled l h rs" "leaf_ok h r" "labelled h l r"
  shows "hrs_labelled l h' rs'"
proof -
  let ?T = "{a \<in> set (ranges rs). touches h a r}"
  have a: "hrs_inv h' rs'" "set (ranges rs') = insert p (set (ranges rs) - ?T)"
    "mset (hrs_leaves h' rs') = add_mset r (mset (hrs_leaves h rs))"
    "\<And>a. a \<in> set (ranges rs) - ?T \<Longrightarrow> hp_objs h' a = hp_objs h a"
    "\<And>c. leaf_ok h c \<Longrightarrow> hp_objs h' c = hp_objs h c" "labelled h' l p"
    using assms(1,4) by (cases l; auto simp: hrs_added_def Let_def same_range_def)+
  have lv: "set (hrs_leaves h' rs') = insert r (set (hrs_leaves h rs))"
    using a(3) by (metis mset.simps(2) mset_eq_setD list.simps(15))
  have ok: "hrs_inv h rs" "\<And>a. a \<in> hrs_own h rs \<Longrightarrow> labelled h l a"
    using assms(2) by (auto simp: hrs_labelled_def)
  have "labelled h' l a" if own: "a \<in> hrs_own h' rs'" for a
  proof -
    consider "a = p" | "a = r" | "a \<in> set (hrs_leaves h rs)" | "a \<in> set (ranges rs) - ?T"
      using own unfolding hrs_own_def a(2) lv by blast
    then show ?thesis
    proof cases
      case 3
      then have "leaf_ok h a" using hrs_invD(6) [OF ok(1)] range_ok_leaves(2) by (auto simp: hrs_leaves_def)
      then show ?thesis using a(5) ok(2) 3 by (simp add: labelled_def hrs_own_def)
    qed (use a(4,5,6) assms(3,4) ok(2) in \<open>auto simp: labelled_def hrs_own_def\<close>)
  qed
  then show ?thesis using a(1) by (simp add: hrs_labelled_def)
qed

lemma hrs_leaf_ok: "hrs_inv h s \<Longrightarrow> c \<in> set (hrs_leaves h s) \<Longrightarrow> leaf_ok h c"
  by (auto simp: hrs_leaves_def dest: hrs_invD(6) range_ok_leaves(2))

lemma hrs_get_disjoint:
  assumes "hrs_inv h s" "hrs_inv h s'" "range_ok h a" "ranges s = a # ranges s'"
    "hrs_leaves h s = leaf_addrs h a @ hrs_leaves h s'"
  shows "hrs_own h s' \<inter> range_own h a = {}"
proof -
  have d: "a \<notin> set (ranges s')" "set (leaf_addrs h a) \<inter> set (hrs_leaves h s') = {}"
    using hrs_invD(1,8) [OF assms(1)] ascending_distinct [of "ranges s"] assms(4,5) by auto
  have leaf: "leaf_ok h c" if "c \<in> set (leaf_addrs h a) \<union> set (hrs_leaves h s')" for c
    using that range_ok_leaves(2) [OF assms(3)] hrs_leaf_ok [OF assms(2)] by auto
  have "c \<notin> hrs_own h s'" if "c \<in> set (leaf_addrs h a)" for c
    using that d(2) hrs_leaf_own [OF leaf] by auto
  moreover have "a \<notin> hrs_own h s'"
    using d leaf [of a] leaf_ok_range_ok [of h a] by (auto simp: hrs_own_def)
  ultimately show ?thesis by (auto simp: range_own_def)
qed

interpretation hier: base_range_set hrs_ops hrs_labelled hrs_own "\<lambda>h rs. mset (hrs_leaves h rs)"
proof
  fix l h h' r c and s :: hrs
  show "hrs_labelled l h (brs_new hrs_ops)" "hrs_own h (brs_new hrs_ops) = {}"
    "mset (hrs_leaves h (brs_new hrs_ops)) = {#}"
    by (simp_all add: hrs_ops_def HierarchicalRangeSet_def hrs_labelled_def hrs_inv_def indexes_def
        smap_ok_def hrs_leaves_def hrs_own_def)
  show "\<forall>a \<in> hrs_own h s. hp_objs h' a = hp_objs h a \<Longrightarrow> hrs_own h' s = hrs_own h s \<and>
      mset (hrs_leaves h' s) = mset (hrs_leaves h s) \<and> hrs_labelled l h' s = hrs_labelled l h s"
    using hrs_inv_frame by metis
  assume lab: "hrs_labelled l h s"
  then have inv: "hrs_inv h s" by (simp add: hrs_labelled_def)
  show "brs_empty hrs_ops s \<longleftrightarrow> mset (hrs_leaves h s) = {#}"
    using hrs_invD(6) [OF inv] range_ok_leaves(1)
    by (cases "ranges s") (auto simp: hrs_ops_def hrs_empty_def hrs_leaves_def)
  show "brs_empty hrs_ops s \<Longrightarrow> brs_delete hrs_ops h s = Some h"
    by (simp add: hrs_ops_def hrs_empty_def hrs_delete_def)
  show "hrs_own h s \<subseteq> dom (hp_objs h)" by (rule hrs_own_live [OF inv])
  show "c \<in> hrs_own h s \<longleftrightarrow> c \<in># mset (hrs_leaves h s)" if "leaf_ok h c"
    using hrs_leaf_own [OF that] by simp
  show "leaf_ok h c \<and> labelled h l c" if "c \<in># mset (hrs_leaves h s)"
    using that lab hrs_leaf_ok [OF inv] by (auto simp: hrs_labelled_def hrs_own_def)
  show "hrs_own h s = {}" if "mset (hrs_leaves h s) = {#}"
    using that hrs_invD(6) [OF inv] range_ok_leaves(1)
    by (cases "ranges s") (auto simp: hrs_own_def hrs_leaves_def)
  assume hok: "heap_ok h"
  { assume r: "leaf_ok h r" "labelled h l r" "r \<notin> hrs_own h s"
    then obtain h' s' p where "hrs_add h s r = Some (h', s')" and ad: "hrs_added h s r h' s' p"
      using hrs_add_added [OF hok inv] by blast
    moreover have "mset (hrs_leaves h' s') = add_mset r (mset (hrs_leaves h s))"
      using ad by (simp add: hrs_added_def Let_def)
    ultimately show "\<exists>h' s'. brs_add hrs_ops h s r = Some (h', s') \<and> hrs_labelled l h' s' \<and>
         mset (hrs_leaves h' s') = add_mset r (mset (hrs_leaves h s)) \<and>
         taken_in h (hrs_own h s) r h' (hrs_own h' s')"
      using hrs_added_store [OF ad inv r(1)] hrs_added_labelled [OF ad lab r(1,2)]
      by (simp add: hrs_ops_def) }
  assume ne: "\<not> brs_empty hrs_ops s"
  obtain s' a where g: "hrs_get h s = Some (h, s', a)" "hrs_inv h s'" "range_ok h a"
      "ranges s = a # ranges s'" "hrs_leaves h s = leaf_addrs h a @ hrs_leaves h s'"
    using hrs_get_Some [OF inv] ne by (auto simp: hrs_ops_def)
  have own: "hrs_own h s = range_own h a \<union> hrs_own h s'"
    using g(4,5) by (auto simp: hrs_own_def range_own_def)
  have "hrs_own h s' \<inter> range_own h a = {}"
    by (rule hrs_get_disjoint [OF inv g(2-5)])
  then have "handed_out h (hrs_own h s) l a h (hrs_own h s')"
    using g(3) hok own lab hrs_own_live [OF inv] by (auto simp: handed_out_def hrs_labelled_def)
  moreover have "hrs_labelled l h s'" using lab g(2) own by (auto simp: hrs_labelled_def)
  ultimately show "\<exists>h' s' r. brs_get hrs_ops h s = Some (h', s', r) \<and> hrs_labelled l h' s' \<and>
         mset (hrs_leaves h s) = mset (leaf_addrs h' r) + mset (hrs_leaves h' s') \<and>
         handed_out h (hrs_own h s) l r h' (hrs_own h' s')"
    using g(1,5) by (auto simp: hrs_ops_def)
qed

end
