(* ===== verification/Range_Sched.thy ===== *)
theory Range_Sched
  imports Hier_Range_Set
begin

text \<open>
  The range schedulers (\<open>src/iofwd/RangeScheduler.hh\<close>, \<open>src/iofwd/RangeScheduler.cpp\<close>): the
  abstract class \<open>RangeScheduler\<close>, the first-in-first-out scheduler and the handle-based merge
  scheduler, which keeps one range set per file handle and direction and serves the sets round
  robin with a quantum. The merge scheduler is parametrised by the range set class its factory
  constructs.
\<close>

record 'q RangeScheduler =
  rsched_enqueue :: "range_heap \<Rightarrow> 'q \<Rightarrow> addr \<Rightarrow> (range_heap \<times> 'q) option"
  rsched_empty :: "'q \<Rightarrow> bool"
  rsched_dequeue :: "range_heap \<Rightarrow> 'q \<Rightarrow> (range_heap \<times> 'q \<times> addr option) option"

subsection \<open>The FIFO scheduler\<close>

definition fifo_enqueue :: "range_heap \<Rightarrow> addr list \<Rightarrow> addr \<Rightarrow> (range_heap \<times> addr list) option" where
  "fifo_enqueue h q r = Some (h, q @ [r])"

definition fifo_empty :: "addr list \<Rightarrow> bool" where
  "fifo_empty q \<longleftrightarrow> q = []"

definition fifo_dequeue :: "range_heap \<Rightarrow> addr list \<Rightarrow> (range_heap \<times> addr list \<times> addr option) option" where
  "fifo_dequeue h q = (if q = [] then Some (h, q, None) else Some (h, tl q, Some (hd q)))"

definition fifo_ops :: "addr list RangeScheduler" where
  "fifo_ops = \<lparr>rsched_enqueue = fifo_enqueue, rsched_empty = fifo_empty, rsched_dequeue = fifo_dequeue\<rparr>"

subsection \<open>The merge scheduler\<close>

record 's HandleQueue =
  hq_type :: RangeType
  hq_handle :: addr
  hq_brs :: 's
  hq_quantum :: int

record 's merge_sched =
  mq :: "addr list"
  rm :: "addr \<rightharpoonup> addr"
  wm :: "addr \<rightharpoonup> addr"
  bytes_queued :: u64
  default_quantum :: int
  hqs :: "'s HandleQueue heap"

text \<open>
  The constructor; the quantum comes from the key \<open>defquantum\<close> of the configuration, 8 when the
  key is absent, and handle queues are allocated from the store \<open>hp\<close>.
\<close>

definition MergeRangeScheduler :: "int option \<Rightarrow> 's HandleQueue heap \<Rightarrow> 's merge_sched" where
  "MergeRangeScheduler defquantum hp =
     \<lparr>mq = [], rm = Map.empty, wm = Map.empty, bytes_queued = 0,
      default_quantum = (case defquantum of Some n \<Rightarrow> n | None \<Rightarrow> 8), hqs = hp\<rparr>"

text \<open>The map for a direction: \<open>(type == RANGE_READ) ? rm_ : wm_\<close>.\<close>

definition hq_map :: "'s merge_sched \<Rightarrow> RangeType \<Rightarrow> addr \<rightharpoonup> addr" where
  "hq_map ms t = (if t = RANGE_READ then rm ms else wm ms)"

definition hq_map_update :: "RangeType \<Rightarrow> ((addr \<rightharpoonup> addr) \<Rightarrow> (addr \<rightharpoonup> addr)) \<Rightarrow> 's merge_sched \<Rightarrow> 's merge_sched" where
  "hq_map_update t g ms = (if t = RANGE_READ then ms\<lparr>rm := g (rm ms)\<rparr> else ms\<lparr>wm := g (wm ms)\<rparr>)"

definition io_enqueue ::
  "'s BaseRangeSet \<Rightarrow> range_heap \<Rightarrow> 's merge_sched \<Rightarrow> addr \<Rightarrow> (range_heap \<times> 's merge_sched) option" where
  "io_enqueue ops h ms r = do {
     x \<leftarrow> heap_read h r;
     t \<leftarrow> rtype (range_fields x);
     k \<leftarrow> rhandle (range_fields x);
     (case hq_map ms t k of
        None \<Rightarrow> do {
          (h1, brs) \<leftarrow> brs_add ops h (brs_new ops) r;
          let (hq, hp) = heap_new \<lparr>hq_type = t, hq_handle = k, hq_brs = brs,
                           hq_quantum = default_quantum ms\<rparr> (hqs ms);
          Some (h1, hq_map_update t (\<lambda>m. m(k \<mapsto> hq)) (ms\<lparr>mq := mq ms @ [hq], hqs := hp\<rparr>))
        }
      | Some hq \<Rightarrow> do {
          y \<leftarrow> heap_read (hqs ms) hq;
          (h1, brs) \<leftarrow> brs_add ops h (hq_brs y) r;
          hp \<leftarrow> heap_write hq (y\<lparr>hq_brs := brs\<rparr>) (hqs ms);
          Some (h1, ms\<lparr>hqs := hp\<rparr>)
        })
   }"

definition io_dequeue ::
  "'s BaseRangeSet \<Rightarrow> range_heap \<Rightarrow> 's merge_sched \<Rightarrow> (range_heap \<times> 's merge_sched \<times> addr option) option" where
  "io_dequeue ops h ms =
     (case mq ms of
        [] \<Rightarrow> Some (h, ms, None)
      | hq # q \<Rightarrow> do {
          y \<leftarrow> heap_read (hqs ms) hq;
          assert_that (hq_map ms (hq_type y) (hq_handle y) \<noteq> None);
          assert_that (\<not> brs_empty ops (hq_brs y));
          (h1, brs, r) \<leftarrow> brs_get ops h (hq_brs y);
          assert_that (hq_quantum y > - (2 ^ 31));
          let y1 = y\<lparr>hq_brs := brs, hq_quantum := hq_quantum y - 1\<rparr>;
          if hq_quantum y1 > 0 \<and> \<not> brs_empty ops brs
          then do {
            hp \<leftarrow> heap_write hq y1 (hqs ms);
            Some (h1, ms\<lparr>hqs := hp\<rparr>, Some r)
          }
          else if hq_quantum y1 = 0 \<and> \<not> brs_empty ops brs
          then do {
            hp \<leftarrow> heap_write hq (y1\<lparr>hq_quantum := default_quantum ms\<rparr>) (hqs ms);
            Some (h1, ms\<lparr>mq := q @ [hq], hqs := hp\<rparr>, Some r)
          }
          else do {
            h2 \<leftarrow> brs_delete ops h1 brs;
            hp \<leftarrow> heap_delete hq (hqs ms);
            Some (h2, hq_map_update (hq_type y1) (\<lambda>m. m(hq_handle y1 := None)) (ms\<lparr>mq := q, hqs := hp\<rparr>), Some r)
          }
        })"

text \<open>The deadline queue is not implemented in the source: it takes nothing and returns nothing.\<close>

definition deadline_enqueue :: "range_heap \<Rightarrow> 's merge_sched \<Rightarrow> addr \<Rightarrow> (range_heap \<times> 's merge_sched) option" where
  "deadline_enqueue h ms r = Some (h, ms)"

definition deadline_dequeue :: "range_heap \<Rightarrow> 's merge_sched \<Rightarrow> (range_heap \<times> 's merge_sched \<times> addr option) option" where
  "deadline_dequeue h ms = Some (h, ms, None)"

definition merge_enqueue ::
  "'s BaseRangeSet \<Rightarrow> range_heap \<Rightarrow> 's merge_sched \<Rightarrow> addr \<Rightarrow> (range_heap \<times> 's merge_sched) option" where
  "merge_enqueue ops h ms r = do {
     (h1, ms1) \<leftarrow> deadline_enqueue h ms r;
     (h2, ms2) \<leftarrow> io_enqueue ops h1 ms1 r;
     x \<leftarrow> heap_read h2 r;
     Some (h2, ms2\<lparr>bytes_queued := bytes_queued ms2 + (en_of x - st_of x)\<rparr>)
   }"

definition merge_empty :: "'s merge_sched \<Rightarrow> bool" where
  "merge_empty ms \<longleftrightarrow> mq ms = []"

definition merge_dequeue ::
  "'s BaseRangeSet \<Rightarrow> range_heap \<Rightarrow> 's merge_sched \<Rightarrow> (range_heap \<times> 's merge_sched \<times> addr option) option" where
  "merge_dequeue ops h ms = do {
     (h1, ms1, r1) \<leftarrow> deadline_dequeue h ms;
     (h2, ms2, r2) \<leftarrow> (case r1 of None \<Rightarrow> io_dequeue ops h1 ms1 | Some r \<Rightarrow> Some (h1, ms1, Some r));
     (case r2 of
        None \<Rightarrow> Some (h2, ms2, None)
      | Some r \<Rightarrow> do {
          x \<leftarrow> heap_read h2 r;
          Some (h2, ms2\<lparr>bytes_queued := bytes_queued ms2 - (en_of x - st_of x)\<rparr>, Some r)
        })
   }"

definition merge_ops :: "'s BaseRangeSet \<Rightarrow> 's merge_sched RangeScheduler" where
  "merge_ops ops = \<lparr>rsched_enqueue = merge_enqueue ops, rsched_empty = merge_empty,
     rsched_dequeue = merge_dequeue ops\<rparr>"

subsection \<open>The contract of a range scheduler\<close>

text \<open>
  What the request scheduler relies on: \<open>q_own\<close> are the objects the scheduler owns, \<open>q_pending\<close>
  the requests waiting in it. A dequeued range and all its children agree in direction and handle.
\<close>

locale range_scheduler =
  fixes ops :: "'q RangeScheduler"
    and q_inv :: "range_heap \<Rightarrow> 'q \<Rightarrow> bool"
    and q_own :: "range_heap \<Rightarrow> 'q \<Rightarrow> addr set"
    and q_pending :: "range_heap \<Rightarrow> 'q \<Rightarrow> addr multiset"
  assumes empty_iff: "q_inv h q \<Longrightarrow> rsched_empty ops q \<longleftrightarrow> q_pending h q = {#}"
    and own_live: "q_inv h q \<Longrightarrow> q_own h q \<subseteq> dom (hp_objs h)"
    and own_pending: "q_inv h q \<Longrightarrow> leaf_ok h c \<Longrightarrow> c \<in> q_own h q \<longleftrightarrow> c \<in># q_pending h q"
    and pending_ok: "q_inv h q \<Longrightarrow> c \<in># q_pending h q \<Longrightarrow> leaf_ok h c \<and> (\<exists>l. labelled h l c)"
    and frame: "\<forall>a \<in> q_own h q. hp_objs h' a = hp_objs h a \<Longrightarrow>
       q_own h' q = q_own h q \<and> q_pending h' q = q_pending h q \<and> q_inv h' q = q_inv h q"
    and enqueue: "heap_ok h \<Longrightarrow> q_inv h q \<Longrightarrow> leaf_ok h r \<Longrightarrow> labelled h l r \<Longrightarrow> r \<notin> q_own h q \<Longrightarrow>
       \<exists>h' q'. rsched_enqueue ops h q r = Some (h', q') \<and> q_inv h' q' \<and>
         q_pending h' q' = add_mset r (q_pending h q) \<and> taken_in h (q_own h q) r h' (q_own h' q')"
    and dequeue_empty: "rsched_empty ops q \<Longrightarrow> rsched_dequeue ops h q = Some (h, q, None)"
    and dequeue: "heap_ok h \<Longrightarrow> q_inv h q \<Longrightarrow> \<not> rsched_empty ops q \<Longrightarrow>
       \<exists>h' q' r l. rsched_dequeue ops h q = Some (h', q', Some r) \<and> q_inv h' q' \<and>
         q_pending h q = mset (leaf_addrs h' r) + q_pending h' q' \<and>
         handed_out h (q_own h q) l r h' (q_own h' q')"

text \<open>Sequences of calls, as the request scheduler makes them; the result lists the ranges handed out.\<close>

datatype sched_op = Enq addr | Deq

fun sched_run ::
  "'q RangeScheduler \<Rightarrow> sched_op list \<Rightarrow> range_heap \<Rightarrow> 'q \<Rightarrow> (range_heap \<times> 'q \<times> addr list) option" where
  "sched_run ops [] h q = Some (h, q, [])"
| "sched_run ops (Enq r # xs) h q = do {
     (h1, q1) \<leftarrow> rsched_enqueue ops h q r;
     sched_run ops xs h1 q1
   }"
| "sched_run ops (Deq # xs) h q = do {
     (h1, q1, r) \<leftarrow> rsched_dequeue ops h q;
     (h2, q2, out) \<leftarrow> sched_run ops xs h1 q1;
     Some (h2, q2, (case r of None \<Rightarrow> out | Some a \<Rightarrow> a # out))
   }"

fun enqueued :: "sched_op list \<Rightarrow> addr list" where
  "enqueued [] = []"
| "enqueued (Enq r # xs) = r # enqueued xs"
| "enqueued (Deq # xs) = enqueued xs"

definition homogeneous :: "range_heap \<Rightarrow> addr \<Rightarrow> bool" where
  "homogeneous h r \<longleftrightarrow> range_ok h r \<and> (\<exists>l. \<forall>a \<in> range_own h r. labelled h l a)"

definition submittable :: "range_heap \<Rightarrow> addr list \<Rightarrow> bool" where
  "submittable h rs \<longleftrightarrow> distinct rs \<and> (\<forall>r \<in> set rs. leaf_ok h r \<and> (\<exists>l. labelled h l r))"

lemma homogeneous_frame:
  assumes "\<And>a. a \<in> range_own h r \<Longrightarrow> hp_objs h' a = hp_objs h a"
  shows "homogeneous h' r = homogeneous h r" "leaf_addrs h' r = leaf_addrs h r"
proof -
  have "same_range h h' r" using assms by (simp add: same_range_def range_own_def)
  note same = same_rangeD [OF this]
  show "leaf_addrs h' r = leaf_addrs h r" by (rule same(3))
  then show "homogeneous h' r = homogeneous h r"
    using assms same(4) by (simp add: homogeneous_def labelled_def range_own_def)
qed

text \<open>
  The caller's view of the store: the objects \<open>C\<close> it holds and the requests \<open>rs\<close> it is going to
  submit are live and none of them belongs to the scheduler.
\<close>

definition clients :: "range_heap \<Rightarrow> addr set \<Rightarrow> addr set \<Rightarrow> addr list \<Rightarrow> bool" where
  "clients h own C rs \<longleftrightarrow> submittable h rs \<and> C \<union> set rs \<subseteq> dom (hp_objs h) - own \<and> C \<inter> set rs = {}"

lemma submittable_frame:
  "(\<And>r. r \<in> set rs \<Longrightarrow> hp_objs h' r = hp_objs h r) \<Longrightarrow> submittable h' rs = submittable h rs"
  by (simp add: submittable_def leaf_ok_def labelled_def)

context range_scheduler
begin

lemma enq_step:
  assumes "heap_ok h" "q_inv h q" "clients h (q_own h q) C (r # rs)"
  shows "\<exists>h1 q1. rsched_enqueue ops h q r = Some (h1, q1) \<and> heap_ok h1 \<and> q_inv h1 q1 \<and>
    q_pending h1 q1 = add_mset r (q_pending h q) \<and> clients h1 (q_own h1 q1) C rs \<and>
    (\<forall>a \<in> C. hp_objs h1 a = hp_objs h a) \<and> (\<forall>c. leaf_ok h c \<longrightarrow> hp_objs h1 c = hp_objs h c)"
proof -
  have sub: "submittable h (r # rs)" and C: "C \<union> set (r # rs) \<subseteq> dom (hp_objs h) - q_own h q" "C \<inter> set (r # rs) = {}"
    using assms(3) by (simp_all add: clients_def)
  obtain l where r: "leaf_ok h r" "labelled h l r" "r \<notin> q_own h q" "r \<notin> set rs"
    using sub C by (auto simp: submittable_def)
  from enqueue [OF assms(1,2) r(1-3)]
  obtain h1 q1 where 1: "rsched_enqueue ops h q r = Some (h1, q1)" "q_inv h1 q1"
    "q_pending h1 q1 = add_mset r (q_pending h q)" "taken_in h (q_own h q) r h1 (q_own h1 q1)"
    by blast
  have keep: "hp_objs h1 a = hp_objs h a \<and> a \<notin> q_own h1 q1 \<and> hp_objs h a \<noteq> None" if "a \<in> C \<union> set rs" for a
  proof -
    have a: "a \<in> dom (hp_objs h)" "a \<notin> q_own h q" "a \<noteq> r" using C r(4) that by auto
    show ?thesis using taken_inD [OF 1(4) a(1,2)] a by auto
  qed
  have "submittable h1 rs" using sub keep submittable_frame [of rs h1 h] by (simp add: submittable_def)
  then have "clients h1 (q_own h1 q1) C rs" using C keep by (auto simp: clients_def)
  moreover have "heap_ok h1" "\<forall>c. leaf_ok h c \<longrightarrow> hp_objs h1 c = hp_objs h c"
    using 1(4) by (simp_all add: taken_in_def)
  ultimately show ?thesis using 1(1-3) keep by blast
qed

lemma deq_step:
  assumes "heap_ok h" "q_inv h q" "clients h (q_own h q) C rs" "\<not> rsched_empty ops q"
  shows "\<exists>h1 q1 r. rsched_dequeue ops h q = Some (h1, q1, Some r) \<and> heap_ok h1 \<and> q_inv h1 q1 \<and>
    q_pending h q = mset (leaf_addrs h1 r) + q_pending h1 q1 \<and> homogeneous h1 r \<and>
    clients h1 (q_own h1 q1) (C \<union> range_own h1 r) rs \<and> range_own h1 r \<inter> C = {} \<and>
    (\<forall>a \<in> C. hp_objs h1 a = hp_objs h a) \<and> (\<forall>c. leaf_ok h c \<longrightarrow> hp_objs h1 c = hp_objs h c)"
proof -
  have sub: "submittable h rs" and C: "C \<union> set rs \<subseteq> dom (hp_objs h) - q_own h q" "C \<inter> set rs = {}"
    using assms(3) by (simp_all add: clients_def)
  from dequeue [OF assms(1,2,4)]
  obtain h1 q1 r l where 1: "rsched_dequeue ops h q = Some (h1, q1, Some r)" "q_inv h1 q1"
    "q_pending h q = mset (leaf_addrs h1 r) + q_pending h1 q1" "handed_out h (q_own h q) l r h1 (q_own h1 q1)"
    by blast
  have ho: "heap_ok h1" "homogeneous h1 r" "q_own h1 q1 \<inter> range_own h1 r = {}"
    "range_own h1 r \<inter> (dom (hp_objs h) - q_own h q) = {}" "\<forall>c. leaf_ok h c \<longrightarrow> hp_objs h1 c = hp_objs h c"
    "range_own h1 r \<subseteq> dom (hp_objs h1)"
    using 1(4) unfolding handed_out_def homogeneous_def by blast+
  have keep: "hp_objs h1 a = hp_objs h a \<and> a \<notin> q_own h1 q1 \<and> hp_objs h a \<noteq> None \<and> a \<notin> range_own h1 r"
    if "a \<in> C \<union> set rs" for a
  proof -
    have a: "a \<in> dom (hp_objs h)" "a \<notin> q_own h q" using C(1) that by auto
    show ?thesis using handed_outD [OF 1(4) a] a ho(4) by auto
  qed
  have "submittable h1 rs" using sub keep submittable_frame [of rs h1 h] by simp
  then have "clients h1 (q_own h1 q1) (C \<union> range_own h1 r) rs"
    using C(2) keep ho(3,6) by (auto simp: clients_def)
  then show ?thesis using 1(1-3) ho(1,2,5) keep by blast
qed

lemma sched_run_ok:
  assumes "heap_ok h" "q_inv h q" "clients h (q_own h q) C (enqueued xs)"
  shows "\<exists>h' q' out. sched_run ops xs h q = Some (h', q', out) \<and> heap_ok h' \<and> q_inv h' q' \<and>
    q_pending h q + mset (enqueued xs) = mset (concat (map (leaf_addrs h') out)) + q_pending h' q' \<and>
    (\<forall>r \<in> set out. homogeneous h' r) \<and> (\<forall>a \<in> C. hp_objs h' a = hp_objs h a) \<and>
    (\<forall>c. leaf_ok h c \<longrightarrow> hp_objs h' c = hp_objs h c)"
  using assms
proof (induction xs arbitrary: h q C)
  case Nil
  then show ?case by simp
next
  case (Cons x xs)
  have leaf: "leaf_ok h1 c" if "leaf_ok h c" "hp_objs h1 c = hp_objs h c" for h h1 c
    using that by (simp add: leaf_ok_def)
  show ?case
  proof (cases x)
    case (Enq r)
    then obtain h1 q1 where 1: "rsched_enqueue ops h q r = Some (h1, q1)" "heap_ok h1" "q_inv h1 q1"
      "q_pending h1 q1 = add_mset r (q_pending h q)" "clients h1 (q_own h1 q1) C (enqueued xs)"
      "\<forall>a \<in> C. hp_objs h1 a = hp_objs h a" "\<forall>c. leaf_ok h c \<longrightarrow> hp_objs h1 c = hp_objs h c"
      using enq_step [OF Cons.prems(1,2), of C r "enqueued xs"] Cons.prems(3) by auto
    from Cons.IH [OF 1(2,3,5)]
    obtain h' q' out where 2: "sched_run ops xs h1 q1 = Some (h', q', out)" "heap_ok h'" "q_inv h' q'"
      "q_pending h1 q1 + mset (enqueued xs) = mset (concat (map (leaf_addrs h') out)) + q_pending h' q'"
      "\<forall>r \<in> set out. homogeneous h' r" "\<forall>a \<in> C. hp_objs h' a = hp_objs h1 a"
      "\<forall>c. leaf_ok h1 c \<longrightarrow> hp_objs h' c = hp_objs h1 c"
      by blast
    have "\<forall>c. leaf_ok h c \<longrightarrow> hp_objs h' c = hp_objs h c" using 1(7) 2(7) leaf by metis
    moreover have "sched_run ops (x # xs) h q = Some (h', q', out)" using Enq 1(1) 2(1) by simp
    moreover have "q_pending h q + mset (enqueued (x # xs)) = mset (concat (map (leaf_addrs h') out)) + q_pending h' q'"
      using Enq 1(4) 2(4) by simp
    moreover have "\<forall>a \<in> C. hp_objs h' a = hp_objs h a" using 1(6) 2(6) by simp
    ultimately show ?thesis using 2(2,3,5) by blast
  next
    case Deq
    show ?thesis
    proof (cases "rsched_empty ops q")
      case True
      then show ?thesis
        using Cons.IH [OF Cons.prems(1,2)] Cons.prems(3) Deq dequeue_empty [OF True] by auto
    next
      case False
      obtain h1 q1 r where 1: "rsched_dequeue ops h q = Some (h1, q1, Some r)" "heap_ok h1" "q_inv h1 q1"
        "q_pending h q = mset (leaf_addrs h1 r) + q_pending h1 q1" "homogeneous h1 r"
        "clients h1 (q_own h1 q1) (C \<union> range_own h1 r) (enqueued xs)"
        "\<forall>a \<in> C. hp_objs h1 a = hp_objs h a" "\<forall>c. leaf_ok h c \<longrightarrow> hp_objs h1 c = hp_objs h c"
        using deq_step [OF Cons.prems(1,2) _ False, of C "enqueued xs"] Cons.prems(3) Deq by auto
      from Cons.IH [OF 1(2,3,6)]
      obtain h' q' out where 2: "sched_run ops xs h1 q1 = Some (h', q', out)" "heap_ok h'" "q_inv h' q'"
        "q_pending h1 q1 + mset (enqueued xs) = mset (concat (map (leaf_addrs h') out)) + q_pending h' q'"
        "\<forall>r \<in> set out. homogeneous h' r" "\<forall>a \<in> C \<union> range_own h1 r. hp_objs h' a = hp_objs h1 a"
        "\<forall>c. leaf_ok h1 c \<longrightarrow> hp_objs h' c = hp_objs h1 c"
        by blast
      have "\<forall>c. leaf_ok h c \<longrightarrow> hp_objs h' c = hp_objs h c" using 1(8) 2(7) leaf by metis
      moreover have "homogeneous h' r" "leaf_addrs h' r = leaf_addrs h1 r"
        using homogeneous_frame [of h1 r h'] 2(6) 1(5) by auto
      moreover have "sched_run ops (x # xs) h q = Some (h', q', r # out)" using Deq 1(1) 2(1) by simp
      moreover have "\<forall>a \<in> C. hp_objs h' a = hp_objs h a" using 1(7) 2(6) by simp
      moreover have "q_pending h q + mset (enqueued (x # xs)) =
          mset (concat (map (leaf_addrs h') (r # out))) + q_pending h' q'"
        using Deq 1(4) 2(4) \<open>leaf_addrs h' r = _\<close> by (simp add: add.assoc)
      ultimately show ?thesis using 2(2,3,5) by (metis set_ConsD)
    qed
  qed
qed

end

definition fifo_inv :: "range_heap \<Rightarrow> addr list \<Rightarrow> bool" where
  "fifo_inv h q \<longleftrightarrow> distinct q \<and> (\<forall>a \<in> set q. leaf_ok h a \<and> (\<exists>l. labelled h l a))"

interpretation fifo: range_scheduler fifo_ops fifo_inv "\<lambda>h q. set q" "\<lambda>h q. mset q"
proof
  fix h h' r l c and q :: "addr list"
  show "fifo_inv h q \<Longrightarrow> rsched_empty fifo_ops q \<longleftrightarrow> mset q = {#}"
    by (simp add: fifo_ops_def fifo_empty_def)
  show "fifo_inv h q \<Longrightarrow> set q \<subseteq> dom (hp_objs h)"
    using leaf_okD by (fastforce simp: fifo_inv_def)
  show "\<forall>a \<in> set q. hp_objs h' a = hp_objs h a \<Longrightarrow>
      set q = set q \<and> mset q = mset q \<and> fifo_inv h' q = fifo_inv h q"
    by (simp add: fifo_inv_def leaf_ok_def labelled_def)
  show "rsched_empty fifo_ops q \<Longrightarrow> rsched_dequeue fifo_ops h q = Some (h, q, None)"
    by (simp add: fifo_ops_def fifo_empty_def fifo_dequeue_def)
  assume hok: "heap_ok h" and inv: "fifo_inv h q"
  show "\<exists>h' q'. rsched_enqueue fifo_ops h q r = Some (h', q') \<and> fifo_inv h' q' \<and>
         mset q' = add_mset r (mset q) \<and> taken_in h (set q) r h' (set q')"
    if "leaf_ok h r" "labelled h l r" "r \<notin> set q"
    using that hok inv
    by (cases l) (auto simp: fifo_ops_def fifo_enqueue_def fifo_inv_def taken_in_def)
  assume ne: "\<not> rsched_empty fifo_ops q"
  then obtain r' q' where q: "q = r' # q'" by (cases q) (auto simp: fifo_ops_def fifo_empty_def)
  then obtain l' where r: "leaf_ok h r'" "labelled h l' r'" using inv by (auto simp: fifo_inv_def)
  then have "range_own h r' = {r'}" "leaf_addrs h r' = [r']" "range_ok h r'" "hp_objs h r' \<noteq> None"
    using leaf_ok_range_ok [OF r(1)] leaf_okD [OF r(1)] by (auto simp: range_own_def)
  then show "\<exists>h' q' r l. rsched_dequeue fifo_ops h q = Some (h', q', Some r) \<and> fifo_inv h' q' \<and>
         mset q = mset (leaf_addrs h' r) + mset q' \<and> handed_out h (set q) l r h' (set q')"
    using q hok inv r
    by (intro exI [of _ h] exI [of _ q'] exI [of _ r'] exI [of _ l'])
      (auto simp: fifo_ops_def fifo_dequeue_def fifo_inv_def handed_out_def)
qed (auto simp: fifo_inv_def)

subsection \<open>The merge scheduler implements the contract\<close>

definition hq_at :: "'s merge_sched \<Rightarrow> addr \<Rightarrow> 's HandleQueue" where
  "hq_at ms a = the (hp_objs (hqs ms) a)"

definition hq_lab :: "'s merge_sched \<Rightarrow> addr \<Rightarrow> RangeType \<times> addr" where
  "hq_lab ms a = (hq_type (hq_at ms a), hq_handle (hq_at ms a))"

definition hq_set :: "'s merge_sched \<Rightarrow> addr \<Rightarrow> 's" where
  "hq_set ms a = hq_brs (hq_at ms a)"

text \<open>
  The invariant: the deque holds exactly the live handle queues, the two maps index them by
  direction and handle, every queue has work and a quantum between 1 and the configured one, and
  the range sets own disjoint objects.
\<close>

definition merge_inv ::
  "'s BaseRangeSet \<Rightarrow> (RangeType \<times> addr \<Rightarrow> range_heap \<Rightarrow> 's \<Rightarrow> bool) \<Rightarrow> (range_heap \<Rightarrow> 's \<Rightarrow> addr set) \<Rightarrow>
   range_heap \<Rightarrow> 's merge_sched \<Rightarrow> bool" where
  "merge_inv ops rs_inv rs_own h ms \<longleftrightarrow>
     heap_ok (hqs ms) \<and> distinct (mq ms) \<and> dom (hp_objs (hqs ms)) = set (mq ms) \<and>
     fam_ok rs_inv rs_own h (set (mq ms)) (hq_lab ms) (hq_set ms) \<and>
     (\<forall>a \<in> set (mq ms). \<not> brs_empty ops (hq_set ms a) \<and>
        0 < hq_quantum (hq_at ms a) \<and> hq_quantum (hq_at ms a) \<le> default_quantum ms) \<and>
     (\<forall>t k a. hq_map ms t k = Some a \<longleftrightarrow> a \<in> set (mq ms) \<and> hq_lab ms a = (t, k)) \<and>
     0 < default_quantum ms"

definition merge_own :: "(range_heap \<Rightarrow> 's \<Rightarrow> addr set) \<Rightarrow> range_heap \<Rightarrow> 's merge_sched \<Rightarrow> addr set" where
  "merge_own rs_own h ms = fam_own rs_own h (set (mq ms)) (hq_set ms)"

definition merge_pending :: "(range_heap \<Rightarrow> 's \<Rightarrow> addr multiset) \<Rightarrow> range_heap \<Rightarrow> 's merge_sched \<Rightarrow> addr multiset" where
  "merge_pending rs_leaves h ms = fam_leaves rs_leaves h (set (mq ms)) (hq_set ms)"

lemma hq_map_update_simps [simp]:
  "hq_map (hq_map_update t g ms) t' = (if t' = t then g (hq_map ms t) else hq_map ms t')"
  "mq (hq_map_update t g ms) = mq ms" "hqs (hq_map_update t g ms) = hqs ms"
  "default_quantum (hq_map_update t g ms) = default_quantum ms"
  "bytes_queued (hq_map_update t g ms) = bytes_queued ms"
  by (cases t; cases t'; simp add: hq_map_def hq_map_update_def)+

lemma hq_map_upd [simp]:
  "hq_map (ms\<lparr>mq := q\<rparr>) = hq_map ms" "hq_map (ms\<lparr>hqs := hp\<rparr>) = hq_map ms"
  "hq_map (ms\<lparr>bytes_queued := n\<rparr>) = hq_map ms"
  by (simp_all add: hq_map_def fun_eq_iff)

text \<open>The statistics do not matter to the invariant.\<close>

lemma merge_bytes_queued [simp]:
  "merge_inv ops rs_inv rs_own h (ms\<lparr>bytes_queued := n\<rparr>) = merge_inv ops rs_inv rs_own h ms"
  "merge_own rs_own h (ms\<lparr>bytes_queued := n\<rparr>) = merge_own rs_own h ms"
  "merge_pending rs_leaves h (ms\<lparr>bytes_queued := n\<rparr>) = merge_pending rs_leaves h ms"
  by (simp_all add: merge_inv_def merge_own_def merge_pending_def hq_lab_def hq_set_def [abs_def] hq_at_def
      hq_lab_def [abs_def])

lemma merge_invD:
  assumes "merge_inv ops rs_inv rs_own h ms"
  shows "heap_ok (hqs ms)" "distinct (mq ms)" "dom (hp_objs (hqs ms)) = set (mq ms)"
    "fam_ok rs_inv rs_own h (set (mq ms)) (hq_lab ms) (hq_set ms)"
    "\<And>a. a \<in> set (mq ms) \<Longrightarrow> \<not> brs_empty ops (hq_set ms a)"
    "\<And>a. a \<in> set (mq ms) \<Longrightarrow> 0 < hq_quantum (hq_at ms a) \<and> hq_quantum (hq_at ms a) \<le> default_quantum ms"
    "\<And>t k a. hq_map ms t k = Some a \<longleftrightarrow> a \<in> set (mq ms) \<and> hq_lab ms a = (t, k)"
    "0 < default_quantum ms"
    "\<And>a. a \<in> set (mq ms) \<Longrightarrow> hp_objs (hqs ms) a = Some (hq_at ms a)"
proof -
  show "hp_objs (hqs ms) a = Some (hq_at ms a)" if "a \<in> set (mq ms)" for a
    using that assms by (cases "hp_objs (hqs ms) a") (auto simp: merge_inv_def hq_at_def)
qed (use assms in \<open>auto simp: merge_inv_def\<close>)

context base_range_set
begin

abbreviation "m_inv \<equiv> merge_inv ops rs_inv rs_own"

abbreviation "m_own \<equiv> merge_own rs_own"

abbreviation "m_pending \<equiv> merge_pending rs_leaves"

text \<open>Replacing one handle queue's set in place.\<close>

lemma hq_update_eqs:
  assumes "hqs ms' = (hqs ms)\<lparr>hp_objs := (hp_objs (hqs ms))(a \<mapsto> y)\<rparr>"
    "hq_type y = hq_type (hq_at ms a)" "hq_handle y = hq_handle (hq_at ms a)"
  shows "hq_lab ms' = hq_lab ms" "hq_set ms' = (hq_set ms)(a := hq_brs y)"
    "hq_at ms' = (hq_at ms)(a := y)"
  using assms by (auto simp: hq_lab_def hq_set_def hq_at_def fun_eq_iff)

lemma io_enqueue_old:
  assumes "heap_ok h" "m_inv h ms" "leaf_ok h r" "labelled h l r" "r \<notin> m_own h ms"
    "hq_map ms (fst l) (snd l) = Some a"
  shows "\<exists>h' ms'. io_enqueue ops h ms r = Some (h', ms') \<and> m_inv h' ms' \<and>
    m_pending h' ms' = add_mset r (m_pending h ms) \<and> taken_in h (m_own h ms) r h' (m_own h' ms')"
proof -
  note inv = merge_invD [OF assms(2)]
  have a: "a \<in> set (mq ms)" "hq_lab ms a = l" using inv(7) assms(6) by auto
  have "labelled h (hq_lab ms a) r" using a(2) assms(4) by simp
  from fam_add [OF assms(1) inv(4) a(1) assms(3) this] assms(5)
  obtain h' s' where f: "brs_add ops h (hq_set ms a) r = Some (h', s')"
    "ok h' (set (mq ms)) (hq_lab ms) ((hq_set ms)(a := s'))" "\<not> brs_empty ops s'"
    "requests h' (set (mq ms)) ((hq_set ms)(a := s')) = add_mset r (m_pending h ms)"
    "taken_in h (m_own h ms) r h' (owned h' (set (mq ms)) ((hq_set ms)(a := s')))"
    unfolding merge_own_def merge_pending_def by blast
  let ?y = "(hq_at ms a)\<lparr>hq_brs := s'\<rparr>"
  let ?ms = "ms\<lparr>hqs := (hqs ms)\<lparr>hp_objs := (hp_objs (hqs ms))(a \<mapsto> ?y)\<rparr>\<rparr>"
  have eqs: "hq_lab ?ms = hq_lab ms" "hq_set ?ms = (hq_set ms)(a := s')" "hq_at ?ms = (hq_at ms)(a := ?y)"
    using hq_update_eqs [of ?ms ms a ?y] by simp_all
  have "io_enqueue ops h ms r = Some (h', ?ms)"
    using f(1) assms(4,6) inv(9) [OF a(1)]
    by (auto simp: io_enqueue_def labelled_def heap_read_def heap_write_def hq_set_def split: option.splits)
  moreover have "m_inv h' ?ms"
    using inv f(2,3) a(1) unfolding merge_inv_def eqs by (auto simp: heap_ok_def)
  moreover have "m_pending h' ?ms = add_mset r (m_pending h ms)"
    using f(4) unfolding merge_pending_def eqs by simp
  moreover have "taken_in h (m_own h ms) r h' (m_own h' ?ms)"
    using f(5) unfolding merge_own_def [of _ h'] eqs by simp
  ultimately show ?thesis by blast
qed

lemma io_enqueue_new:
  assumes "heap_ok h" "m_inv h ms" "leaf_ok h r" "labelled h l r" "r \<notin> m_own h ms"
    "hq_map ms (fst l) (snd l) = None"
  shows "\<exists>h' ms'. io_enqueue ops h ms r = Some (h', ms') \<and> m_inv h' ms' \<and>
    m_pending h' ms' = add_mset r (m_pending h ms) \<and> taken_in h (m_own h ms) r h' (m_own h' ms')"
proof -
  note inv = merge_invD [OF assms(2)]
  obtain t k where l: "l = (t, k)" by (cases l)
  let ?a = "hp_alloc (hqs ms) (hp_clock (hqs ms)) (hp_objs (hqs ms))"
  have a: "?a \<notin> set (mq ms)" using inv(1) by (simp add: heap_ok_def domIff flip: inv(3))
  note new = fam_new(1) [OF inv(4) a, of l] fam_new(2,3) [OF inv(4) a]
  have "labelled h (((hq_lab ms)(?a := l)) ?a) r" "r \<notin> owned h (insert ?a (set (mq ms))) ((hq_set ms)(?a := brs_new ops))"
    using assms(4,5) new(2) by (simp_all add: merge_own_def)
  from fam_add [OF assms(1) new(1) insertI1 assms(3) this]
  obtain h' s' where f: "brs_add ops h (brs_new ops) r = Some (h', s')"
    "ok h' (insert ?a (set (mq ms))) ((hq_lab ms)(?a := l)) ((hq_set ms)(?a := s'))" "\<not> brs_empty ops s'"
    "requests h' (insert ?a (set (mq ms))) ((hq_set ms)(?a := s')) = add_mset r (m_pending h ms)"
    "taken_in h (m_own h ms) r h' (owned h' (insert ?a (set (mq ms))) ((hq_set ms)(?a := s')))"
    unfolding merge_own_def merge_pending_def new(2,3) by (simp only: fun_upd_same fun_upd_upd) blast
  let ?y = "\<lparr>hq_type = t, hq_handle = k, hq_brs = s', hq_quantum = default_quantum ms\<rparr>"
  have other: "hq_lab ms b \<noteq> l" if "b \<in> set (mq ms)" for b
    using inv(7) [of t k b] that assms(6) l by auto
  obtain hp where hp: "heap_new ?y (hqs ms) = (?a, hp)" by (simp add: heap_new_def Let_def)
  note fresh = heap_new_fresh [OF inv(1) hp]
  let ?ms = "hq_map_update t (\<lambda>m. m(k \<mapsto> ?a)) (ms\<lparr>mq := mq ms @ [?a], hqs := hp\<rparr>)"
  have eqs: "hq_lab ?ms = (hq_lab ms)(?a := l)" "hq_set ?ms = (hq_set ms)(?a := s')"
    "hq_at ?ms = (hq_at ms)(?a := ?y)" "set (mq ?ms) = insert ?a (set (mq ms))"
    using fresh(3) l by (auto simp: hq_lab_def hq_set_def hq_at_def fun_eq_iff)
  have "io_enqueue ops h ms r = Some (h', ?ms)"
    using f(1) assms(4,6) hp unfolding l
    by (auto simp: io_enqueue_def labelled_def heap_read_def split: option.splits)
  moreover have "m_inv h' ?ms"
    unfolding merge_inv_def eqs using inv fresh f(2,3) a assms(6) l other by auto
  moreover have "m_pending h' ?ms = add_mset r (m_pending h ms)"
    using f(4) unfolding merge_pending_def eqs by simp
  moreover have "taken_in h (m_own h ms) r h' (m_own h' ?ms)"
    using f(5) unfolding merge_own_def [of _ h'] eqs by simp
  ultimately show ?thesis by blast
qed

text \<open>A queue that stays, at the front or at the back of the deque.\<close>

lemma merge_inv_keep:
  assumes "m_inv h ms" "a \<in> set (mq ms)" "ok h' (set (mq ms)) (hq_lab ms) ((hq_set ms)(a := s'))"
    "\<not> brs_empty ops s'" "0 < n" "n \<le> default_quantum ms" "mset q = mset (mq ms)"
  defines "ms' \<equiv> ms\<lparr>mq := q, hqs := (hqs ms)\<lparr>hp_objs := (hp_objs (hqs ms))(a \<mapsto>
    (hq_at ms a)\<lparr>hq_brs := s', hq_quantum := n\<rparr>)\<rparr>\<rparr>"
  shows "m_inv h' ms'" "m_own h' ms' = owned h' (set (mq ms)) ((hq_set ms)(a := s'))"
    "m_pending h' ms' = requests h' (set (mq ms)) ((hq_set ms)(a := s'))"
proof -
  note inv = merge_invD [OF assms(1)]
  have q: "set q = set (mq ms)" "distinct q"
    using assms(7) inv(2) mset_eq_setD [of q "mq ms"] mset_eq_imp_distinct_iff [of q "mq ms"] by auto
  have eqs: "hq_lab ms' = hq_lab ms" "hq_set ms' = (hq_set ms)(a := s')"
    "hq_at ms' = (hq_at ms)(a := (hq_at ms a)\<lparr>hq_brs := s', hq_quantum := n\<rparr>)"
    using hq_update_eqs [of ms' ms a "(hq_at ms a)\<lparr>hq_brs := s', hq_quantum := n\<rparr>"]
    by (simp_all add: ms'_def)
  show "m_inv h' ms'"
    using inv assms(2-6) q unfolding merge_inv_def eqs by (auto simp: ms'_def heap_ok_def)
  show "m_own h' ms' = owned h' (set (mq ms)) ((hq_set ms)(a := s'))"
    "m_pending h' ms' = requests h' (set (mq ms)) ((hq_set ms)(a := s'))"
    unfolding merge_own_def merge_pending_def eqs by (simp_all add: ms'_def q)
qed

text \<open>A queue that is exhausted is deleted.\<close>

lemma merge_inv_drop:
  assumes "m_inv h ms" "mq ms = a # q" "ok h' (set (mq ms)) (hq_lab ms) ((hq_set ms)(a := s'))"
    "brs_empty ops s'"
  defines "ms' \<equiv> hq_map_update (hq_type (hq_at ms a)) (\<lambda>m. m(hq_handle (hq_at ms a) := None))
    (ms\<lparr>mq := q, hqs := (hqs ms)\<lparr>hp_objs := (hp_objs (hqs ms))(a := None)\<rparr>\<rparr>)"
  shows "m_inv h' ms'" "m_own h' ms' = owned h' (set (mq ms)) ((hq_set ms)(a := s'))"
    "m_pending h' ms' = requests h' (set (mq ms)) ((hq_set ms)(a := s'))"
proof -
  note inv = merge_invD [OF assms(1)]
  have q: "a \<notin> set q" "set (mq ms) - {a} = set q" "set (mq ms) = insert a (set q)" "distinct q"
    using assms(2) inv(2) by auto
  have a: "a \<in> set (mq ms)" by (simp add: q)
  note drop = fam_drop [OF assms(3) a, simplified, OF assms(4)]
  have at: "hq_at ms' b = hq_at ms b" "hq_lab ms' b = hq_lab ms b" "hq_set ms' b = ((hq_set ms)(a := s')) b"
    if "b \<in> set q" for b
    using that q(1) by (auto simp: ms'_def hq_lab_def hq_set_def hq_at_def)
  have own: "fam_own rs_own h' (set q) (hq_set ms') = owned h' (set q) ((hq_set ms)(a := s'))"
    and req: "fam_leaves rs_leaves h' (set q) (hq_set ms') = requests h' (set q) ((hq_set ms)(a := s'))"
    using at by (simp_all add: fam_own_def fam_leaves_def)
  show "m_own h' ms' = owned h' (set (mq ms)) ((hq_set ms)(a := s'))"
    "m_pending h' ms' = requests h' (set (mq ms)) ((hq_set ms)(a := s'))"
    using own req drop(2,3) by (simp_all add: merge_own_def merge_pending_def ms'_def q)
  have "ok h' (set q) (hq_lab ms') (hq_set ms')"
    using drop(1) at unfolding q(2) fam_ok_def by simp
  moreover have "hq_map ms' t k = Some b \<longleftrightarrow> b \<in> set q \<and> hq_lab ms' b = (t, k)" for t k b
  proof -
    have la: "hq_lab ms a = (hq_type (hq_at ms a), hq_handle (hq_at ms a))" by (simp add: hq_lab_def)
    have "hq_map ms (hq_type (hq_at ms a)) (hq_handle (hq_at ms a)) = Some a"
      using inv(7) a la by simp
    then have "b \<in> set q \<Longrightarrow> hq_lab ms b \<noteq> hq_lab ms a" using inv(7) [of _ _ b] la q by (metis insertI2 option.inject)
    then show ?thesis
      using inv(7) [of t k b] la at q by (auto simp: ms'_def)
  qed
  moreover have "dom (hp_objs (hqs ms')) = set q" using inv(3) q by (auto simp: ms'_def)
  ultimately show "m_inv h' ms'"
    using inv(1,5,6,8) at q unfolding merge_inv_def by (auto simp: ms'_def heap_ok_def)
qed

lemma io_dequeue_Some:
  assumes "heap_ok h" "m_inv h ms" "\<not> merge_empty ms"
  shows "\<exists>h' ms' r. io_dequeue ops h ms = Some (h', ms', Some r) \<and> m_inv h' ms' \<and>
    m_pending h ms = mset (leaf_addrs h' r) + m_pending h' ms' \<and>
    handed_out h (m_own h ms) (hq_lab ms (hd (mq ms))) r h' (m_own h' ms')"
proof -
  note inv = merge_invD [OF assms(2)]
  obtain a q where q: "mq ms = a # q" using assms(3) by (cases "mq ms") (auto simp: merge_empty_def)
  have a: "a \<in> set (mq ms)" using q by simp
  let ?y = "hq_at ms a"
  obtain h' s' r where f: "brs_get ops h (hq_set ms a) = Some (h', s', r)"
    "ok h' (set (mq ms)) (hq_lab ms) ((hq_set ms)(a := s'))"
    "m_pending h ms = mset (leaf_addrs h' r) + requests h' (set (mq ms)) ((hq_set ms)(a := s'))"
    "handed_out h (m_own h ms) (hq_lab ms a) r h' (owned h' (set (mq ms)) ((hq_set ms)(a := s')))"
    using fam_get [OF assms(1) inv(4) a inv(5) [OF a]] unfolding merge_own_def merge_pending_def by blast
  have y: "hp_objs (hqs ms) a = Some ?y" "hq_map ms (hq_type ?y) (hq_handle ?y) \<noteq> None"
    "brs_get ops h (hq_brs ?y) = Some (h', s', r)" "\<not> brs_empty ops (hq_brs ?y)" "0 < hq_quantum ?y"
    "hq_quantum ?y \<le> default_quantum ms"
    using inv(9) [OF a] inv(7) [of "hq_type ?y" "hq_handle ?y" a] a f(1) inv(5,6) [OF a]
    by (auto simp: hq_lab_def hq_set_def)
  note run = io_dequeue_def q heap_read_def heap_write_def heap_delete_def Let_def
  show ?thesis
  proof (cases "brs_empty ops s'")
    case True
    have del: "brs_delete ops h' s' = Some h'"
      using delete_empty [OF _ True, of "hq_lab ms a" h'] f(2) a by (auto simp: fam_ok_def)
    show ?thesis
      using merge_inv_drop [OF assms(2) q f(2) True] True y f(3,4) del by (simp add: run)
  next
    case False
    show ?thesis
    proof (cases "hq_quantum ?y = 1")
      case True
      show ?thesis
        using merge_inv_keep [OF assms(2) a f(2) False inv(8) order_refl, of "q @ [a]"] True False y f(3,4) q
        by (simp add: run)
    next
      case qu: False
      have same: "ms\<lparr>mq := mq ms, hqs := hp\<rparr> = ms\<lparr>hqs := hp\<rparr>" for hp by simp
      from qu show ?thesis
        using merge_inv_keep [OF assms(2) a f(2) False, of "hq_quantum ?y - 1" "mq ms", unfolded same] False y f(3,4)
        by (simp add: run)
    qed
  qed
qed

lemma merge_scheduler: "range_scheduler (merge_ops ops) m_inv m_own m_pending"
proof
  fix h h' r l c and ms :: "'s merge_sched"
  show "\<forall>a \<in> m_own h ms. hp_objs h' a = hp_objs h a \<Longrightarrow>
       m_own h' ms = m_own h ms \<and> m_pending h' ms = m_pending h ms \<and> m_inv h' ms = m_inv h ms"
    using fam_frame [of h "set (mq ms)" "hq_set ms" h']
    by (simp add: merge_own_def merge_pending_def merge_inv_def)
  show "rsched_empty (merge_ops ops) ms \<Longrightarrow> rsched_dequeue (merge_ops ops) h ms = Some (h, ms, None)"
    by (simp add: merge_ops_def merge_empty_def merge_dequeue_def deadline_dequeue_def io_dequeue_def)
  assume inv: "m_inv h ms"
  note fam = merge_invD(4) [OF inv]
  show "rsched_empty (merge_ops ops) ms \<longleftrightarrow> m_pending h ms = {#}"
    using merge_invD(5) [OF inv] fam_members(4) [OF fam]
    by (cases "mq ms") (auto simp: merge_ops_def merge_empty_def merge_pending_def)
  show "m_own h ms \<subseteq> dom (hp_objs h)"
    using fam_members(1) [OF fam] by (simp add: merge_own_def)
  show "leaf_ok h c \<Longrightarrow> c \<in> m_own h ms \<longleftrightarrow> c \<in># m_pending h ms"
    using fam_members(2) [OF fam] by (simp add: merge_own_def merge_pending_def)
  show "c \<in># m_pending h ms \<Longrightarrow> leaf_ok h c \<and> (\<exists>l. labelled h l c)"
    using fam_members(3) [OF fam] unfolding merge_pending_def by blast
  assume hok: "heap_ok h"
  { assume r: "leaf_ok h r" "labelled h l r" "r \<notin> m_own h ms"
    obtain h' ms' where 1: "io_enqueue ops h ms r = Some (h', ms')" "m_inv h' ms'"
      "m_pending h' ms' = add_mset r (m_pending h ms)" "taken_in h (m_own h ms) r h' (m_own h' ms')"
      using io_enqueue_old [OF hok inv r] io_enqueue_new [OF hok inv r]
      by (cases "hq_map ms (fst l) (snd l)") blast+
    have "hp_objs h' r = hp_objs h r" using 1(4) r(1) by (simp add: taken_in_def)
    then have "hp_objs h' r \<noteq> None" using leaf_okD [OF r(1)] by simp
    then show "\<exists>h' q'. rsched_enqueue (merge_ops ops) h ms r = Some (h', q') \<and> m_inv h' q' \<and>
         m_pending h' q' = add_mset r (m_pending h ms) \<and> taken_in h (m_own h ms) r h' (m_own h' q')"
      using 1 by (auto simp: merge_ops_def merge_enqueue_def deadline_enqueue_def heap_read_def) }
  assume "\<not> rsched_empty (merge_ops ops) ms"
  then obtain h' ms' r where 1: "io_dequeue ops h ms = Some (h', ms', Some r)" "m_inv h' ms'"
    "m_pending h ms = mset (leaf_addrs h' r) + m_pending h' ms'"
    "handed_out h (m_own h ms) (hq_lab ms (hd (mq ms))) r h' (m_own h' ms')"
    using io_dequeue_Some [OF hok inv] by (auto simp: merge_ops_def)
  then obtain x where "hp_objs h' r = Some x" using range_okD(1) by (fastforce simp: handed_out_def)
  then have "rsched_dequeue (merge_ops ops) h ms =
      Some (h', ms'\<lparr>bytes_queued := bytes_queued ms' - (en_of x - st_of x)\<rparr>, Some r)"
    using 1(1) by (simp add: merge_ops_def merge_dequeue_def deadline_dequeue_def heap_read_def)
  with 1(2-4) show "\<exists>h' q' r l. rsched_dequeue (merge_ops ops) h ms = Some (h', q', Some r) \<and> m_inv h' q' \<and>
         m_pending h ms = mset (leaf_addrs h' r) + m_pending h' q' \<and>
         handed_out h (m_own h ms) l r h' (m_own h' q')"
    by (metis merge_bytes_queued)
qed

end

sublocale base_range_set \<subseteq> merge: range_scheduler "merge_ops ops" "merge_inv ops rs_inv rs_own"
  "merge_own rs_own" "merge_pending rs_leaves"
  by (rule merge_scheduler)

subsection \<open>Bounded waiting\<close>

text \<open>How many more ranges can be handed out before handle queue \<open>a\<close> gets its turn.\<close>

definition waiting :: "'s merge_sched \<Rightarrow> addr \<Rightarrow> nat" where
  "waiting ms a = sum_list (map (\<lambda>b. nat (hq_quantum (hq_at ms b))) (takeWhile (\<lambda>b. b \<noteq> a) (mq ms)))"

context base_range_set
begin

lemma io_dequeue_waiting:
  assumes "m_inv h ms" "io_dequeue ops h ms = Some (h1, ms1, r)" "a \<in> set (mq ms)" "hd (mq ms) \<noteq> a"
  shows "a \<in> set (mq ms1) \<and> hq_lab ms1 a = hq_lab ms a \<and> waiting ms1 a < waiting ms a"
proof -
  note inv = merge_invD [OF assms(1)]
  obtain b q where q: "mq ms = b # q" "b \<noteq> a" "a \<in> set q" "b \<notin> set q"
    using assms(3,4) inv(2) by (cases "mq ms") auto
  have b: "hp_objs (hqs ms) b = Some (hq_at ms b)" "0 < hq_quantum (hq_at ms b)"
    using inv(6,9) [of b] q(1) by auto
  let ?w = "sum_list (map (\<lambda>b. nat (hq_quantum (hq_at ms b))) (takeWhile (\<lambda>b. b \<noteq> a) q))"
  have w: "waiting ms a = nat (hq_quantum (hq_at ms b)) + ?w" using q by (simp add: waiting_def)
  have *: "a \<in> set (mq ms1) \<and> hq_lab ms1 a = hq_lab ms a \<and> waiting ms1 a = n + ?w"
    if at: "\<And>c. c \<noteq> b \<Longrightarrow> hq_at ms1 c = hq_at ms c"
      and n: "mq ms1 = b # q \<and> n = nat (hq_quantum (hq_at ms1 b)) \<or> (mq ms1 = q @ [b] \<or> mq ms1 = q) \<and> n = 0" for n
  proof -
    have "sum_list (map (\<lambda>b. nat (hq_quantum (hq_at ms1 b))) (takeWhile (\<lambda>b. b \<noteq> a) q)) = ?w"
      using at q(4) by (intro arg_cong [where f = sum_list] map_cong refl) (metis set_takeWhileD)
    then show ?thesis using at n q by (auto simp: waiting_def hq_lab_def)
  qed
  obtain v where v: "hqs ms1 = (hqs ms)\<lparr>hp_objs := (hp_objs (hqs ms))(b := v)\<rparr>"
    "mq ms1 = b # q \<and> hq_quantum (the v) = hq_quantum (hq_at ms b) - 1 \<or> mq ms1 = q @ [b] \<or> mq ms1 = q"
    using assms(2) b(1) q(1)
    by (auto simp: io_dequeue_def heap_read_def heap_write_def heap_delete_def Let_def
        split: Option.bind_splits if_splits)
  have "hq_at ms1 c = hq_at ms c" if "c \<noteq> b" for c using v(1) that by (simp add: hq_at_def)
  moreover have "hq_at ms1 b = the v" using v(1) by (simp add: hq_at_def)
  ultimately show ?thesis
    using v(2) b(2) w * [of 0] * [of "nat (hq_quantum (hq_at ms b) - 1)"] by auto
qed

lemma io_enqueue_waiting:
  assumes "m_inv h ms" "io_enqueue ops h ms r = Some (h1, ms1)" "a \<in> set (mq ms)"
  shows "a \<in> set (mq ms1) \<and> hq_lab ms1 a = hq_lab ms a \<and> waiting ms1 a = waiting ms a"
proof -
  note inv = merge_invD [OF assms(1)]
  have new: "hp_alloc (hqs ms) (hp_clock (hqs ms)) (hp_objs (hqs ms)) \<notin> set (mq ms)"
    using inv(1) by (simp add: heap_ok_def domIff flip: inv(3))
  have *: "?thesis" if at: "\<And>c. c \<in> set (mq ms) \<Longrightarrow> hq_quantum (hq_at ms1 c) = hq_quantum (hq_at ms c) \<and> hq_lab ms1 c = hq_lab ms c"
    and mq: "\<exists>q. mq ms1 = mq ms @ q"
  proof -
    obtain q where q: "mq ms1 = mq ms @ q" using mq by blast
    have "sum_list (map (\<lambda>b. nat (hq_quantum (hq_at ms1 b))) (takeWhile (\<lambda>b. b \<noteq> a) (mq ms))) =
        sum_list (map (\<lambda>b. nat (hq_quantum (hq_at ms b))) (takeWhile (\<lambda>b. b \<noteq> a) (mq ms)))"
      using at by (intro arg_cong [where f = sum_list] map_cong refl) (metis set_takeWhileD)
    then show ?thesis using at [OF assms(3)] assms(3) q by (simp add: waiting_def)
  qed
  show ?thesis
    using assms(2) new
    by (intro *)
      (auto simp: io_enqueue_def heap_read_def heap_write_def heap_new_def hq_at_def hq_lab_def Let_def
        split: Option.bind_splits option.splits if_splits)
qed

lemma merge_serves:
  assumes "heap_ok h" "m_inv h ms" "clients h (m_own h ms) {} (enqueued xs)" "a \<in> set (mq ms)"
    "waiting ms a < length (filter (\<lambda>x. x = Deq) xs)"
  shows "\<exists>h' ms' out r. sched_run (merge_ops ops) xs h ms = Some (h', ms', out) \<and> r \<in> set out \<and>
    labelled h' (hq_lab ms a) r"
  using assms
proof (induction xs arbitrary: h ms)
  case (Cons x xs)
  show ?case
  proof (cases x)
    case (Enq r)
    then obtain h1 ms1 where 1: "rsched_enqueue (merge_ops ops) h ms r = Some (h1, ms1)" "heap_ok h1"
      "m_inv h1 ms1" "clients h1 (m_own h1 ms1) {} (enqueued xs)"
      using merge.enq_step [OF Cons.prems(1,2), of "{}" r "enqueued xs"] Cons.prems(3) by auto
    then obtain ms0 n where "io_enqueue ops h ms r = Some (h1, ms0)" "ms1 = ms0\<lparr>bytes_queued := n\<rparr>"
      by (auto simp: merge_ops_def merge_enqueue_def deadline_enqueue_def split: Option.bind_splits)
    then have "a \<in> set (mq ms1)" "hq_lab ms1 a = hq_lab ms a" "waiting ms1 a = waiting ms a"
      using io_enqueue_waiting [OF Cons.prems(2) _ Cons.prems(4)]
      by (auto simp: waiting_def hq_lab_def hq_at_def)
    then show ?thesis
      using Cons.IH [OF 1(2-4)] Cons.prems(5) Enq 1(1) by auto
  next
    case Deq
    have ne: "\<not> rsched_empty (merge_ops ops) ms"
      using Cons.prems(4) by (auto simp: merge_ops_def merge_empty_def)
    then obtain h1 ms1 r where 1: "rsched_dequeue (merge_ops ops) h ms = Some (h1, ms1, Some r)" "heap_ok h1"
      "m_inv h1 ms1" "clients h1 (m_own h1 ms1) (range_own h1 r) (enqueued xs)"
      using merge.deq_step [OF Cons.prems(1,2) _ ne, of "{}" "enqueued xs"] Cons.prems(3) Deq by auto
    then obtain ms0 n where ms0: "io_dequeue ops h ms = Some (h1, ms0, Some r)" "ms1 = ms0\<lparr>bytes_queued := n\<rparr>"
      by (auto simp: merge_ops_def merge_dequeue_def deadline_dequeue_def split: Option.bind_splits option.splits)
    show ?thesis
    proof (cases "hd (mq ms) = a")
      case True
      have "labelled h1 (hq_lab ms a) r"
        using io_dequeue_Some [OF Cons.prems(1,2)] ne ms0(1) True
        by (auto simp: merge_ops_def handed_out_def range_own_def)
      moreover obtain h' ms' out where "sched_run (merge_ops ops) xs h1 ms1 = Some (h', ms', out)"
        "hp_objs h' r = hp_objs h1 r"
        using merge.sched_run_ok [OF 1(2-4)] by (auto simp: range_own_def)
      ultimately show ?thesis using Deq 1(1) by (auto simp: labelled_def)
    next
      case False
      have w: "a \<in> set (mq ms1)" "hq_lab ms1 a = hq_lab ms a" "waiting ms1 a < waiting ms a"
        using io_dequeue_waiting [OF Cons.prems(2) ms0(1) Cons.prems(4) False] ms0(2)
        by (auto simp: waiting_def hq_lab_def hq_at_def)
      moreover have "clients h1 (m_own h1 ms1) {} (enqueued xs)" using 1(4) by (auto simp: clients_def)
      ultimately show ?thesis
        using Cons.IH [OF 1(2,3)] Cons.prems(5) Deq 1(1) by fastforce
    qed
  qed
qed simp

lemma waiting_bound:
  assumes "m_inv h ms" "a \<in> set (mq ms)"
  shows "waiting ms a \<le> (length (mq ms) - 1) * nat (default_quantum ms)"
proof -
  let ?p = "takeWhile (\<lambda>b. b \<noteq> a) (mq ms)"
  have "nat (hq_quantum (hq_at ms b)) \<le> nat (default_quantum ms)" if "b \<in> set ?p" for b
    using merge_invD(6) [OF assms(1), of b] set_takeWhileD [OF that] by auto
  then have "waiting ms a \<le> length ?p * nat (default_quantum ms)"
    unfolding waiting_def by (rule sum_list_le)
  moreover obtain ys zs where "mq ms = ys @ a # zs" "a \<notin> set ys"
    using split_list_first [OF assms(2)] by blast
  then have "length ?p \<le> length (mq ms) - 1" by (simp add: takeWhile_append)
  ultimately show ?thesis by (meson le_trans mult_le_mono1)
qed

end

subsection \<open>Properties\<close>

lemma merge_new_inv:
  assumes "heap_ok hp" "hp_objs hp = Map.empty" "\<forall>n. defquantum = Some n \<longrightarrow> 0 < n"
  shows "merge_inv ops rs_inv rs_own h (MergeRangeScheduler defquantum hp)"
    "merge_own rs_own h (MergeRangeScheduler defquantum hp) = {}"
    "merge_pending rs_leaves h (MergeRangeScheduler defquantum hp) = {#}"
  using assms by (auto simp: MergeRangeScheduler_def merge_inv_def merge_own_def merge_pending_def fam_ok_def
      fam_own_def fam_leaves_def hq_map_def split: option.splits)

lemma clients_init: "submittable h rs \<Longrightarrow> clients h {} {} rs"
  using leaf_okD by (fastforce simp: clients_def submittable_def)

text \<open>
  (C5) The merge scheduler over hierarchical range sets, for every interleaving of enqueue and
  dequeue calls: no call fails, the requests put in are exactly those below the ranges handed out
  plus those still queued, no request object is changed, every range handed out covers requests
  of one direction and one handle, and the scheduler is empty only when nothing is left.
\<close>

theorem merge_sched_conserves:
  assumes "heap_ok h" "heap_ok hp" "hp_objs hp = Map.empty" "\<forall>n. defquantum = Some n \<longrightarrow> 0 < n"
    "submittable h (enqueued xs)"
  shows "\<exists>h' ms' out. sched_run (merge_ops hrs_ops) xs h (MergeRangeScheduler defquantum hp) = Some (h', ms', out) \<and>
    mset (enqueued xs) = mset (concat (map (leaf_addrs h') out)) +
      merge_pending (\<lambda>h rs. mset (hrs_leaves h rs)) h' ms' \<and>
    (\<forall>r \<in> set out. homogeneous h' r) \<and> (\<forall>c \<in> set (enqueued xs). hp_objs h' c = hp_objs h c) \<and>
    (merge_empty ms' \<longleftrightarrow> mset (enqueued xs) = mset (concat (map (leaf_addrs h') out)))"
proof -
  let ?ms = "MergeRangeScheduler defquantum hp :: hrs merge_sched"
  note new = merge_new_inv [OF assms(2-4)]
  have "clients h (merge_own hrs_own h ?ms) {} (enqueued xs)"
    using clients_init [OF assms(5)] new(2) by simp
  from hier.merge.sched_run_ok [OF assms(1) new(1) this]
  obtain h' ms' out where 1: "sched_run (merge_ops hrs_ops) xs h ?ms = Some (h', ms', out)"
    "merge_inv hrs_ops hrs_labelled hrs_own h' ms'"
    "mset (enqueued xs) = mset (concat (map (leaf_addrs h') out)) +
      merge_pending (\<lambda>h rs. mset (hrs_leaves h rs)) h' ms'"
    "\<forall>r \<in> set out. homogeneous h' r" "\<forall>c. leaf_ok h c \<longrightarrow> hp_objs h' c = hp_objs h c"
    unfolding new(3) by auto
  have "merge_empty ms' \<longleftrightarrow> merge_pending (\<lambda>h rs. mset (hrs_leaves h rs)) h' ms' = {#}"
    using hier.merge.empty_iff [OF 1(2)] by (simp add: merge_ops_def)
  then show ?thesis using 1 assms(5) by (auto simp: submittable_def)
qed

text \<open>
  A store for closed examples: three reads, two of them adjacent, and an overlapping write on
  file 100, and a read of file 200.
\<close>

definition request :: "RangeType \<Rightarrow> addr \<Rightarrow> u64 \<Rightarrow> u64 \<Rightarrow> range_obj" where
  "request t k st en = ChildRange ((init_fields st en)\<lparr>rtype := Some t, rhandle := Some k\<rparr>)"

definition sched_heap :: range_heap where
  "sched_heap =
     (let h1 = snd (heap_new (request RANGE_READ 100 0 10) empty_heap);
          h2 = snd (heap_new (request RANGE_WRITE 100 5 15) h1);
          h3 = snd (heap_new (request RANGE_READ 200 0 5) h2);
          h4 = snd (heap_new (request RANGE_READ 100 10 20) h3)
      in snd (heap_new (request RANGE_READ 100 30 40) h4))"

lemma sched_heap_ok: "heap_ok sched_heap"
  unfolding sched_heap_def Let_def
  by (intro heap_new_fresh(4) [OF _ prod.collapse [symmetric]] heap_ok_empty)

lemma sched_heap_objs:
  "hp_objs sched_heap = [1 \<mapsto> request RANGE_READ 100 0 10, 2 \<mapsto> request RANGE_WRITE 100 5 15,
     3 \<mapsto> request RANGE_READ 200 0 5, 4 \<mapsto> request RANGE_READ 100 10 20,
     5 \<mapsto> request RANGE_READ 100 30 40]"
  by (simp add: sched_heap_def heap_new_def empty_heap_def Let_def numeral_2_eq_2 numeral_3_eq_3 numeral_eq_Suc)

lemma sched_heap_submittable: "submittable sched_heap [1, 2, 3, 4]"
  by (simp add: submittable_def leaf_ok_def labelled_def sched_heap_objs request_def init_fields_def)

theorem merge_sched_conserves_witness:
  "(\<exists>h' ms' out. sched_run (merge_ops hrs_ops) [Enq 1, Enq 2, Enq 3, Deq, Enq 4, Deq, Deq] sched_heap
      (MergeRangeScheduler None empty_heap) = Some (h', ms', out) \<and>
    mset (enqueued [Enq 1, Enq 2, Enq 3, Deq, Enq 4, Deq, Deq]) = mset (concat (map (leaf_addrs h') out)) +
      merge_pending (\<lambda>h rs. mset (hrs_leaves h rs)) h' ms' \<and>
    (\<forall>r \<in> set out. homogeneous h' r) \<and>
    (\<forall>c \<in> set (enqueued [Enq 1, Enq 2, Enq 3, Deq, Enq 4, Deq, Deq]). hp_objs h' c = hp_objs sched_heap c) \<and>
    (merge_empty ms' \<longleftrightarrow> mset (enqueued [Enq 1, Enq 2, Enq 3, Deq, Enq 4, Deq, Deq]) =
       mset (concat (map (leaf_addrs h') out)))) \<and>
   map_option (\<lambda>(h, ms, out). (map (leaf_addrs h) out, mq ms))
     (sched_run (merge_ops hrs_ops) [Enq 1, Enq 2, Enq 3, Enq 4, Deq, Deq] sched_heap (MergeRangeScheduler None empty_heap)) =
   Some ([[4, 1], [2]], [3])"
  (is "?conserves \<and> ?run")
proof
  show ?conserves
    by (rule merge_sched_conserves)
      (simp_all add: sched_heap_ok heap_ok_empty sched_heap_submittable [simplified])
  show ?run by code_simp
qed

text \<open>
  The FIFO scheduler hands out the requests in the order in which they were put in, each
  once, whatever the interleaving of calls.
\<close>

lemma fifo_sched_order:
  "\<exists>q' out. sched_run fifo_ops xs h q = Some (h, q', out) \<and> q @ enqueued xs = out @ q'"
proof (induction xs arbitrary: q)
  case (Cons x xs)
  show ?case
  proof (cases x)
    case (Enq r)
    then show ?thesis using Cons.IH [of "q @ [r]"] by (auto simp: fifo_ops_def fifo_enqueue_def)
  next
    case Deq
    then show ?thesis
      using Cons.IH [of "tl q"] by (cases q) (auto simp: fifo_ops_def fifo_dequeue_def)
  qed
qed simp

text \<open>
  (C6) No file waits for ever: when more than \<open>(n - 1) * quantum\<close> ranges are taken out of a
  merge scheduler with \<open>n\<close> handle queues, whatever is enqueued in between, at least one of them
  belongs to a given queue.
\<close>

theorem merge_sched_bounded_wait:
  assumes "heap_ok h" "merge_inv hrs_ops hrs_labelled hrs_own h ms"
    "clients h (merge_own hrs_own h ms) {} (enqueued xs)" "a \<in> set (mq ms)"
    "(length (mq ms) - 1) * nat (default_quantum ms) < length (filter (\<lambda>x. x = Deq) xs)"
  shows "\<exists>h' ms' out r. sched_run (merge_ops hrs_ops) xs h ms = Some (h', ms', out) \<and> r \<in> set out \<and>
    labelled h' (hq_lab ms a) r"
  using hier.merge_serves [OF assms(1-4)] hier.waiting_bound [OF assms(2,4)] assms(5)
  by (meson order.strict_trans1)

theorem merge_sched_bounded_wait_witness:
  "\<exists>h ms. sched_run (merge_ops hrs_ops) [Enq 1, Enq 2, Enq 3, Enq 5] sched_heap
       (MergeRangeScheduler (Some 1) empty_heap) = Some (h, ms, []) \<and>
     mq ms = [1, 2, 3] \<and> hq_lab ms 3 = (RANGE_READ, 200) \<and>
     (\<exists>h' ms' out r. sched_run (merge_ops hrs_ops) [Deq, Deq, Deq] h ms = Some (h', ms', out) \<and> r \<in> set out \<and>
       labelled h' (hq_lab ms 3) r)"
proof -
  let ?ms = "MergeRangeScheduler (Some 1) empty_heap :: hrs merge_sched"
  let ?run = "sched_run (merge_ops hrs_ops) [Enq 1, Enq 2, Enq 3, Enq 5] sched_heap ?ms"
  have new: "merge_own hrs_own h ?ms = {}" "merge_inv hrs_ops hrs_labelled hrs_own h ?ms" for h
    by (rule merge_new_inv; simp add: heap_ok_empty)+
  have "submittable sched_heap (enqueued [Enq 1, Enq 2, Enq 3, Enq 5])"
    by (simp add: submittable_def leaf_ok_def labelled_def sched_heap_objs request_def init_fields_def)
  then have "clients sched_heap (merge_own hrs_own sched_heap ?ms) {} (enqueued [Enq 1, Enq 2, Enq 3, Enq 5])"
    "merge_inv hrs_ops hrs_labelled hrs_own sched_heap ?ms"
    using clients_init by (simp_all only: new(1)) (rule new(2))
  from hier.merge.sched_run_ok [OF sched_heap_ok this(2,1)]
  obtain h ms out where 1: "?run = Some (h, ms, out)" "heap_ok h" "merge_inv hrs_ops hrs_labelled hrs_own h ms"
    by blast
  have "map_option (\<lambda>(h, ms, out). (mq ms, hq_lab ms 3, default_quantum ms, out)) ?run =
      Some ([1, 2, 3], (RANGE_READ, 200), 1, [])"
    by code_simp
  then have 2: "mq ms = [1, 2, 3]" "hq_lab ms 3 = (RANGE_READ, 200)" "default_quantum ms = 1" "out = []"
    unfolding 1(1) by simp_all
  have "clients h (merge_own hrs_own h ms) {} (enqueued [Deq, Deq, Deq])"
    by (simp add: clients_def submittable_def)
  from merge_sched_bounded_wait [OF 1(2,3) this, of 3] show ?thesis
    using 1(1) 2 by auto
qed



end
