(* ===== verification/IO_Callbacks.thy ===== *)
theory IO_Callbacks
  imports Iofsl_Prelude
begin

text \<open>
  Completion callbacks (\<open>src/iofwd/tasksm/IOCBWrapper.hh\<close>, \<open>src/iofwd/tasksm/SharedIOCB.hh\<close>).
  An \<open>IOCBWrapper\<close> counts the outstanding extents of one request and calls the request's
  callback when the last one is done; a \<open>SharedIOCB\<close> distributes the completion of one merged
  operation to the wrappers of the requests in it. Callbacks are opaque functions: a call is
  recorded with the identity of the callback and the status it is given.
\<close>

record IOCBCopyWrapper =
  dbuf :: addr
  doffset :: nat
  obuf :: addr
  ooffset :: nat
  csize :: nat

record IOCBWrapper =
  iw_cb :: nat
  iw_count :: int
  iw_ret :: addr
  isRead :: bool
  copy_wrappers :: "IOCBCopyWrapper list"

text \<open>
  The wrappers on the free store, the result cells (\<open>int * ret\<close>) of the callers, the data
  buffers and the callbacks made so far.
\<close>

record io_state =
  wrappers :: "IOCBWrapper heap"
  rets :: "addr \<Rightarrow> int"
  membytes :: "addr \<Rightarrow> 8 word"
  fired :: "(nat \<times> cb_exception) list"

definition new_IOCBWrapper :: "nat \<Rightarrow> int \<Rightarrow> addr \<Rightarrow> IOCBWrapper" where
  "new_IOCBWrapper cb n ret =
     \<lparr>iw_cb = cb, iw_count = n, iw_ret = ret, isRead = False, copy_wrappers = []\<rparr>"

definition addCopy :: "addr \<Rightarrow> addr \<Rightarrow> nat \<Rightarrow> addr \<Rightarrow> nat \<Rightarrow> nat \<Rightarrow> io_state \<Rightarrow> io_state option" where
  "addCopy w db doff ob ooff n s = do {
     x \<leftarrow> heap_read (wrappers s) w;
     hp \<leftarrow> heap_write w (x\<lparr>copy_wrappers := copy_wrappers x @
       [\<lparr>dbuf = db, doffset = doff, obuf = ob, ooffset = ooff, csize = n\<rparr>]\<rparr>) (wrappers s);
     Some (s\<lparr>wrappers := hp\<rparr>)
   }"

text \<open>\<open>memcpy\<close>; copying between overlapping buffers is undefined.\<close>

definition memcpy :: "addr \<Rightarrow> addr \<Rightarrow> nat \<Rightarrow> (addr \<Rightarrow> 8 word) \<Rightarrow> (addr \<Rightarrow> 8 word) option" where
  "memcpy d src n m = do {
     assert_that (n = 0 \<or> d + n \<le> src \<or> src + n \<le> d);
     Some (\<lambda>a. if d \<le> a \<and> a < d + n then m (src + (a - d)) else m a)
   }"

fun copy_loop :: "IOCBCopyWrapper list \<Rightarrow> (addr \<Rightarrow> 8 word) \<Rightarrow> (addr \<Rightarrow> 8 word) option" where
  "copy_loop [] m = Some m"
| "copy_loop (c # cs) m =
     (if dbuf c \<noteq> null \<and> obuf c \<noteq> null
      then do { m1 \<leftarrow> memcpy (dbuf c + doffset c) (obuf c + ooffset c) (csize c) m; copy_loop cs m1 }
      else copy_loop cs m)"

definition iocb_copy :: "addr \<Rightarrow> io_state \<Rightarrow> io_state option" where
  "iocb_copy w s = do {
     x \<leftarrow> heap_read (wrappers s) w;
     m \<leftarrow> copy_loop (copy_wrappers x) (membytes s);
     hp \<leftarrow> heap_write w (x\<lparr>copy_wrappers := []\<rparr>) (wrappers s);
     Some (s\<lparr>membytes := m, wrappers := hp\<rparr>)
   }"

text \<open>
  \<open>IOCBWrapper::invoke\<close>; the second component is the exception that leaves the function, if any.
\<close>

definition iocb_invoke ::
  "int \<Rightarrow> cb_exception \<Rightarrow> addr \<Rightarrow> io_state \<Rightarrow> (io_state \<times> (cb_exception + unit)) option" where
  "iocb_invoke zoidfsresult status w s = do {
     x \<leftarrow> heap_read (wrappers s) w;
     if iw_count x = 1
     then do {
       let s1 = s\<lparr>rets := (rets s)(iw_ret x := zoidfsresult)\<rparr>;
       s2 \<leftarrow> (if isRead x then iocb_copy w s1 else Some s1);
       (case cb_check status of
          Inl e \<Rightarrow> Some (s2, Inl e)
        | Inr _ \<Rightarrow> do {
            hp \<leftarrow> heap_delete w (wrappers s2);
            Some (s2\<lparr>fired := fired s2 @ [(iw_cb x, status)], wrappers := hp\<rparr>, Inr ())
          })
     }
     else do {
       assert_that (iw_count x > - (2 ^ 31));
       hp \<leftarrow> heap_write w (x\<lparr>iw_count := iw_count x - 1\<rparr>) (wrappers s);
       Some (s\<lparr>wrappers := hp\<rparr>, Inr ())
     }
   }"

text \<open>The shared callback of one operation, for one request or for several.\<close>

datatype SharedIOCB = MultiSharedIOCB "addr list" | SingleSharedIOCB addr

fun issue_loop :: "int \<Rightarrow> cb_exception \<Rightarrow> addr list \<Rightarrow> io_state \<Rightarrow> (io_state \<times> (cb_exception + unit)) option" where
  "issue_loop ret status [] s = Some (s, Inr ())"
| "issue_loop ret status (w # ws) s = do {
     (s1, e) \<leftarrow> iocb_invoke ret status w s;
     (case e of Inl ex \<Rightarrow> Some (s1, Inl ex) | Inr _ \<Rightarrow> issue_loop ret status ws s1)
   }"

fun issueIOCallbacks ::
  "int \<Rightarrow> cb_exception \<Rightarrow> SharedIOCB \<Rightarrow> io_state \<Rightarrow> (io_state \<times> (cb_exception + unit)) option" where
  "issueIOCallbacks ret status (MultiSharedIOCB cbs) s =
     (case cb_check status of Inl e \<Rightarrow> Some (s, Inl e) | Inr _ \<Rightarrow> issue_loop ret status cbs s)"
| "issueIOCallbacks ret status (SingleSharedIOCB cb) s =
     (case cb_check status of Inl e \<Rightarrow> Some (s, Inl e) | Inr _ \<Rightarrow> iocb_invoke ret status cb s)"

fun shared_cbs :: "SharedIOCB \<Rightarrow> addr list" where
  "shared_cbs (MultiSharedIOCB cbs) = cbs"
| "shared_cbs (SingleSharedIOCB cb) = [cb]"

subsection \<open>Counting\<close>

text \<open>
  The calls a wrapper still waits for. A wrapper is well formed when the count fits its type and
  the copies it has queued can be made.
\<close>

definition waiting_for :: "io_state \<Rightarrow> addr \<Rightarrow> nat" where
  "waiting_for s w = (case hp_objs (wrappers s) w of None \<Rightarrow> 0 | Some x \<Rightarrow> nat (iw_count x))"

definition live_requests :: "io_state \<Rightarrow> nat multiset" where
  "live_requests s = image_mset (\<lambda>w. iw_cb (the (hp_objs (wrappers s) w))) (mset_set (dom (hp_objs (wrappers s))))"

definition io_ok :: "io_state \<Rightarrow> bool" where
  "io_ok s \<longleftrightarrow> heap_ok (wrappers s) \<and>
     (\<forall>w x. hp_objs (wrappers s) w = Some x \<longrightarrow> 0 < iw_count x \<and> copy_wrappers x = [])"

lemma issueIOCallbacks_ok:
  "issueIOCallbacks ret CB_None c s = issue_loop ret CB_None (shared_cbs c) s"
  by (cases c) (auto simp: cb_check_def hasException_def split: Option.bind_splits sum.splits)

text \<open>One call brings one wrapper one step nearer to its end, and fires its callback at the end.\<close>

lemma iocb_invoke_step:
  assumes "io_ok s" "0 < waiting_for s w"
  shows "\<exists>s'. iocb_invoke z CB_None w s = Some (s', Inr ()) \<and> io_ok s' \<and>
    waiting_for s' = (waiting_for s)(w := waiting_for s w - 1) \<and>
    mset (map fst (fired s')) + live_requests s' = mset (map fst (fired s)) + live_requests s \<and>
    (waiting_for s w = 1 \<longrightarrow> rets s' (iw_ret (the (hp_objs (wrappers s) w))) = z) \<and>
    (\<exists>es. fired s' = fired s @ es)"
proof -
  obtain x where x: "hp_objs (wrappers s) w = Some x" "0 < iw_count x" "copy_wrappers x = []"
    using assms by (auto simp: waiting_for_def io_ok_def split: option.splits)
  have hok: "heap_ok (wrappers s)" using assms(1) by (simp add: io_ok_def)
  have fin: "finite (dom (hp_objs (wrappers s)))" using hok by (simp add: heap_ok_def)
  show ?thesis
  proof (cases "iw_count x = 1")
    case True
    let ?s = "s\<lparr>wrappers := (wrappers s)\<lparr>hp_objs := (hp_objs (wrappers s))(w := None)\<rparr>,
        rets := (rets s)(iw_ret x := z), fired := fired s @ [(iw_cb x, CB_None)]\<rparr>"
    have "iocb_invoke z CB_None w s = Some (?s, Inr ())"
      using x True by (simp add: iocb_invoke_def heap_read_def heap_delete_def heap_write_def iocb_copy_def
          cb_check_def hasException_def Let_def)
    moreover have "io_ok ?s" using assms(1) by (auto simp: io_ok_def heap_ok_def)
    moreover have "waiting_for ?s = (waiting_for s)(w := waiting_for s w - 1)"
      using x True by (auto simp: waiting_for_def fun_eq_iff)
    moreover have "mset_set (dom (hp_objs (wrappers s))) = add_mset w (mset_set (dom (hp_objs (wrappers s)) - {w}))"
      using mset_set.remove [OF fin, of w] x(1) by auto
    then have "live_requests s = add_mset (iw_cb x) (live_requests ?s)"
      using x(1) fin by (auto simp: live_requests_def intro!: image_mset_cong)
    moreover have "rets ?s (iw_ret (the (hp_objs (wrappers s) w))) = z" using x(1) by simp
    ultimately show ?thesis by (intro exI [of _ ?s]) simp
  next
    case False
    let ?s = "s\<lparr>wrappers := (wrappers s)\<lparr>hp_objs := (hp_objs (wrappers s))(w \<mapsto> x\<lparr>iw_count := iw_count x - 1\<rparr>)\<rparr>\<rparr>"
    have "iocb_invoke z CB_None w s = Some (?s, Inr ())"
      using x False by (simp add: iocb_invoke_def heap_read_def heap_write_def)
    moreover have "1 < iw_count x" using x(2) False by linarith
    then have "io_ok ?s" using assms(1) x(3) by (auto simp: io_ok_def heap_ok_def)
    moreover have "waiting_for ?s = (waiting_for s)(w := waiting_for s w - 1)"
      using x by (auto simp: waiting_for_def fun_eq_iff)
    moreover have "insert w (dom (hp_objs (wrappers s))) = dom (hp_objs (wrappers s))" using x(1) by auto
    then have "live_requests ?s = live_requests s"
      using x(1) by (auto simp: live_requests_def intro!: image_mset_cong)
    moreover have "waiting_for s w \<noteq> 1" using x False by (auto simp: waiting_for_def)
    ultimately show ?thesis by (intro exI [of _ ?s]) simp
  qed
qed

text \<open>One merged completion, for any list of wrappers, in which a wrapper may occur several times.\<close>

lemma issue_loop_step:
  assumes "io_ok s" "\<And>w. count (mset ws) w \<le> waiting_for s w"
  shows "\<exists>s'. issue_loop z CB_None ws s = Some (s', Inr ()) \<and> io_ok s' \<and>
    waiting_for s' = (\<lambda>w. waiting_for s w - count (mset ws) w) \<and>
    mset (map fst (fired s')) + live_requests s' = mset (map fst (fired s)) + live_requests s \<and>
    (\<exists>es. fired s' = fired s @ es)"
  using assms
proof (induction ws arbitrary: s)
  case Nil
  then show ?case by simp
next
  case (Cons w ws)
  have "0 < waiting_for s w" using Cons.prems(2) [of w] by simp
  from iocb_invoke_step [OF Cons.prems(1) this, of z]
  obtain s1 es1 where 1: "iocb_invoke z CB_None w s = Some (s1, Inr ())" "io_ok s1"
    "waiting_for s1 = (waiting_for s)(w := waiting_for s w - 1)"
    "mset (map fst (fired s1)) + live_requests s1 = mset (map fst (fired s)) + live_requests s"
    "fired s1 = fired s @ es1"
    by blast
  have "count (mset ws) v \<le> waiting_for s1 v" for v
    using Cons.prems(2) [of v] 1(3) by (auto split: if_splits)
  from Cons.IH [OF 1(2) this]
  obtain s2 es2 where 2: "issue_loop z CB_None ws s1 = Some (s2, Inr ())" "io_ok s2"
    "waiting_for s2 = (\<lambda>w. waiting_for s1 w - count (mset ws) w)"
    "mset (map fst (fired s2)) + live_requests s2 = mset (map fst (fired s1)) + live_requests s1"
    "fired s2 = fired s1 @ es2"
    by blast
  have "waiting_for s2 = (\<lambda>v. waiting_for s v - count (mset (w # ws)) v)"
    using 1(3) 2(3) by (auto simp: fun_eq_iff)
  then show ?case using 1 2 by (intro exI [of _ s2]) simp
qed

subsection \<open>Properties\<close>

fun invoke_all :: "int list \<Rightarrow> addr \<Rightarrow> io_state \<Rightarrow> io_state option" where
  "invoke_all [] w s = Some s"
| "invoke_all (z # zs) w s = do { (s1, e) \<leftarrow> iocb_invoke z CB_None w s; invoke_all zs w s1 }"

lemma invoke_all_not_last:
  assumes "hp_objs (wrappers s) w = Some x" "int (length zs) < iw_count x"
  shows "invoke_all zs w s = Some (s\<lparr>wrappers := (wrappers s)\<lparr>hp_objs := (hp_objs (wrappers s))
    (w \<mapsto> x\<lparr>iw_count := iw_count x - int (length zs)\<rparr>)\<rparr>\<rparr>)"
  using assms
proof (induction zs arbitrary: s x)
  case Nil
  then have "(hp_objs (wrappers s))(w \<mapsto> x) = hp_objs (wrappers s)" by auto
  then show ?case by simp
next
  case (Cons z zs)
  let ?x = "x\<lparr>iw_count := iw_count x - 1\<rparr>"
  let ?s = "s\<lparr>wrappers := (wrappers s)\<lparr>hp_objs := (hp_objs (wrappers s))(w \<mapsto> ?x)\<rparr>\<rparr>"
  have "iocb_invoke z CB_None w s = Some (?s, Inr ())"
    using Cons.prems by (simp add: iocb_invoke_def heap_read_def heap_write_def)
  moreover have "invoke_all zs w ?s = Some (?s\<lparr>wrappers := (wrappers ?s)\<lparr>hp_objs := (hp_objs (wrappers ?s))
      (w \<mapsto> ?x\<lparr>iw_count := iw_count ?x - int (length zs)\<rparr>)\<rparr>\<rparr>)"
    using Cons.prems by (intro Cons.IH) auto
  moreover have "iw_count x - 1 - int (length zs) = iw_count x - int (length (z # zs))" by simp
  ultimately show ?case by (simp flip: fun_upd_def)
qed

lemma invoke_all_append:
  "invoke_all (xs @ ys) w s = do { s1 \<leftarrow> invoke_all xs w s; invoke_all ys w s1 }"
  by (induction xs arbitrary: s) (auto split: Option.bind_splits)

text \<open>
  (C15) A request of \<open>n\<close> extents is called back exactly once: the first \<open>n - 1\<close> completions only
  count, and the \<open>n\<close>th stores its own result, runs the callback and frees the wrapper. The results
  of the earlier extents are not kept: an error of an extent that does not complete last is lost.
\<close>

theorem iocb_called_back_once:
  assumes "hp_objs (wrappers s) w = Some x" "iw_count x = int (length zs) + 1" "copy_wrappers x = []"
  shows "\<exists>s1 s2. invoke_all zs w s = Some s1 \<and> fired s1 = fired s \<and> rets s1 = rets s \<and>
    invoke_all (zs @ [z]) w s = Some s2 \<and> fired s2 = fired s @ [(iw_cb x, CB_None)] \<and>
    rets s2 = (rets s)(iw_ret x := z) \<and> hp_objs (wrappers s2) = (hp_objs (wrappers s))(w := None)"
  using invoke_all_not_last [OF assms(1), of zs] assms
  by (auto simp: invoke_all_append iocb_invoke_def heap_read_def heap_delete_def heap_write_def iocb_copy_def
      cb_check_def hasException_def Let_def)

theorem iocb_called_back_once_witness:
  "let s = \<lparr>wrappers = empty_heap\<lparr>hp_objs := [1 \<mapsto> new_IOCBWrapper 7 3 50]\<rparr>, rets = (\<lambda>_. 0),
       membytes = (\<lambda>_. 0), fired = []\<rparr>
   in \<exists>s1 s2. invoke_all [- 5, 0] 1 s = Some s1 \<and> fired s1 = fired s \<and> rets s1 = rets s \<and>
    invoke_all ([- 5, 0] @ [0]) 1 s = Some s2 \<and> fired s2 = fired s @ [(7, CB_None)] \<and>
    rets s2 = (rets s)(50 := 0) \<and> hp_objs (wrappers s2) = (hp_objs (wrappers s))(1 := None)"
  using iocb_called_back_once [of
      "\<lparr>wrappers = empty_heap\<lparr>hp_objs := [1 \<mapsto> new_IOCBWrapper 7 3 50]\<rparr>, rets = (\<lambda>_. 0), membytes = (\<lambda>_. 0), fired = []\<rparr>"
      1 "new_IOCBWrapper 7 3 50" "[- 5, 0]" 0]
  by (simp add: new_IOCBWrapper_def Let_def)



end
