(* ===== verification/Request_Sched.thy ===== *)
theory Request_Sched
  imports Range_Sched IO_Callbacks
begin

text \<open>
  The request scheduler (\<open>src/iofwd/RequestScheduler.hh\<close>, \<open>src/iofwd/RequestScheduler.cpp\<close>). Callers
  split a read or write into one range per extent and put the ranges into a range scheduler; one
  thread at a time takes batches of ranges of one direction and one file out of it and turns each
  batch into a single call of the next file system layer, whose completion is distributed to the
  callers. Every section the source runs under \<open>lock_\<close> is one function here, so that the step
  relation below can interleave the callers, the scheduling thread and the completions as the
  program can.
\<close>

subsection \<open>State\<close>

text \<open>
  One call of \<open>api_->write\<close> or \<open>api_->read\<close> that has not completed. The hint pointer is \<open>None\<close>
  when the code passes an indeterminate value.
\<close>

record io_call =
  ic_type :: RangeType
  ic_handle :: addr
  ic_extents :: "extent list"
  ic_hint :: "addr option"
  ic_cbs :: SharedIOCB

text \<open>
  The members of the class, and what they point to: the ranges, the callback wrappers, the file
  handles of the callers, the work units submitted to the thread pool and not yet started, and
  the calls in flight.
\<close>

record 'q req_sched =
  range_sched :: 'q
  schedActive :: bool
  exiting :: bool
  batch_size :: int
  rs_ranges :: range_heap
  rs_io :: io_state
  rs_handles :: "addr \<rightharpoonup> 8 word list"
  rs_pool :: nat
  rs_calls :: "io_call list"

text \<open>\<open>configure\<close>: the range scheduler and the batch size; an unknown scheduler name is refused.\<close>

datatype sched_kind = FIFO_Scheduler | Merge_Scheduler

definition rs_configure :: "string option \<Rightarrow> int option \<Rightarrow> string + sched_kind \<times> int" where
  "rs_configure schedalgo batchsize =
     (let algo = (case schedalgo of None \<Rightarrow> ''fifo'' | Some a \<Rightarrow> a);
          n = (case batchsize of None \<Rightarrow> 16 | Some b \<Rightarrow> b)
      in if algo = ''fifo'' then Inr (FIFO_Scheduler, n)
         else if algo = ''merge'' then Inr (Merge_Scheduler, n)
         else Inl algo)"

subsection \<open>Submitting requests\<close>

definition valid_count :: "extent list \<Rightarrow> nat" where
  "valid_count xs = length (filter (\<lambda>x. x_size x > 0) xs)"

text \<open>The wrapper that counts the extents of one request.\<close>

definition rs_open ::
  "RangeType \<Rightarrow> nat \<Rightarrow> addr \<Rightarrow> extent list \<Rightarrow> 'q req_sched \<Rightarrow> (addr \<times> 'q req_sched) option" where
  "rs_open t cb ret xs s = do {
     assert_that (int (valid_count xs) < 2 ^ 31);
     let (w, hp) = heap_new ((new_IOCBWrapper cb (int (valid_count xs)) ret)\<lparr>isRead := (t = RANGE_READ)\<rparr>)
                     (wrappers (rs_io s));
     Some (w, s\<lparr>rs_io := (rs_io s)\<lparr>wrappers := hp\<rparr>\<rparr>)
   }"

definition request_range :: "RangeType \<Rightarrow> addr \<Rightarrow> addr \<Rightarrow> addr \<Rightarrow> extent \<Rightarrow> range_obj" where
  "request_range t handle hint w x =
     map_fields (\<lambda>f. f\<lparr>rtype := Some t, rhandle := Some handle, rbuf := Some (x_mem x), rcb := w,
       rhint := Some hint\<rparr>) (new_ChildRange (x_start x) (x_start x + x_size x))"

text \<open>The section under the lock: enqueue, and schedule a run when none is active.\<close>

definition enqueue_range :: "'q RangeScheduler \<Rightarrow> addr \<Rightarrow> 'q req_sched \<Rightarrow> 'q req_sched option" where
  "enqueue_range ops r s = do {
     (h, q) \<leftarrow> rsched_enqueue ops (rs_ranges s) (range_sched s) r;
     let s1 = s\<lparr>rs_ranges := h, range_sched := q\<rparr>;
     Some (if schedActive s1 then s1 else s1\<lparr>rs_pool := Suc (rs_pool s1), schedActive := True\<rparr>)
   }"

definition submit_extent ::
  "'q RangeScheduler \<Rightarrow> RangeType \<Rightarrow> addr \<Rightarrow> addr \<Rightarrow> addr \<Rightarrow> extent \<Rightarrow> 'q req_sched \<Rightarrow> 'q req_sched option" where
  "submit_extent ops t handle hint w x s =
     (let (r, h) = heap_new (request_range t handle hint w x) (rs_ranges s)
      in enqueue_range ops r (s\<lparr>rs_ranges := h\<rparr>))"

text \<open>
  The loop bodies of \<open>write\<close> and \<open>read\<close>. \<open>write\<close> skips an extent of size zero; \<open>read\<close> tests the
  pointer \<open>file_sizes\<close> instead of the size, so it skips nothing.
\<close>

definition write_extent ::
  "'q RangeScheduler \<Rightarrow> addr \<Rightarrow> addr \<Rightarrow> addr \<Rightarrow> extent \<Rightarrow> 'q req_sched \<Rightarrow> 'q req_sched option" where
  "write_extent ops handle hint w x s = do {
     assert_that (x_msize x = x_size x);
     if x_size x = 0 then Some s else submit_extent ops RANGE_WRITE handle hint w x s
   }"

definition read_extent ::
  "'q RangeScheduler \<Rightarrow> addr \<Rightarrow> addr \<Rightarrow> addr \<Rightarrow> extent \<Rightarrow> 'q req_sched \<Rightarrow> 'q req_sched option" where
  "read_extent ops handle hint w x s = do {
     assert_that (x_msize x = x_size x);
     submit_extent ops RANGE_READ handle hint w x s
   }"

definition next_extent ::
  "'q RangeScheduler \<Rightarrow> RangeType \<Rightarrow> addr \<Rightarrow> addr \<Rightarrow> addr \<Rightarrow> extent \<Rightarrow> 'q req_sched \<Rightarrow> 'q req_sched option" where
  "next_extent ops t = (case t of RANGE_WRITE \<Rightarrow> write_extent ops | RANGE_READ \<Rightarrow> read_extent ops)"

fun extent_loop ::
  "'q RangeScheduler \<Rightarrow> RangeType \<Rightarrow> addr \<Rightarrow> addr \<Rightarrow> addr \<Rightarrow> extent list \<Rightarrow> 'q req_sched \<Rightarrow> 'q req_sched option" where
  "extent_loop ops t handle hint w [] s = Some s"
| "extent_loop ops t handle hint w (x # xs) s = do {
     s1 \<leftarrow> next_extent ops t handle hint w x s;
     extent_loop ops t handle hint w xs s1
   }"

definition extents :: "(addr \<times> u64) list \<Rightarrow> (u64 \<times> u64) list \<Rightarrow> extent list" where
  "extents mem files = map (\<lambda>((b, n), (st, z)). \<lparr>x_mem = b, x_msize = n, x_start = st, x_size = z\<rparr>) (zip mem files)"

definition rs_write ::
  "'q RangeScheduler \<Rightarrow> nat \<Rightarrow> addr \<Rightarrow> addr \<Rightarrow> (addr \<times> u64) list \<Rightarrow> (u64 \<times> u64) list \<Rightarrow> addr \<Rightarrow>
   'q req_sched \<Rightarrow> 'q req_sched option" where
  "rs_write ops cb ret handle mem files hint s = do {
     assert_that (length files = length mem);
     (w, s1) \<leftarrow> rs_open RANGE_WRITE cb ret (extents mem files) s;
     extent_loop ops RANGE_WRITE handle hint w (extents mem files) s1
   }"

definition rs_read ::
  "'q RangeScheduler \<Rightarrow> nat \<Rightarrow> addr \<Rightarrow> addr \<Rightarrow> (addr \<times> u64) list \<Rightarrow> (u64 \<times> u64) list \<Rightarrow> addr \<Rightarrow>
   'q req_sched \<Rightarrow> 'q req_sched option" where
  "rs_read ops cb ret handle mem files hint s = do {
     assert_that (length files = length mem);
     (w, s1) \<leftarrow> rs_open RANGE_READ cb ret (extents mem files) s;
     extent_loop ops RANGE_READ handle hint w (extents mem files) s1
   }"

subsection \<open>Running the scheduler\<close>

definition same_handle :: "(addr \<rightharpoonup> 8 word list) \<Rightarrow> addr \<Rightarrow> addr \<Rightarrow> bool option" where
  "same_handle hs h1 h2 =
     (if h1 = null \<or> h2 = null then Some False
      else do { d1 \<leftarrow> hs h1; d2 \<leftarrow> hs h2; Some (take 32 d1 = take 32 d2) })"

definition nranges :: "range_obj \<Rightarrow> nat" where
  "nranges x = (case x of ChildRange f \<Rightarrow> 1 | ParentRange f cs cbs \<Rightarrow> length cs)"

text \<open>The test that ends a batch: another direction or another file.\<close>

definition breaks_batch :: "(addr \<rightharpoonup> 8 word list) \<Rightarrow> range_heap \<Rightarrow> addr \<Rightarrow> addr \<Rightarrow> bool option" where
  "breaks_batch hs h r b = do {
     x \<leftarrow> heap_read h r;
     y \<leftarrow> heap_read h b;
     t1 \<leftarrow> rtype (range_fields x);
     t2 \<leftarrow> rtype (range_fields y);
     if t1 \<noteq> t2 then Some True
     else do {
       k1 \<leftarrow> rhandle (range_fields x);
       k2 \<leftarrow> rhandle (range_fields y);
       e \<leftarrow> same_handle hs k1 k2;
       Some (\<not> e)
     }
   }"

text \<open>
  The loop at the head of \<open>run\<close>, which runs under the lock; the result says whether \<open>run\<close> returns.
  Nobody else can change the condition while the lock is held, so waiting for work would not end.
\<close>

partial_function (option) wait_loop ::
  "'q RangeScheduler \<Rightarrow> bool \<Rightarrow> addr list \<Rightarrow> 'q req_sched \<Rightarrow> ('q req_sched \<times> bool) option" where
  "wait_loop ops waitForWork rs s =
     (if rsched_empty ops (range_sched s) \<and> \<not> exiting s
      then if rs \<noteq> [] then Some (s, False)
           else if \<not> waitForWork then Some (s\<lparr>schedActive := False\<rparr>, True)
           else if exiting s then Some (s, True)
           else wait_loop ops waitForWork rs s
      else Some (s, False))"

partial_function (option) fill_loop ::
  "'q RangeScheduler \<Rightarrow> addr list \<Rightarrow> int \<Rightarrow> 'q req_sched \<Rightarrow> ('q req_sched \<times> addr list \<times> int \<times> addr option) option" where
  "fill_loop ops rs cur_batch s =
     (if cur_batch < batch_size s
      then if rsched_empty ops (range_sched s) then Some (s, rs, cur_batch, None)
           else do {
             (h, q, res) \<leftarrow> rsched_dequeue ops (rs_ranges s) (range_sched s);
             let s1 = s\<lparr>rs_ranges := h, range_sched := q\<rparr>;
             (case res of
                None \<Rightarrow> Some (s1, rs, cur_batch, None)
              | Some r \<Rightarrow> do {
                  x \<leftarrow> heap_read h r;
                  stop \<leftarrow> (if rs = [] then Some False else breaks_batch (rs_handles s1) h r (last rs));
                  if stop then Some (s1, rs, cur_batch, Some r)
                  else fill_loop ops (rs @ [r]) (cur_batch + int (nranges x)) s1
                })
           }
      else Some (s, rs, cur_batch, None))"

declare wait_loop.simps [code] fill_loop.simps [code]

definition run_locked ::
  "'q RangeScheduler \<Rightarrow> bool \<Rightarrow> addr list \<Rightarrow> int \<Rightarrow> 'q req_sched \<Rightarrow>
   ('q req_sched \<times> (addr list \<times> int \<times> addr option) option) option" where
  "run_locked ops waitForWork rs cur_batch s = do {
     (s1, ret) \<leftarrow> wait_loop ops waitForWork rs s;
     if ret then Some (s1, None)
     else do {
       (s2, rs2, cur2, tmp_r) \<leftarrow> fill_loop ops rs cur_batch s1;
       Some (s2, Some (rs2, cur2, tmp_r))
     }
   }"

fun check_ranges_loop :: "(addr \<rightharpoonup> 8 word list) \<Rightarrow> range_heap \<Rightarrow> addr \<Rightarrow> addr list \<Rightarrow> unit option" where
  "check_ranges_loop hs h r0 [] = Some ()"
| "check_ranges_loop hs h r0 (r # rs) = do {
     b \<leftarrow> breaks_batch hs h r0 r;
     assert_that (\<not> b);
     check_ranges_loop hs h r0 rs
   }"

definition check_ranges :: "(addr \<rightharpoonup> 8 word list) \<Rightarrow> range_heap \<Rightarrow> addr list \<Rightarrow> unit option" where
  "check_ranges hs h rs = (if length rs \<ge> 2 then check_ranges_loop hs h (hd rs) (tl rs) else Some ())"

text \<open>The arrays that \<open>issue\<close> fills, entry by entry, and the callbacks it collects.\<close>

definition entry_of :: "range_obj \<Rightarrow> extent option" where
  "entry_of x = do {
     b \<leftarrow> rbuf (range_fields x);
     Some \<lparr>x_mem = b, x_msize = en_of x - st_of x, x_start = st_of x, x_size = en_of x - st_of x\<rparr>
   }"

fun child_entries :: "range_heap \<Rightarrow> addr list \<Rightarrow> extent list option" where
  "child_entries h [] = Some []"
| "child_entries h (c # cs) = do {
     x \<leftarrow> heap_read h c;
     e \<leftarrow> entry_of x;
     es \<leftarrow> child_entries h cs;
     Some (e # es)
   }"

fun issue_arrays :: "range_heap \<Rightarrow> addr list \<Rightarrow> (extent list \<times> addr list) option" where
  "issue_arrays h [] = Some ([], [])"
| "issue_arrays h (r # rs) = do {
     x \<leftarrow> heap_read h r;
     (es, cbs) \<leftarrow> (case x of
        ParentRange f cs cbs \<Rightarrow> do { es \<leftarrow> child_entries h cs; Some (es, cbs) }
      | ChildRange f \<Rightarrow> do { e \<leftarrow> entry_of x; Some ([e], [rcb f]) });
     assert_that (en_of x > st_of x);
     (es', cbs') \<leftarrow> issue_arrays h rs;
     Some (es @ es', cbs @ cbs')
   }"

fun narrays :: "range_heap \<Rightarrow> addr list \<Rightarrow> nat option" where
  "narrays h [] = Some 0"
| "narrays h (r # rs) = do { x \<leftarrow> heap_read h r; n \<leftarrow> narrays h rs; Some (nranges x + n) }"

definition shared_callback :: "addr list \<Rightarrow> SharedIOCB option" where
  "shared_callback cbvec =
     (if length cbvec > 1 then Some (MultiSharedIOCB cbvec)
      else if length cbvec = 1 then Some (SingleSharedIOCB (hd cbvec))
      else None)"

definition rs_issue :: "addr list \<Rightarrow> 'q req_sched \<Rightarrow> 'q req_sched option" where
  "rs_issue rs s = do {
     n \<leftarrow> narrays (rs_ranges s) rs;
     (es, cbvec) \<leftarrow> issue_arrays (rs_ranges s) rs;
     assert_that (length es = n);
     cbs \<leftarrow> shared_callback cbvec;
     x \<leftarrow> heap_read (rs_ranges s) (hd rs);
     t \<leftarrow> rtype (range_fields x);
     k \<leftarrow> rhandle (range_fields x);
     Some (s\<lparr>rs_calls := rs_calls s @ [\<lparr>ic_type = t, ic_handle = k, ic_extents = es,
       ic_hint = rhint (range_fields x), ic_cbs = cbs\<rparr>]\<rparr>)
   }"

fun delete_loop :: "addr list \<Rightarrow> range_heap \<Rightarrow> range_heap option" where
  "delete_loop [] h = Some h"
| "delete_loop (r # rs) h = do { h1 \<leftarrow> delete_range r h; delete_loop rs h1 }"

text \<open>The rest of an iteration of \<open>run\<close>, outside the lock; the result is what the next iteration starts with.\<close>

definition run_issue :: "addr list \<Rightarrow> addr option \<Rightarrow> 'q req_sched \<Rightarrow> ('q req_sched \<times> addr list \<times> int) option" where
  "run_issue rs tmp_r s = do {
     check_ranges (rs_handles s) (rs_ranges s) rs;
     s1 \<leftarrow> rs_issue rs s;
     h \<leftarrow> delete_loop rs (rs_ranges s1);
     let s2 = s1\<lparr>rs_ranges := h\<rparr>;
     (case tmp_r of
        None \<Rightarrow> Some (s2, [], 0)
      | Some r \<Rightarrow> do { x \<leftarrow> heap_read h r; Some (s2, [r], int (nranges x)) })
   }"

partial_function (option) run_loop ::
  "'q RangeScheduler \<Rightarrow> bool \<Rightarrow> addr list \<Rightarrow> int \<Rightarrow> 'q req_sched \<Rightarrow> 'q req_sched option" where
  "run_loop ops waitForWork rs cur_batch s = do {
     (s1, res) \<leftarrow> run_locked ops waitForWork rs cur_batch s;
     (case res of
        None \<Rightarrow> Some s1
      | Some (rs1, cur1, tmp_r) \<Rightarrow>
          if rs1 = [] then run_loop ops waitForWork rs1 cur1 s1
          else do {
            (s2, rs2, cur2) \<leftarrow> run_issue rs1 tmp_r s1;
            run_loop ops waitForWork rs2 cur2 s2
          })
   }"

definition rs_run :: "'q RangeScheduler \<Rightarrow> bool \<Rightarrow> 'q req_sched \<Rightarrow> 'q req_sched option" where
  "rs_run ops waitForWork s = run_loop ops waitForWork [] 0 s"

text \<open>The completion of the \<open>i\<close>th call in flight with result \<open>z\<close>.\<close>

definition rs_complete :: "nat \<Rightarrow> int \<Rightarrow> 'q req_sched \<Rightarrow> 'q req_sched option" where
  "rs_complete i z s = do {
     assert_that (i < length (rs_calls s));
     (io, e) \<leftarrow> issueIOCallbacks z CB_None (ic_cbs (rs_calls s ! i)) (rs_io s);
     Some (s\<lparr>rs_io := io, rs_calls := take i (rs_calls s) @ drop (Suc i) (rs_calls s)\<rparr>)
   }"

subsection \<open>Ranges of requests\<close>

text \<open>
  A request extent as \<open>write\<close> and \<open>read\<close> build it: not empty, with a buffer, a direction and a live
  handle. A range handed out by the range scheduler is usable when all extents below it are.
\<close>

definition request_ok :: "(addr \<rightharpoonup> 8 word list) \<Rightarrow> range_heap \<Rightarrow> addr \<Rightarrow> bool" where
  "request_ok hs h a \<longleftrightarrow> (\<exists>f t k. hp_objs h a = Some (ChildRange f) \<and> rst f < ren f \<and> rbuf f \<noteq> None \<and>
     rtype f = Some t \<and> rhandle f = Some k \<and> k \<noteq> null \<and> hs k \<noteq> None)"

definition range_req :: "(addr \<rightharpoonup> 8 word list) \<Rightarrow> range_heap \<Rightarrow> addr \<Rightarrow> bool" where
  "range_req hs h r \<longleftrightarrow> homogeneous h r \<and> (\<forall>c \<in> set (leaf_addrs h r). request_ok hs h c)"

text \<open>The direction and the file of a range: handles are compared by content.\<close>

definition fields_key :: "(addr \<rightharpoonup> 8 word list) \<Rightarrow> range_fields \<Rightarrow> RangeType option \<times> 8 word list option" where
  "fields_key hs f = (rtype f, map_option (take 32) (Option.bind (rhandle f) hs))"

definition rkey :: "(addr \<rightharpoonup> 8 word list) \<Rightarrow> range_heap \<Rightarrow> addr \<Rightarrow> RangeType option \<times> 8 word list option" where
  "rkey hs h r = fields_key hs (range_fields (the (hp_objs h r)))"

lemma range_req_frame:
  assumes "\<And>a. a \<in> range_own h r \<Longrightarrow> hp_objs h' a = hp_objs h a"
  shows "range_req hs h' r = range_req hs h r" "rkey hs h' r = rkey hs h r"
    "leaf_addrs h' r = leaf_addrs h r" "range_own h' r = range_own h r"
proof -
  show 1: "leaf_addrs h' r = leaf_addrs h r" by (rule homogeneous_frame(2) [OF assms])
  then show "range_own h' r = range_own h r" by (simp add: range_own_def)
  have "request_ok hs h' c = request_ok hs h c" if "c \<in> set (leaf_addrs h r)" for c
    using assms [of c] that by (simp add: request_ok_def range_own_def)
  then show "range_req hs h' r = range_req hs h r"
    using homogeneous_frame(1) [OF assms] 1 by (simp add: range_req_def)
  show "rkey hs h' r = rkey hs h r" using assms [of r] by (simp add: rkey_def range_own_def)
qed

lemma range_reqD:
  assumes "range_req hs h r"
  obtains x t k d where "hp_objs h r = Some x" "rtype (range_fields x) = Some t" "rhandle (range_fields x) = Some k"
    "k \<noteq> null" "hs k = Some d" "rkey hs h r = (Some t, Some (take 32 d))" "st_of x < en_of x"
    "\<And>c. c \<in> set (leaf_addrs h r) \<Longrightarrow> rkey hs h c = rkey hs h r"
proof -
  have ok: "range_ok h r" and rq: "\<And>c. c \<in> set (leaf_addrs h r) \<Longrightarrow> request_ok hs h c"
    using assms by (simp_all add: range_req_def homogeneous_def)
  from assms obtain l where l: "\<And>a. a \<in> range_own h r \<Longrightarrow> labelled h l a"
    unfolding range_req_def homogeneous_def by blast
  obtain x where x: "hp_objs h r = Some x" using range_okD(1) [OF ok] by auto
  then have lx: "rtype (range_fields x) = Some (fst l)" "rhandle (range_fields x) = Some (snd l)"
    using l [of r] by (simp_all add: labelled_def range_own_def)
  obtain c where c: "c \<in> set (leaf_addrs h r)" using range_ok_leaves(1) [OF ok] by (cases "leaf_addrs h r") auto
  then have "snd l \<noteq> null \<and> hs (snd l) \<noteq> None"
    using rq [OF c] l [of c] by (auto simp: request_ok_def labelled_def range_own_def)
  then obtain d where d: "snd l \<noteq> null" "hs (snd l) = Some d" by auto
  have key: "rkey hs h a = (Some (fst l), Some (take 32 d))" if "a \<in> range_own h r" for a
    using l [OF that] d by (auto simp: rkey_def fields_key_def labelled_def split: option.splits)
  have "st_at h c < en_at h c" if "c \<in> set (leaf_addrs h r)" for c
    using rq [OF that] by (auto simp: request_ok_def at_simps)
  then have "st_of x < en_of x" using range_ok_nonempty [OF ok] x by (simp add: at_simps)
  moreover have "rkey hs h c = rkey hs h r" if "c \<in> set (leaf_addrs h r)" for c
    using key [of c] key [of r] that by (simp add: range_own_def)
  ultimately show thesis using that [OF x lx d key [of r]] by (simp add: range_own_def)
qed

lemma breaks_batch_Some:
  assumes "range_req hs h r" "range_req hs h b"
  shows "breaks_batch hs h r b = Some (rkey hs h r \<noteq> rkey hs h b)"
  using assms by (elim range_reqD) (simp add: breaks_batch_def heap_read_def same_handle_def)

lemma check_ranges_Some:
  assumes "\<And>r. r \<in> set rs \<Longrightarrow> range_req hs h r" "\<And>r. r \<in> set rs \<Longrightarrow> rkey hs h r = rkey hs h (hd rs)"
  shows "check_ranges hs h rs = Some ()"
proof -
  have loop: "check_ranges_loop hs h r0 xs = Some ()"
    if "range_req hs h r0" "\<forall>r \<in> set xs. range_req hs h r \<and> rkey hs h r0 = rkey hs h r" for r0 xs
    using that by (induction xs) (simp_all add: breaks_batch_Some)
  show ?thesis
  proof (cases rs)
    case (Cons r xs)
    have "range_req hs h r" "\<forall>a \<in> set xs. range_req hs h a \<and> rkey hs h r = rkey hs h a"
      using assms(1) assms(2) [symmetric] Cons by auto
    then show ?thesis using loop Cons by (simp add: check_ranges_def)
  qed (simp add: check_ranges_def)
qed

text \<open>What one extent contributes to a call: direction, file, arrays entry and callback.\<close>

definition entry_at :: "range_heap \<Rightarrow> addr \<Rightarrow> extent" where
  "entry_at h c = the (entry_of (the (hp_objs h c)))"

type_synonym io_item = "(RangeType option \<times> 8 word list option) \<times> extent \<times> addr"

definition leaf_item :: "(addr \<rightharpoonup> 8 word list) \<Rightarrow> range_heap \<Rightarrow> addr \<Rightarrow> io_item" where
  "leaf_item hs h c = (rkey hs h c, entry_at h c, cb_at h c)"

definition call_items :: "(addr \<rightharpoonup> 8 word list) \<Rightarrow> io_call \<Rightarrow> io_item list" where
  "call_items hs k = map (Pair (Some (ic_type k), map_option (take 32) (hs (ic_handle k))))
     (zip (ic_extents k) (shared_cbs (ic_cbs k)))"

abbreviation all_leaves :: "range_heap \<Rightarrow> addr list \<Rightarrow> addr list" where
  "all_leaves h rs \<equiv> concat (map (leaf_addrs h) rs)"

lemma leaf_item_frame: "hp_objs h' c = hp_objs h c \<Longrightarrow> leaf_item hs h' c = leaf_item hs h c"
  by (simp add: leaf_item_def rkey_def entry_at_def cb_at_def)

lemma child_entries_Some:
  "(\<And>c. c \<in> set cs \<Longrightarrow> request_ok hs h c) \<Longrightarrow> child_entries h cs = Some (map (entry_at h) cs)"
proof (induction cs)
  case (Cons c cs)
  then obtain f b where "hp_objs h c = Some (ChildRange f)" "rbuf f = Some b"
    unfolding request_ok_def by (metis list.set_intros(1) not_None_eq)
  then show ?case using Cons by (simp add: heap_read_def entry_of_def entry_at_def)
qed simp

lemma issue_arrays_Some:
  assumes "\<And>r. r \<in> set rs \<Longrightarrow> range_req hs h r"
  shows "issue_arrays h rs = Some (map (entry_at h) (all_leaves h rs), map (cb_at h) (all_leaves h rs))"
    "narrays h rs = Some (length (all_leaves h rs))"
proof -
  have one: "issue_arrays h (r # rs) = do { (es, cbs) \<leftarrow> issue_arrays h rs;
        Some (map (entry_at h) (leaf_addrs h r) @ es, map (cb_at h) (leaf_addrs h r) @ cbs) } \<and>
      narrays h (r # rs) = map_option ((+) (length (leaf_addrs h r))) (narrays h rs)"
    if r: "range_req hs h r" for r rs
  proof -
    obtain x where x: "hp_objs h r = Some x" "st_of x < en_of x" using r by (rule range_reqD)
    have "range_ok h r" and ch: "child_entries h (leaf_addrs h r) = Some (map (entry_at h) (leaf_addrs h r))"
      using r child_entries_Some [of "leaf_addrs h r" hs h] by (simp_all add: range_req_def homogeneous_def)
    note cb = range_ok_leaves(3) [OF this(1)]
    show ?thesis
    proof (cases x)
      case (ChildRange f)
      then show ?thesis using x ch
        by (auto simp: leaf_addrs_def heap_read_def nranges_def cb_at_def split: Option.bind_splits option.splits)
    next
      case (ParentRange f cs cbs)
      then show ?thesis using x ch cb
        by (auto simp: leaf_addrs_def heap_read_def nranges_def cb_addrs_def split: Option.bind_splits option.splits)
    qed
  qed
  have "issue_arrays h rs = Some (map (entry_at h) (all_leaves h rs), map (cb_at h) (all_leaves h rs)) \<and>
    narrays h rs = Some (length (all_leaves h rs))"
    using assms
  proof (induction rs)
    case (Cons r rs)
    then show ?case using one [of r rs] by simp
  qed simp
  then show "issue_arrays h rs = Some (map (entry_at h) (all_leaves h rs), map (cb_at h) (all_leaves h rs))"
    "narrays h rs = Some (length (all_leaves h rs))"
    by simp_all
qed

lemma zip_map_same: "zip (map f xs) (map g xs) = map (\<lambda>x. (f x, g x)) xs"
  by (induction xs) simp_all

lemma shared_callback_Some: "v \<noteq> [] \<Longrightarrow> \<exists>cbs. shared_callback v = Some cbs \<and> shared_cbs cbs = v"
  by (cases v; cases "tl v") (auto simp: shared_callback_def)

text \<open>
  Issuing a batch of usable ranges of one direction and file makes one call, which carries exactly
  the extents and callbacks of the requests in the batch.
\<close>

lemma rs_issue_Some:
  assumes "rs \<noteq> []" "\<And>r. r \<in> set rs \<Longrightarrow> range_req (rs_handles s) (rs_ranges s) r"
    "\<And>r. r \<in> set rs \<Longrightarrow> rkey (rs_handles s) (rs_ranges s) r = rkey (rs_handles s) (rs_ranges s) (hd rs)"
  shows "\<exists>k. rs_issue rs s = Some (s\<lparr>rs_calls := rs_calls s @ [k]\<rparr>) \<and>
    call_items (rs_handles s) k = map (leaf_item (rs_handles s) (rs_ranges s)) (all_leaves (rs_ranges s) rs) \<and>
    shared_cbs (ic_cbs k) = map (cb_at (rs_ranges s)) (all_leaves (rs_ranges s) rs)"
proof -
  let ?h = "rs_ranges s" and ?hs = "rs_handles s"
  let ?L = "all_leaves ?h rs"
  have hd: "range_req ?hs ?h (hd rs)" using assms(1,2) by simp
  then obtain x t k d where x: "hp_objs ?h (hd rs) = Some x" "rtype (range_fields x) = Some t"
    "rhandle (range_fields x) = Some k" "?hs k = Some d" "rkey ?hs ?h (hd rs) = (Some t, Some (take 32 d))"
    by (rule range_reqD)
  have "leaf_addrs ?h (hd rs) \<noteq> []"
    using hd range_ok_leaves(1) by (auto simp: range_req_def homogeneous_def)
  then have ne: "?L \<noteq> []" using assms(1) by (cases rs) auto
  then obtain cbs where cbs: "shared_callback (map (cb_at ?h) ?L) = Some cbs" "shared_cbs cbs = map (cb_at ?h) ?L"
    using shared_callback_Some [of "map (cb_at ?h) ?L"] by auto
  have key: "rkey ?hs ?h c = (Some t, Some (take 32 d))" if c: "c \<in> set ?L" for c
  proof -
    obtain r where r: "r \<in> set rs" "c \<in> set (leaf_addrs ?h r)" using c by auto
    have "rkey ?hs ?h c = rkey ?hs ?h r" using assms(2) [OF r(1)] by (rule range_reqD) (use r(2) in blast)
    then show ?thesis using assms(3) [OF r(1)] x(5) by simp
  qed
  let ?k = "\<lparr>ic_type = t, ic_handle = k, ic_extents = map (entry_at ?h) ?L, ic_hint = rhint (range_fields x), ic_cbs = cbs\<rparr>"
  have "rs_issue rs s = Some (s\<lparr>rs_calls := rs_calls s @ [?k]\<rparr>)"
    using issue_arrays_Some [of rs ?hs ?h] assms(2) x cbs(1) by (simp add: rs_issue_def heap_read_def)
  moreover have "call_items ?hs ?k = map (leaf_item ?hs ?h) ?L"
  proof -
    have "call_items ?hs ?k = map (\<lambda>c. ((Some t, Some (take 32 d)), entry_at ?h c, cb_at ?h c)) ?L"
      using cbs(2) x(4) by (simp only: call_items_def zip_map_same map_map comp_def io_call.select_convs option.map)
    also have "\<dots> = map (leaf_item ?hs ?h) ?L"
      unfolding leaf_item_def by (rule map_cong [OF refl]) (simp only: key)
    finally show ?thesis .
  qed
  ultimately show ?thesis using cbs(2) by (intro exI [of _ ?k]) simp
qed

text \<open>Freeing a batch of apart ranges frees exactly their objects.\<close>

lemma delete_loop_Some:
  assumes "sorted_wrt (\<lambda>a b. range_own h a \<inter> range_own h b = {}) rs" "\<And>r. r \<in> set rs \<Longrightarrow> range_ok h r"
  shows "delete_loop rs h = Some (h\<lparr>hp_objs := hp_objs h |` (- (\<Union>r \<in> set rs. range_own h r))\<rparr>)"
  using assms
proof (induction rs arbitrary: h)
  case Nil
  then show ?case by (simp add: restrict_map_def)
next
  case (Cons r rs)
  let ?h = "h\<lparr>hp_objs := hp_objs h |` (- range_own h r)\<rparr>"
  have 1: "delete_range r h = Some ?h" using delete_range_Some [of h r] Cons.prems(2) by (simp add: range_own_def)
  have same: "hp_objs ?h a = hp_objs h a" if "b \<in> set rs" "a \<in> range_own h b" for a b
  proof -
    have "range_own h r \<inter> range_own h b = {}" using Cons.prems(1) that(1) by simp
    then have "a \<notin> range_own h r" using that(2) by blast
    then show ?thesis by simp
  qed
  have own: "range_own ?h b = range_own h b" if "b \<in> set rs" for b
    using range_req_frame(4) [of h b ?h] same [OF that] by simp
  have "range_ok ?h b" if "b \<in> set rs" for b
  proof -
    have "same_range h ?h b" unfolding same_range_def using same [OF that] unfolding range_own_def by blast
    then show ?thesis using same_rangeD(4) Cons.prems(2) that by simp
  qed
  moreover have "sorted_wrt (\<lambda>a b. range_own ?h a \<inter> range_own ?h b = {}) rs"
    by (rule sorted_wrt_mono_rel [of rs "\<lambda>a b. range_own h a \<inter> range_own h b = {}"])
      (use Cons.prems(1) own in simp_all)
  ultimately have "delete_loop rs ?h = Some (?h\<lparr>hp_objs := hp_objs ?h |` (- (\<Union>r \<in> set rs. range_own ?h r))\<rparr>)"
    by (rule Cons.IH [rotated])
  moreover have "(\<Union>r \<in> set rs. range_own ?h r) = (\<Union>r \<in> set rs. range_own h r)" using own by simp
  moreover have "hp_objs h |` (- range_own h r) |` (- (\<Union>r \<in> set rs. range_own h r)) =
      hp_objs h |` (- (\<Union>r \<in> set (r # rs). range_own h r))"
    by (auto simp: restrict_map_def fun_eq_iff)
  ultimately show ?case using 1 by simp
qed

subsection \<open>A run over any range scheduler\<close>

text \<open>The ranges the scheduling thread holds: live, apart, usable, and none of them in the range scheduler.\<close>

definition held_ok :: "(addr \<rightharpoonup> 8 word list) \<Rightarrow> range_heap \<Rightarrow> addr set \<Rightarrow> addr list \<Rightarrow> bool" where
  "held_ok hs h own rs \<longleftrightarrow> (\<Union>r \<in> set rs. range_own h r) \<subseteq> dom (hp_objs h) - own \<and>
     sorted_wrt (\<lambda>a b. range_own h a \<inter> range_own h b = {}) rs \<and> (\<forall>r \<in> set rs. range_req hs h r)"

definition sched_ok ::
  "(range_heap \<Rightarrow> 'q \<Rightarrow> bool) \<Rightarrow> (range_heap \<Rightarrow> 'q \<Rightarrow> addr set) \<Rightarrow> (range_heap \<Rightarrow> 'q \<Rightarrow> addr multiset) \<Rightarrow>
   'q req_sched \<Rightarrow> addr list \<Rightarrow> bool" where
  "sched_ok q_inv q_own q_pending s rs \<longleftrightarrow> heap_ok (rs_ranges s) \<and> q_inv (rs_ranges s) (range_sched s) \<and>
     (\<forall>c. c \<in># q_pending (rs_ranges s) (range_sched s) \<longrightarrow> request_ok (rs_handles s) (rs_ranges s) c) \<and>
     held_ok (rs_handles s) (rs_ranges s) (q_own (rs_ranges s) (range_sched s)) rs"

definition same_keys :: "(addr \<rightharpoonup> 8 word list) \<Rightarrow> range_heap \<Rightarrow> addr list \<Rightarrow> bool" where
  "same_keys hs h rs \<longleftrightarrow> (\<exists>k. \<forall>r \<in> set rs. rkey hs h r = k)"

lemma same_keys_hd: "same_keys hs h rs \<Longrightarrow> r \<in> set rs \<Longrightarrow> rkey hs h r = rkey hs h (hd rs)"
  unfolding same_keys_def by (metis list.set_sel(1) empty_iff list.set(1))

fun opt_list :: "'a option \<Rightarrow> 'a list" where
  "opt_list None = []"
| "opt_list (Some r) = [r]"

lemma request_ok_leaf: "request_ok hs h c \<Longrightarrow> leaf_ok h c"
  by (auto simp: request_ok_def leaf_ok_def)

lemma request_ok_frame: "hp_objs h' c = hp_objs h c \<Longrightarrow> request_ok hs h' c = request_ok hs h c"
  by (simp add: request_ok_def)

lemma sorted_wrt_own_frame:
  assumes "\<And>r. r \<in> set rs \<Longrightarrow> range_own h' r = range_own h r"
  shows "sorted_wrt (\<lambda>a b. range_own h' a \<inter> range_own h' b = {}) rs =
    sorted_wrt (\<lambda>a b. range_own h a \<inter> range_own h b = {}) rs"
  using assms by (induction rs) simp_all

lemma held_ok_frame:
  assumes "held_ok hs h own rs" "\<forall>r \<in> set rs. \<forall>a \<in> range_own h r. hp_objs h' a = hp_objs h a \<and> a \<notin> own'"
  shows "held_ok hs h' own' rs" "\<And>r. r \<in> set rs \<Longrightarrow> range_own h' r = range_own h r"
    "\<And>r. r \<in> set rs \<Longrightarrow> leaf_addrs h' r = leaf_addrs h r" "\<And>r. r \<in> set rs \<Longrightarrow> rkey hs h' r = rkey hs h r"
proof -
  have same: "hp_objs h' a = hp_objs h a" if "r \<in> set rs" "a \<in> range_own h r" for a r
    using assms(2) that by blast
  show own: "range_own h' r = range_own h r" if "r \<in> set rs" for r
    using range_req_frame(4) same [OF that] by blast
  show "leaf_addrs h' r = leaf_addrs h r" if "r \<in> set rs" for r
    using range_req_frame(3) same [OF that] by blast
  show "rkey hs h' r = rkey hs h r" if "r \<in> set rs" for r
    using range_req_frame(2) same [OF that] by blast
  have req: "range_req hs h' r" if "r \<in> set rs" for r
    using range_req_frame(1) [of h r h' hs] same [OF that] assms(1) that by (simp add: held_ok_def)
  have dom: "a \<in> dom (hp_objs h') - own'" if "r \<in> set rs" "a \<in> range_own h' r" for a r
  proof -
    have "a \<in> range_own h r" using own that by simp
    moreover from this have "a \<in> dom (hp_objs h)" using assms(1) that(1) by (auto simp: held_ok_def)
    moreover have "hp_objs h' a = hp_objs h a \<and> a \<notin> own'" using assms(2) that(1) calculation(1) by blast
    ultimately show ?thesis by auto
  qed
  have "sorted_wrt (\<lambda>a b. range_own h' a \<inter> range_own h' b = {}) rs"
    using assms(1) sorted_wrt_own_frame [of rs h' h, OF own] by (simp add: held_ok_def)
  then show "held_ok hs h' own' rs" unfolding held_ok_def using req dom by blast
qed

context range_scheduler
begin

abbreviation s_ok :: "'q req_sched \<Rightarrow> addr list \<Rightarrow> bool" where
  "s_ok \<equiv> sched_ok q_inv q_own q_pending"

abbreviation pend :: "'q req_sched \<Rightarrow> addr multiset" where
  "pend s \<equiv> q_pending (rs_ranges s) (range_sched s)"

text \<open>Taking one range out of the range scheduler.\<close>

lemma take_one:
  assumes "s_ok s rs" "\<not> rsched_empty ops (range_sched s)"
  shows "\<exists>h q r. rsched_dequeue ops (rs_ranges s) (range_sched s) = Some (h, q, Some r) \<and>
    s_ok (s\<lparr>rs_ranges := h, range_sched := q\<rparr>) (rs @ [r]) \<and> pend s = mset (leaf_addrs h r) + q_pending h q \<and>
    (\<forall>b \<in> set rs. leaf_addrs h b = leaf_addrs (rs_ranges s) b \<and> rkey (rs_handles s) h b = rkey (rs_handles s) (rs_ranges s) b) \<and>
    (\<forall>c. leaf_ok (rs_ranges s) c \<longrightarrow> hp_objs h c = hp_objs (rs_ranges s) c)"
proof -
  let ?h = "rs_ranges s" and ?q = "range_sched s" and ?hs = "rs_handles s"
  define C where "C = (\<Union>r \<in> set rs. range_own ?h r)"
  have ok: "heap_ok ?h" "q_inv ?h ?q" "\<And>c. c \<in># pend s \<Longrightarrow> request_ok ?hs ?h c" "held_ok ?hs ?h (q_own ?h ?q) rs"
    using assms(1) by (simp_all add: sched_ok_def)
  have "clients ?h (q_own ?h ?q) C []" using ok(4) by (simp add: clients_def submittable_def held_ok_def C_def)
  from deq_step [OF ok(1,2) this assms(2)]
  obtain h q r where 1: "rsched_dequeue ops ?h ?q = Some (h, q, Some r)" "heap_ok h" "q_inv h q"
    "pend s = mset (leaf_addrs h r) + q_pending h q" "homogeneous h r"
    "clients h (q_own h q) (C \<union> range_own h r) []" "range_own h r \<inter> C = {}"
    "\<forall>a \<in> C. hp_objs h a = hp_objs ?h a" "\<forall>c. leaf_ok ?h c \<longrightarrow> hp_objs h c = hp_objs ?h c"
    by blast
  have sub: "C \<union> range_own h r \<subseteq> dom (hp_objs h) - q_own h q" using 1(6) by (simp add: clients_def)
  have "\<forall>r \<in> set rs. \<forall>a \<in> range_own ?h r. hp_objs h a = hp_objs ?h a \<and> a \<notin> q_own h q"
    using 1(8) sub unfolding C_def by blast
  note held = held_ok_frame [OF ok(4) this]
  have req: "request_ok ?hs h c" if "c \<in># pend s" for c
  proof -
    have "hp_objs h c = hp_objs ?h c" using 1(9) request_ok_leaf [OF ok(3) [OF that]] by blast
    then show ?thesis using request_ok_frame ok(3) [OF that] by blast
  qed
  have "range_req ?hs h r" using 1(4,5) req by (simp add: range_req_def)
  moreover have "range_own h b \<inter> range_own h r = {}" if "b \<in> set rs" for b
    unfolding held(2) [OF that] using 1(7) that unfolding C_def by blast
  moreover have "range_own h r \<subseteq> dom (hp_objs h) - q_own h q" using sub by blast
  ultimately have "held_ok ?hs h (q_own h q) (rs @ [r])"
    using held(1) by (simp add: held_ok_def sorted_wrt_append)
  then have "s_ok (s\<lparr>rs_ranges := h, range_sched := q\<rparr>) (rs @ [r])"
    using 1(2-4) req by (simp add: sched_ok_def)
  moreover have "\<forall>b \<in> set rs. leaf_addrs h b = leaf_addrs ?h b \<and> rkey ?hs h b = rkey ?hs ?h b"
    using held(3,4) by simp
  ultimately show ?thesis
    by (intro exI [of _ h] exI [of _ q] exI [of _ r] conjI 1(1,4,9))
qed

text \<open>
  Filling a batch ends, and moves requests from the range scheduler into the batch without losing
  or changing any; the batch stays uniform, and the range that ended it, if any, is kept aside.
\<close>

definition filled :: "'q req_sched \<Rightarrow> addr list \<Rightarrow> int \<Rightarrow> 'q req_sched \<Rightarrow> addr list \<Rightarrow> addr option \<Rightarrow> bool" where
  "filled s rs cur s' rs' tmp \<longleftrightarrow>
     s' = s\<lparr>rs_ranges := rs_ranges s', range_sched := range_sched s'\<rparr> \<and> s_ok s' (rs' @ opt_list tmp) \<and>
     same_keys (rs_handles s) (rs_ranges s') rs' \<and>
     pend s + mset (all_leaves (rs_ranges s) rs) = pend s' + mset (all_leaves (rs_ranges s') (rs' @ opt_list tmp)) \<and>
     (\<forall>c. leaf_ok (rs_ranges s) c \<longrightarrow> hp_objs (rs_ranges s') c = hp_objs (rs_ranges s) c) \<and>
     (rs \<noteq> [] \<or> cur < batch_size s \<and> pend s \<noteq> {#} \<longrightarrow> rs' \<noteq> []) \<and> (tmp \<noteq> None \<longrightarrow> rs' \<noteq> [])"

lemma filled_refl:
  assumes "s_ok s rs" "same_keys (rs_handles s) (rs_ranges s) rs" "rs = [] \<Longrightarrow> cur < batch_size s \<Longrightarrow> pend s = {#}"
  shows "filled s rs cur s rs None"
  using assms by (auto simp: filled_def)

lemma fill_loop_Some:
  assumes "s_ok s rs" "same_keys (rs_handles s) (rs_ranges s) rs"
  shows "\<exists>s' rs' cur' tmp. fill_loop ops rs cur s = Some (s', rs', cur', tmp) \<and> filled s rs cur s' rs' tmp"
  using assms
proof (induction "size (pend s)" arbitrary: s rs cur rule: less_induct)
  case less
  let ?hs = "rs_handles s"
  have inv: "q_inv (rs_ranges s) (range_sched s)" using less.prems(1) by (simp add: sched_ok_def)
  show ?case
  proof (cases "cur < batch_size s \<and> \<not> rsched_empty ops (range_sched s)")
    case False
    then have "fill_loop ops rs cur s = Some (s, rs, cur, None)" by (subst fill_loop.simps) auto
    moreover have "filled s rs cur s rs None"
      using filled_refl [OF less.prems] False empty_iff [OF inv] by auto
    ultimately show ?thesis by blast
  next
    case True
    from take_one [OF less.prems(1)] True
    obtain h q r where 1: "rsched_dequeue ops (rs_ranges s) (range_sched s) = Some (h, q, Some r)"
      "s_ok (s\<lparr>rs_ranges := h, range_sched := q\<rparr>) (rs @ [r])" "pend s = mset (leaf_addrs h r) + q_pending h q"
      "\<forall>b \<in> set rs. leaf_addrs h b = leaf_addrs (rs_ranges s) b \<and> rkey ?hs h b = rkey ?hs (rs_ranges s) b"
      "\<forall>c. leaf_ok (rs_ranges s) c \<longrightarrow> hp_objs h c = hp_objs (rs_ranges s) c"
      by blast
    let ?s = "s\<lparr>rs_ranges := h, range_sched := q\<rparr>"
    have "held_ok ?hs h (q_own h q) (rs @ [r])" using 1(2) by (simp add: sched_ok_def)
    then have req: "\<And>b. b \<in> set (rs @ [r]) \<Longrightarrow> range_req ?hs h b" unfolding held_ok_def by blast
    obtain x where x: "hp_objs h r = Some x" using req [of r] by (auto elim: range_reqD)
    have lv: "all_leaves h rs = all_leaves (rs_ranges s) rs" using 1(4) by (simp cong: map_cong)
    obtain k where k: "\<forall>b \<in> set rs. rkey ?hs h b = k" using less.prems(2) 1(4) unfolding same_keys_def by metis
    then have keys: "same_keys ?hs h rs" unfolding same_keys_def by blast
    have leaves: "leaf_addrs h r \<noteq> []"
      using req [of r] range_ok_leaves(1) by (simp add: range_req_def homogeneous_def)
    define stop where "stop = (rs \<noteq> [] \<and> rkey ?hs h r \<noteq> rkey ?hs h (last rs))"
    have stop: "(if rs = [] then Some False else breaks_batch ?hs h r (last rs)) = Some stop"
      using breaks_batch_Some [of ?hs h r "last rs"] req by (simp add: stop_def)
    have unfold: "fill_loop ops rs cur s =
        (if stop then Some (?s, rs, cur, Some r) else fill_loop ops (rs @ [r]) (cur + int (nranges x)) ?s)"
      unfolding fill_loop.simps [of ops rs cur s] using True 1(1) x stop by (cases "rs = []") (simp_all add: heap_read_def Let_def)
    show ?thesis
    proof (cases stop)
      case True
      then have "filled s rs cur ?s rs (Some r)"
        using 1 keys lv by (simp add: filled_def stop_def)
      then show ?thesis using unfold True by auto
    next
      case False
      have "rs \<noteq> [] \<longrightarrow> rkey ?hs h r = k" using False k last_in_set [of rs] unfolding stop_def by auto
      then have "\<forall>b \<in> set (rs @ [r]). rkey ?hs h b = (if rs = [] then rkey ?hs h r else k)" using k by simp
      then have same: "same_keys (rs_handles ?s) (rs_ranges ?s) (rs @ [r])" unfolding same_keys_def by auto
      have "size (pend ?s) < size (pend s)" using 1(3) leaves by simp
      from less.hyps [OF this 1(2) same, of "cur + int (nranges x)"]
      obtain s' rs' cur' tmp where
        2: "fill_loop ops (rs @ [r]) (cur + int (nranges x)) ?s = Some (s', rs', cur', tmp)"
        "filled ?s (rs @ [r]) (cur + int (nranges x)) s' rs' tmp"
        by blast
      have "hp_objs (rs_ranges s') c = hp_objs (rs_ranges s) c" if "leaf_ok (rs_ranges s) c" for c
      proof -
        have "hp_objs h c = hp_objs (rs_ranges s) c" using 1(5) that by blast
        moreover from this have "leaf_ok h c" using that by (simp add: leaf_ok_def)
        ultimately show ?thesis using 2(2) by (simp add: filled_def)
      qed
      moreover have "pend s + mset (all_leaves (rs_ranges s) rs) = pend ?s + mset (all_leaves h (rs @ [r]))"
        using 1(3) lv by simp
      ultimately have "filled s rs cur s' rs' tmp" using 2(2) by (simp add: filled_def)
      then show ?thesis using unfold False 2(1) by auto
    qed
  qed
qed

text \<open>
  Issuing a batch cannot fail an assertion. It makes one call with the batch's extents, and the
  requests that are not in the batch stay as they are.
\<close>

lemma run_issue_Some:
  assumes "s_ok s (rs @ opt_list tmp)" "rs \<noteq> []" "same_keys (rs_handles s) (rs_ranges s) rs"
  shows "\<exists>s' k cur'. run_issue rs tmp s = Some (s', opt_list tmp, cur') \<and>
    s' = s\<lparr>rs_ranges := rs_ranges s', rs_calls := rs_calls s @ [k]\<rparr> \<and> s_ok s' (opt_list tmp) \<and>
    call_items (rs_handles s) k = map (leaf_item (rs_handles s) (rs_ranges s)) (all_leaves (rs_ranges s) rs) \<and>
    shared_cbs (ic_cbs k) = map (cb_at (rs_ranges s)) (all_leaves (rs_ranges s) rs) \<and> pend s' = pend s \<and>
    all_leaves (rs_ranges s') (opt_list tmp) = all_leaves (rs_ranges s) (opt_list tmp) \<and>
    (\<forall>c. c \<in># pend s + mset (all_leaves (rs_ranges s) (opt_list tmp)) \<longrightarrow>
       hp_objs (rs_ranges s') c = hp_objs (rs_ranges s) c) \<and> (tmp = None \<longrightarrow> cur' = 0)"
proof -
  let ?h = "rs_ranges s" and ?q = "range_sched s" and ?hs = "rs_handles s"
  define C where "C = (\<Union>r \<in> set rs. range_own ?h r)"
  define h where "h = ?h\<lparr>hp_objs := hp_objs ?h |` (- C)\<rparr>"
  have ok: "heap_ok ?h" "q_inv ?h ?q" "\<And>c. c \<in># pend s \<Longrightarrow> request_ok ?hs ?h c"
    "held_ok ?hs ?h (q_own ?h ?q) (rs @ opt_list tmp)"
    using assms(1) by (simp_all add: sched_ok_def)
  then have held: "sorted_wrt (\<lambda>a b. range_own ?h a \<inter> range_own ?h b = {}) rs"
    "\<And>r. r \<in> set rs \<Longrightarrow> range_req ?hs ?h r" "C \<inter> q_own ?h ?q = {}"
    "held_ok ?hs ?h (q_own ?h ?q) (opt_list tmp)"
    "\<And>a b. a \<in> set rs \<Longrightarrow> b \<in> set (opt_list tmp) \<Longrightarrow> range_own ?h a \<inter> range_own ?h b = {}"
    unfolding held_ok_def C_def by (auto simp: sorted_wrt_append)
  have chk: "check_ranges ?hs ?h rs = Some ()"
    by (rule check_ranges_Some) (use held(2) same_keys_hd [OF assms(3)] in blast)+
  have "\<exists>k. rs_issue rs s = Some (s\<lparr>rs_calls := rs_calls s @ [k]\<rparr>) \<and>
      call_items ?hs k = map (leaf_item ?hs ?h) (all_leaves ?h rs) \<and>
      shared_cbs (ic_cbs k) = map (cb_at ?h) (all_leaves ?h rs)"
    by (rule rs_issue_Some) (use assms(2) held(2) same_keys_hd [OF assms(3)] in blast)+
  then obtain k where k: "rs_issue rs s = Some (s\<lparr>rs_calls := rs_calls s @ [k]\<rparr>)"
    "call_items ?hs k = map (leaf_item ?hs ?h) (all_leaves ?h rs)" "shared_cbs (ic_cbs k) = map (cb_at ?h) (all_leaves ?h rs)"
    by blast
  have del: "delete_loop rs ?h = Some h"
    unfolding h_def C_def using delete_loop_Some [OF held(1)] held(2) by (simp add: range_req_def homogeneous_def)
  have same: "hp_objs h a = hp_objs ?h a" if "a \<notin> C" for a using that by (simp add: h_def)
  have q: "q_own h ?q = q_own ?h ?q" "q_pending h ?q = q_pending ?h ?q" "q_inv h ?q"
  proof -
    have "\<forall>a \<in> q_own ?h ?q. hp_objs h a = hp_objs ?h a" using same held(3) by blast
    from frame [OF this] show "q_own h ?q = q_own ?h ?q" "q_pending h ?q = q_pending ?h ?q" "q_inv h ?q"
      using ok(2) by simp_all
  qed
  have "\<forall>b \<in> set (opt_list tmp). \<forall>a \<in> range_own ?h b. hp_objs h a = hp_objs ?h a \<and> a \<notin> q_own h ?q"
  proof (intro ballI)
    fix b a assume *: "b \<in> set (opt_list tmp)" "a \<in> range_own ?h b"
    then have "a \<notin> C" using held(5) unfolding C_def by blast
    moreover have "a \<notin> q_own ?h ?q" using held(4) * unfolding held_ok_def by blast
    ultimately show "hp_objs h a = hp_objs ?h a \<and> a \<notin> q_own h ?q" using same q(1) by simp
  qed
  note tmp = held_ok_frame [OF held(4) this]
  have pend_out: "c \<notin> C" if "c \<in># pend s" for c
    using own_pending [OF ok(2) request_ok_leaf [OF ok(3)]] that held(3) by blast
  have tmp_out: "c \<notin> C" if c: "c \<in> set (all_leaves ?h (opt_list tmp))" for c
  proof -
    obtain b where "b \<in> set (opt_list tmp)" "c \<in> range_own ?h b" using c unfolding range_own_def by auto
    then show ?thesis using held(5) unfolding C_def by blast
  qed
  have keep: "hp_objs h c = hp_objs ?h c" if "c \<in># pend s + mset (all_leaves ?h (opt_list tmp))" for c
  proof -
    have "c \<notin> C" using that pend_out [of c] tmp_out [of c] unfolding union_iff set_mset_mset by blast
    then show ?thesis by (rule same)
  qed
  let ?s = "s\<lparr>rs_ranges := h, rs_calls := rs_calls s @ [k]\<rparr>"
  have "request_ok ?hs h c" if "c \<in># pend s" for c
    using request_ok_frame [OF keep, of c ?hs] ok(3) [OF that] that by simp
  moreover have "heap_ok h" using ok(1) unfolding h_def heap_ok_def by simp
  ultimately have ok': "s_ok ?s (opt_list tmp)" using q tmp(1) by (simp add: sched_ok_def)
  have "\<exists>cur'. run_issue rs tmp s = Some (?s, opt_list tmp, cur') \<and> (tmp = None \<longrightarrow> cur' = 0)"
  proof (cases tmp)
    case None
    then show ?thesis
      using chk k(1) del by (simp add: run_issue_def Let_def)
  next
    case (Some r)
    then have "range_req ?hs h r" using tmp(1) by (simp add: held_ok_def)
    then obtain x where "hp_objs h r = Some x" by (rule range_reqD)
    then show ?thesis
      using chk k(1) del Some by (simp add: run_issue_def Let_def heap_read_def)
  qed
  then obtain cur' where cur: "run_issue rs tmp s = Some (?s, opt_list tmp, cur')" "tmp = None \<longrightarrow> cur' = 0" by blast
  have lv: "all_leaves h (opt_list tmp) = all_leaves ?h (opt_list tmp)" using tmp(3) by (simp cong: map_cong)
  show ?thesis
    by (intro exI [of _ ?s] exI [of _ k] exI [of _ cur'] conjI)
      (simp_all add: cur ok' k(2,3) q(2) keep lv del: map_append concat_append)
qed

text \<open>The requests that are queued or held, as what they will contribute to calls.\<close>

definition items :: "'q req_sched \<Rightarrow> addr list \<Rightarrow> io_item multiset" where
  "items s rs = image_mset (leaf_item (rs_handles s) (rs_ranges s)) (pend s + mset (all_leaves (rs_ranges s) rs))"

lemma held_leaf:
  assumes "s_ok s rs" "c \<in># pend s + mset (all_leaves (rs_ranges s) rs)"
  shows "request_ok (rs_handles s) (rs_ranges s) c"
proof (cases "c \<in># pend s")
  case True
  then show ?thesis using assms(1) by (simp add: sched_ok_def)
next
  case False
  then obtain r where "r \<in> set rs" "c \<in> set (leaf_addrs (rs_ranges s) r)" using assms(2) by auto
  then show ?thesis using assms(1) unfolding sched_ok_def held_ok_def range_req_def by blast
qed

lemma filled_items:
  assumes "filled s rs cur s' rs' tmp" "s_ok s rs"
  shows "items s' (rs' @ opt_list tmp) = items s rs"
proof -
  have "leaf_item (rs_handles s) (rs_ranges s') c = leaf_item (rs_handles s) (rs_ranges s) c"
    if "c \<in># pend s + mset (all_leaves (rs_ranges s) rs)" for c
    using leaf_item_frame request_ok_leaf [OF held_leaf [OF assms(2) that]] assms(1) unfolding filled_def by blast
  then have "image_mset (leaf_item (rs_handles s) (rs_ranges s')) (pend s + mset (all_leaves (rs_ranges s) rs)) = items s rs"
    unfolding items_def by (rule image_mset_cong)
  moreover have "s' = s\<lparr>rs_ranges := rs_ranges s', range_sched := range_sched s'\<rparr>"
    using assms(1) unfolding filled_def by (elim conjE)
  from arg_cong [OF this, of rs_handles] have "rs_handles s' = rs_handles s" by simp
  moreover have "pend s + mset (all_leaves (rs_ranges s) rs) = pend s' + mset (all_leaves (rs_ranges s') (rs' @ opt_list tmp))"
    using assms(1) unfolding filled_def by (elim conjE)
  ultimately show ?thesis unfolding items_def by (simp only:)
qed

text \<open>One issued batch, in terms of what is still to be issued.\<close>

lemma run_issue_items:
  assumes "s_ok s (rs @ opt_list tmp)" "rs \<noteq> []" "same_keys (rs_handles s) (rs_ranges s) rs"
  shows "\<exists>h k cur'. run_issue rs tmp s = Some (s\<lparr>rs_ranges := h, rs_calls := rs_calls s @ [k]\<rparr>, opt_list tmp, cur') \<and>
    s_ok (s\<lparr>rs_ranges := h, rs_calls := rs_calls s @ [k]\<rparr>) (opt_list tmp) \<and>
    items s (rs @ opt_list tmp) =
      mset (call_items (rs_handles s) k) + items (s\<lparr>rs_ranges := h, rs_calls := rs_calls s @ [k]\<rparr>) (opt_list tmp) \<and>
    call_items (rs_handles s) k \<noteq> [] \<and> map (snd \<circ> snd) (call_items (rs_handles s) k) = shared_cbs (ic_cbs k) \<and>
    (tmp = None \<longrightarrow> cur' = 0)"
proof -
  let ?hs = "rs_handles s" and ?L = "all_leaves (rs_ranges s)"
  from run_issue_Some [OF assms] obtain s' k cur' where 1: "run_issue rs tmp s = Some (s', opt_list tmp, cur')"
    "s' = s\<lparr>rs_ranges := rs_ranges s', rs_calls := rs_calls s @ [k]\<rparr>" "s_ok s' (opt_list tmp)"
    "call_items ?hs k = map (leaf_item ?hs (rs_ranges s)) (?L rs)" "shared_cbs (ic_cbs k) = map (cb_at (rs_ranges s)) (?L rs)"
    "pend s' = pend s" "all_leaves (rs_ranges s') (opt_list tmp) = ?L (opt_list tmp)"
    "\<forall>c. c \<in># pend s + mset (?L (opt_list tmp)) \<longrightarrow> hp_objs (rs_ranges s') c = hp_objs (rs_ranges s) c"
    "tmp = None \<longrightarrow> cur' = 0"
    by (elim exE conjE) blast
  define h where "h = rs_ranges s'"
  have s': "s' = s\<lparr>rs_ranges := h, rs_calls := rs_calls s @ [k]\<rparr>" using 1(2) unfolding h_def .
  have "leaf_item ?hs h c = leaf_item ?hs (rs_ranges s) c" if "c \<in># pend s + mset (?L (opt_list tmp))" for c
    using leaf_item_frame 1(8) that unfolding h_def by blast
  then have "image_mset (leaf_item ?hs h) (pend s + mset (?L (opt_list tmp))) =
      image_mset (leaf_item ?hs (rs_ranges s)) (pend s + mset (?L (opt_list tmp)))"
    by (rule image_mset_cong)
  moreover have "rs_handles s' = ?hs" using arg_cong [OF s', of rs_handles] by simp
  ultimately have "items s' (opt_list tmp) = image_mset (leaf_item ?hs (rs_ranges s)) (pend s + mset (?L (opt_list tmp)))"
    unfolding items_def using 1(6,7) by (simp only: h_def)
  then have "items s (rs @ opt_list tmp) = mset (call_items ?hs k) + items s' (opt_list tmp)"
    unfolding 1(4) by (simp add: items_def)
  moreover have "hd rs \<in> set (rs @ opt_list tmp)" using assms(2) by simp
  then have "range_req ?hs (rs_ranges s) (hd rs)" using assms(1) unfolding sched_ok_def held_ok_def by blast
  then have "leaf_addrs (rs_ranges s) (hd rs) \<noteq> []" using range_ok_leaves(1) by (simp add: range_req_def homogeneous_def)
  then have "call_items ?hs k \<noteq> []" unfolding 1(4) using assms(2) by (cases rs) auto
  moreover have "map (snd \<circ> snd) (call_items ?hs k) = shared_cbs (ic_cbs k)"
    unfolding 1(4,5) by (simp add: leaf_item_def comp_def)
  ultimately show ?thesis using 1(1,3,9) unfolding s' by blast
qed

text \<open>
  A run without waiting ends, and when it returns everything that was queued has been issued, each
  request exactly once.
\<close>

lemma run_loop_Some:
  assumes "s_ok s rs" "same_keys (rs_handles s) (rs_ranges s) rs" "0 < batch_size s" "\<not> exiting s" "rs = [] \<longrightarrow> cur = 0"
  shows "\<exists>s' ks. run_loop ops False rs cur s = Some s' \<and> s_ok s' [] \<and> pend s' = {#} \<and> \<not> schedActive s' \<and>
    rs_calls s' = rs_calls s @ ks \<and> mset (concat (map (call_items (rs_handles s)) ks)) = items s rs \<and>
    rs_io s' = rs_io s \<and> rs_pool s' = rs_pool s \<and> rs_handles s' = rs_handles s"
  using assms
proof (induction "size (items s rs)" arbitrary: s rs cur rule: less_induct)
  case less
  let ?hs = "rs_handles s"
  have inv: "q_inv (rs_ranges s) (range_sched s)" using less.prems(1) by (simp add: sched_ok_def)
  show ?case
  proof (cases "rs = [] \<and> pend s = {#}")
    case True
    then have "wait_loop ops False rs s = Some (s\<lparr>schedActive := False\<rparr>, True)"
      using empty_iff [OF inv] less.prems(4) by (simp add: wait_loop.simps)
    then have "run_loop ops False rs cur s = Some (s\<lparr>schedActive := False\<rparr>)"
      by (simp add: run_loop.simps [of ops False rs cur s] run_locked_def)
    then show ?thesis using True less.prems(1) by (simp add: items_def sched_ok_def)
  next
    case False
    then have wait: "wait_loop ops False rs s = Some (s, False)"
      using empty_iff [OF inv] less.prems(4) by (auto simp: wait_loop.simps)
    from fill_loop_Some [OF less.prems(1,2), of cur]
    obtain s1 rs1 cur1 tmp where 1: "fill_loop ops rs cur s = Some (s1, rs1, cur1, tmp)" "filled s rs cur s1 rs1 tmp"
      by blast
    have f: "s1 = s\<lparr>rs_ranges := rs_ranges s1, range_sched := range_sched s1\<rparr>" "s_ok s1 (rs1 @ opt_list tmp)"
      "same_keys ?hs (rs_ranges s1) rs1" "rs \<noteq> [] \<or> cur < batch_size s \<and> pend s \<noteq> {#} \<longrightarrow> rs1 \<noteq> []"
      using 1(2) unfolding filled_def by blast+
    have s1: "rs_handles s1 = ?hs" "batch_size s1 = batch_size s" "exiting s1 = exiting s" "rs_calls s1 = rs_calls s"
      "rs_io s1 = rs_io s" "rs_pool s1 = rs_pool s"
      by (subst f(1), simp)+
    have ne: "rs1 \<noteq> []" using f(4) False less.prems(3,5) by auto
    have sk1: "same_keys (rs_handles s1) (rs_ranges s1) rs1" using f(3) s1(1) by simp
    from run_issue_items [OF f(2) ne sk1]
    obtain h k cur2 where 2: "run_issue rs1 tmp s1 = Some (s1\<lparr>rs_ranges := h, rs_calls := rs_calls s1 @ [k]\<rparr>, opt_list tmp, cur2)"
      "s_ok (s1\<lparr>rs_ranges := h, rs_calls := rs_calls s1 @ [k]\<rparr>) (opt_list tmp)"
      "items s1 (rs1 @ opt_list tmp) =
        mset (call_items ?hs k) + items (s1\<lparr>rs_ranges := h, rs_calls := rs_calls s1 @ [k]\<rparr>) (opt_list tmp)"
      "call_items ?hs k \<noteq> []" "tmp = None \<longrightarrow> cur2 = 0"
      unfolding s1(1) by blast
    let ?s2 = "s1\<lparr>rs_ranges := h, rs_calls := rs_calls s1 @ [k]\<rparr>"
    have it: "items s rs = mset (call_items ?hs k) + items ?s2 (opt_list tmp)"
      using 2(3) filled_items [OF 1(2) less.prems(1)] by simp
    have unfold: "run_loop ops False rs cur s = run_loop ops False (opt_list tmp) cur2 ?s2"
      using wait 1(1) 2(1) ne by (simp add: run_loop.simps [of ops False rs cur s] run_locked_def)
    have "size (items ?s2 (opt_list tmp)) < size (items s rs)" unfolding it using 2(4) by simp
    moreover have "same_keys (rs_handles ?s2) (rs_ranges ?s2) (opt_list tmp)"
      by (cases tmp) (auto simp: same_keys_def)
    moreover have "0 < batch_size ?s2" "\<not> exiting ?s2" using s1 less.prems(3,4) by simp_all
    moreover have "opt_list tmp = [] \<longrightarrow> cur2 = 0" using 2(5) by (cases tmp) auto
    ultimately obtain s' ks where 3: "run_loop ops False (opt_list tmp) cur2 ?s2 = Some s'" "s_ok s' []" "pend s' = {#}"
      "\<not> schedActive s'" "rs_calls s' = rs_calls ?s2 @ ks"
      "mset (concat (map (call_items (rs_handles ?s2)) ks)) = items ?s2 (opt_list tmp)"
      "rs_io s' = rs_io ?s2" "rs_pool s' = rs_pool ?s2" "rs_handles s' = rs_handles ?s2"
      using less.hyps [of ?s2 "opt_list tmp" cur2] 2(2) by blast
    have "mset (concat (map (call_items ?hs) (k # ks))) = items s rs" using it 3(6) s1(1) by simp
    moreover have "rs_calls s' = rs_calls s @ k # ks" using 3(5) s1(4) by simp
    ultimately show ?thesis using unfold 3 s1 by (intro exI [of _ s'] exI [of _ "k # ks"]) simp
  qed
qed

end

end
