(* ===== verification/Request_System.thy ===== *)
theory Request_System
  imports Request_Sched
begin

text \<open>
  The request scheduler with all its threads: callers that are in the middle of \<open>write\<close> or \<open>read\<close>,
  the thread that executes \<open>run\<close>, and completions of the calls it has issued. A step is a section
  that runs under \<open>lock_\<close>, or a section that touches only data no other thread can reach.
\<close>

subsection \<open>Steps\<close>

record caller =
  c_type :: RangeType
  c_handle :: addr
  c_hint :: addr
  c_wrapper :: addr
  c_rest :: "extent list"

text \<open>Where the scheduling thread is: not running, before the lock, or about to issue a batch.\<close>

datatype runner = Idle | Top "addr list" int | Issue "addr list" "addr option"

record 'q system =
  sys :: "'q req_sched"
  callers :: "caller list"
  runner :: runner
  opened :: "nat list"

fun held :: "runner \<Rightarrow> addr list" where
  "held Idle = []"
| "held (Top rs cur) = rs"
| "held (Issue rs tmp) = rs @ opt_list tmp"

text \<open>
  What \<open>write\<close> and \<open>read\<close> need of their arguments: a live handle, equal memory and file sizes, extents
  inside the file address space, and for \<open>read\<close> no empty extent. A request has something to transfer.
\<close>

definition good_extent :: "RangeType \<Rightarrow> extent \<Rightarrow> bool" where
  "good_extent t x \<longleftrightarrow> x_msize x = x_size x \<and> x_start x \<le> x_start x + x_size x \<and> (t = RANGE_READ \<longrightarrow> 0 < x_size x)"

abbreviation good_extents :: "RangeType \<Rightarrow> extent list \<Rightarrow> bool" where
  "good_extents t xs \<equiv> list_all (good_extent t) xs"

definition good_handle :: "addr \<Rightarrow> (addr \<rightharpoonup> 8 word list) \<Rightarrow> bool" where
  "good_handle handle hs \<longleftrightarrow> handle \<noteq> null \<and> hs handle \<noteq> None"

inductive sys_step :: "'q RangeScheduler \<Rightarrow> 'q system \<Rightarrow> 'q system \<Rightarrow> bool" for ops where
  Submit: "good_handle handle (rs_handles (sys c)) \<Longrightarrow> good_extents t xs \<Longrightarrow> 0 < valid_count xs \<Longrightarrow>
    rs_open t cb ret xs (sys c) = Some (w, s) \<Longrightarrow>
    sys_step ops c (c\<lparr>sys := s, opened := cb # opened c,
      callers := \<lparr>c_type = t, c_handle = handle, c_hint = hint, c_wrapper = w, c_rest = xs\<rparr> # callers c\<rparr>)"
| Extent: "callers c = ks @ k # ks' \<Longrightarrow> c_rest k = x # xs \<Longrightarrow>
    next_extent ops (c_type k) (c_handle k) (c_hint k) (c_wrapper k) x (sys c) = Some s \<Longrightarrow>
    sys_step ops c (c\<lparr>sys := s, callers := ks @ k\<lparr>c_rest := xs\<rparr> # ks'\<rparr>)"
| Start: "runner c = Idle \<Longrightarrow> rs_pool (sys c) = Suc n \<Longrightarrow>
    sys_step ops c (c\<lparr>sys := (sys c)\<lparr>rs_pool := n\<rparr>, runner := Top [] 0\<rparr>)"
| Return: "runner c = Top rs cur \<Longrightarrow> run_locked ops False rs cur (sys c) = Some (s, None) \<Longrightarrow>
    sys_step ops c (c\<lparr>sys := s, runner := Idle\<rparr>)"
| Batch: "runner c = Top rs cur \<Longrightarrow> run_locked ops False rs cur (sys c) = Some (s, Some (rs', cur', tmp)) \<Longrightarrow>
    sys_step ops c (c\<lparr>sys := s, runner := (if rs' = [] then Top [] cur' else Issue rs' tmp)\<rparr>)"
| Issued: "runner c = Issue rs tmp \<Longrightarrow> run_issue rs tmp (sys c) = Some (s, rs', cur') \<Longrightarrow>
    sys_step ops c (c\<lparr>sys := s, runner := Top rs' cur'\<rparr>)"
| Completed: "rs_complete i z (sys c) = Some s \<Longrightarrow> sys_step ops c (c\<lparr>sys := s\<rparr>)"
| Shutdown: "sys_step ops c (c\<lparr>sys := (sys c)\<lparr>exiting := True\<rparr>\<rparr>)"

text \<open>No thread can hit a failed assertion or an invalid pointer with its next step.\<close>

definition no_fault :: "'q RangeScheduler \<Rightarrow> 'q system \<Rightarrow> bool" where
  "no_fault ops c \<longleftrightarrow>
     (\<forall>k \<in> set (callers c). \<forall>x xs. c_rest k = x # xs \<longrightarrow>
        next_extent ops (c_type k) (c_handle k) (c_hint k) (c_wrapper k) x (sys c) \<noteq> None) \<and>
     (\<forall>rs cur. runner c = Top rs cur \<longrightarrow> run_locked ops False rs cur (sys c) \<noteq> None) \<and>
     (\<forall>rs tmp. runner c = Issue rs tmp \<longrightarrow> run_issue rs tmp (sys c) \<noteq> None) \<and>
     (\<forall>i z. i < length (rs_calls (sys c)) \<longrightarrow> rs_complete i z (sys c) \<noteq> None)"

text \<open>Nothing is left to do.\<close>

definition quiescent :: "'q system \<Rightarrow> bool" where
  "quiescent c \<longleftrightarrow> (\<forall>k \<in> set (callers c). c_rest k = []) \<and> runner c = Idle \<and> rs_pool (sys c) = 0 \<and> rs_calls (sys c) = []"

definition start_system :: "(addr \<rightharpoonup> 8 word list) \<Rightarrow> int \<Rightarrow> 'q \<Rightarrow> 'q system" where
  "start_system hs n q = \<lparr>sys = \<lparr>range_sched = q, schedActive = False, exiting = False, batch_size = n,
     rs_ranges = empty_heap, rs_io = \<lparr>wrappers = empty_heap, rets = (\<lambda>_. 0), membytes = (\<lambda>_. 0), fired = []\<rparr>,
     rs_handles = hs, rs_pool = 0, rs_calls = []\<rparr>, callers = [], runner = Idle, opened = []\<rparr>"

subsection \<open>Submitting one extent\<close>

lemma wait_loop_False:
  "wait_loop ops False rs s =
     Some (if rsched_empty ops (range_sched s) \<and> \<not> exiting s \<and> rs = [] then (s\<lparr>schedActive := False\<rparr>, True) else (s, False))"
  by (simp add: wait_loop.simps)

lemma request_range_ok:
  assumes "hp_objs h r = Some (request_range t handle hint w x)" "0 < x_size x" "x_start x \<le> x_start x + x_size x"
    "good_handle handle hs"
  shows "request_ok hs h r" "labelled h (t, handle) r"
    "leaf_item hs h r = ((Some t, map_option (take 32) (hs handle)), \<lparr>x_mem = x_mem x, x_msize = x_size x, x_start = x_start x, x_size = x_size x\<rparr>, w)"
proof -
  have "x_start x \<noteq> x_start x + x_size x" using assms(2) by auto
  then have "x_start x < x_start x + x_size x" using assms(3) by order
  then show "request_ok hs h r" "labelled h (t, handle) r"
    "leaf_item hs h r = ((Some t, map_option (take 32) (hs handle)), \<lparr>x_mem = x_mem x, x_msize = x_size x, x_start = x_start x, x_size = x_size x\<rparr>, w)"
    using assms(1,4)
    by (auto simp: request_ok_def labelled_def leaf_item_def rkey_def fields_key_def entry_at_def entry_of_def cb_at_def
        request_range_def new_ChildRange_def init_fields_def good_handle_def)
qed

definition extent_item ::
  "RangeType \<Rightarrow> addr \<Rightarrow> addr \<Rightarrow> (addr \<rightharpoonup> 8 word list) \<Rightarrow> extent \<Rightarrow> io_item" where
  "extent_item t handle w hs x = ((Some t, map_option (take 32) (hs handle)),
     \<lparr>x_mem = x_mem x, x_msize = x_size x, x_start = x_start x, x_size = x_size x\<rparr>, w)"

context range_scheduler
begin

lemma submit_extent_Some:
  assumes "s_ok s H" "same_keys (rs_handles s) (rs_ranges s) K" "set K \<subseteq> set H"
    "0 < x_size x" "x_start x \<le> x_start x + x_size x" "good_handle handle (rs_handles s)"
  shows "\<exists>s'. submit_extent ops t handle hint w x s = Some s' \<and> s_ok s' H \<and> same_keys (rs_handles s) (rs_ranges s') K \<and>
    items s' H = add_mset (extent_item t handle w (rs_handles s) x) (items s H) \<and>
    schedActive s' \<and> rs_pool s' = rs_pool s + (if schedActive s then 0 else 1) \<and>
    rs_io s' = rs_io s \<and> rs_calls s' = rs_calls s \<and> rs_handles s' = rs_handles s"
proof -
  let ?h = "rs_ranges s" and ?q = "range_sched s" and ?hs = "rs_handles s"
  define C where "C = (\<Union>r \<in> set H. range_own ?h r)"
  have ok: "heap_ok ?h" "q_inv ?h ?q" "\<And>c. c \<in># pend s \<Longrightarrow> request_ok ?hs ?h c" "held_ok ?hs ?h (q_own ?h ?q) H"
    using assms(1) by (simp_all add: sched_ok_def)
  obtain r ha where r: "heap_new (request_range t handle hint w x) ?h = (r, ha)" by (cases "heap_new (request_range t handle hint w x) ?h")
  note new = heap_new_fresh [OF ok(1) r]
  have keep_a: "hp_objs ha a = hp_objs ?h a" if "a \<in> dom (hp_objs ?h)" for a
    using new(1,3) that by auto
  have fr: "\<forall>a \<in> q_own ?h ?q. hp_objs ha a = hp_objs ?h a" using own_live [OF ok(2)] keep_a by blast
  note q = frame [OF fr]
  have rown: "r \<notin> q_own ?h ?q" using own_live [OF ok(2)] new(1) by auto
  have CH: "C \<subseteq> dom (hp_objs ?h) - q_own ?h ?q" using ok(4) unfolding held_ok_def C_def by blast
  have rC: "r \<notin> C" using CH new(1) by auto
  have obj: "hp_objs ha r = Some (request_range t handle hint w x)" using new(3) by simp
  note rr = request_range_ok [OF obj assms(4-6)]
  have "C \<union> {r} \<subseteq> dom (hp_objs ha) - q_own ha ?q" using CH rown q new(3) by auto
  then have "clients ha (q_own ha ?q) C [r]"
    using rC rr(2) request_ok_leaf [OF rr(1)] unfolding clients_def submittable_def by (simp del: split_paired_Ex) blast
  from enq_step [OF new(4) _ this] q ok(2)
  obtain h q' where 1: "rsched_enqueue ops ha ?q r = Some (h, q')" "heap_ok h" "q_inv h q'"
    "q_pending h q' = add_mset r (q_pending ha ?q)" "clients h (q_own h q') C []"
    "\<forall>a \<in> C. hp_objs h a = hp_objs ha a" "\<forall>c. leaf_ok ha c \<longrightarrow> hp_objs h c = hp_objs ha c"
    by blast
  let ?s = "s\<lparr>rs_ranges := h, range_sched := q', schedActive := True, rs_pool := rs_pool s + (if schedActive s then 0 else 1)\<rparr>"
  have run: "submit_extent ops t handle hint w x s = Some ?s"
    using r 1(1) by (simp add: submit_extent_def enqueue_range_def Let_def)
  have Cd: "C \<inter> q_own h q' = {}" using 1(5) unfolding clients_def by blast
  have "\<forall>b \<in> set H. \<forall>a \<in> range_own ?h b. hp_objs h a = hp_objs ?h a \<and> a \<notin> q_own h q'"
  proof (intro ballI)
    fix b a assume "b \<in> set H" "a \<in> range_own ?h b"
    then have a: "a \<in> C" unfolding C_def by blast
    then show "hp_objs h a = hp_objs ?h a \<and> a \<notin> q_own h q'" using 1(6) Cd CH keep_a [of a] by auto
  qed
  note held = held_ok_frame [OF ok(4) this]
  have leaf: "hp_objs h c = hp_objs ?h c" if "leaf_ok ?h c" for c
  proof -
    have "hp_objs ha c = hp_objs ?h c" using leaf_okD [OF that] keep_a by auto
    moreover from this have "leaf_ok ha c" using that by (simp add: leaf_ok_def)
    ultimately show ?thesis using 1(7) by simp
  qed
  have hr: "hp_objs h r = hp_objs ha r" using 1(7) request_ok_leaf [OF rr(1)] by blast
  have P: "q_pending h q' = add_mset r (pend s)" using 1(4) q by simp
  have req: "request_ok ?hs h c" if "c \<in># q_pending h q'" for c
  proof (cases "c = r")
    case True
    then show ?thesis using request_ok_frame [OF hr] rr(1) by simp
  next
    case False
    then have "c \<in># pend s" using that P by simp
    then show ?thesis using request_ok_frame leaf request_ok_leaf ok(3) by blast
  qed
  have sok: "s_ok ?s H" using 1(2,3) req held(1) by (simp add: sched_ok_def)
  have keys: "same_keys ?hs h K" using assms(2,3) held(4) unfolding same_keys_def by (metis subsetD)
  have lv: "all_leaves h H = all_leaves ?h H" using held(3) by (simp cong: map_cong)
  have "leaf_item ?hs h c = leaf_item ?hs ?h c" if "c \<in># pend s + mset (all_leaves ?h H)" for c
    using leaf_item_frame leaf request_ok_leaf [OF held_leaf [OF assms(1) that]] by blast
  then have "image_mset (leaf_item ?hs h) (pend s + mset (all_leaves ?h H)) = items s H"
    unfolding items_def by (rule image_mset_cong)
  moreover have "leaf_item ?hs h r = extent_item t handle w ?hs x"
    using leaf_item_frame [OF hr] rr(3) unfolding extent_item_def by simp
  ultimately have "items ?s H = add_mset (extent_item t handle w ?hs x) (items s H)"
    unfolding items_def by (simp add: P lv)
  then show ?thesis using run sok keys by (intro exI [of _ ?s]) simp
qed

subsection \<open>The invariant\<close>

text \<open>
  The wrappers that are still to be called, once per extent: for extents queued, held or in flight.
  Together with the extents that callers have not submitted yet they account for every count.
\<close>

definition owed :: "'q system \<Rightarrow> addr multiset" where
  "owed c = image_mset (snd \<circ> snd) (items (sys c) (held (runner c))) +
     mset (concat (map (\<lambda>k. shared_cbs (ic_cbs k)) (rs_calls (sys c))))"

definition unsubmitted :: "caller list \<Rightarrow> addr \<Rightarrow> nat" where
  "unsubmitted ks w = sum_list (map (\<lambda>k. if c_wrapper k = w then valid_count (c_rest k) else 0) ks)"

definition batch_ok :: "'q req_sched \<Rightarrow> runner \<Rightarrow> bool" where
  "batch_ok s r \<longleftrightarrow> (case r of Idle \<Rightarrow> True | Top rs cur \<Rightarrow> same_keys (rs_handles s) (rs_ranges s) rs
     | Issue rs tmp \<Rightarrow> rs \<noteq> [] \<and> same_keys (rs_handles s) (rs_ranges s) rs)"

definition active_ok :: "'q system \<Rightarrow> bool" where
  "active_ok c \<longleftrightarrow> rs_pool (sys c) + (if runner c = Idle then 0 else 1) = (if schedActive (sys c) then 1 else 0) \<and>
     (\<not> schedActive (sys c) \<longrightarrow> pend (sys c) = {#})"

definition callers_ok :: "'q system \<Rightarrow> bool" where
  "callers_ok c \<longleftrightarrow> (\<forall>k \<in> set (callers c). good_handle (c_handle k) (rs_handles (sys c)) \<and> good_extents (c_type k) (c_rest k))"

definition sys_inv :: "'q system \<Rightarrow> bool" where
  "sys_inv c \<longleftrightarrow> s_ok (sys c) (held (runner c)) \<and> io_ok (rs_io (sys c)) \<and> batch_ok (sys c) (runner c) \<and>
     active_ok c \<and> callers_ok c \<and>
     (\<forall>w. waiting_for (rs_io (sys c)) w = count (owed c) w + unsubmitted (callers c) w) \<and>
     mset (opened c) = mset (map fst (fired (rs_io (sys c)))) + live_requests (rs_io (sys c))"

lemma sys_invD:
  assumes "sys_inv c"
  shows "s_ok (sys c) (held (runner c))" "io_ok (rs_io (sys c))" "batch_ok (sys c) (runner c)" "active_ok c" "callers_ok c"
    "\<And>w. waiting_for (rs_io (sys c)) w = count (owed c) w + unsubmitted (callers c) w"
    "mset (opened c) = mset (map fst (fired (rs_io (sys c)))) + live_requests (rs_io (sys c))"
  using assms unfolding sys_inv_def by blast+

lemma sys_invI:
  assumes "s_ok (sys c) (held (runner c))" "io_ok (rs_io (sys c))" "batch_ok (sys c) (runner c)" "active_ok c" "callers_ok c"
    "\<And>w. waiting_for (rs_io (sys c)) w = count (owed c) w + unsubmitted (callers c) w"
    "mset (opened c) = mset (map fst (fired (rs_io (sys c)))) + live_requests (rs_io (sys c))"
  shows "sys_inv c"
  using assms unfolding sys_inv_def by blast

lemma valid_count_Cons [simp]: "valid_count (x # xs) = (if 0 < x_size x then 1 else 0) + valid_count xs"
  by (simp add: valid_count_def)

lemma unsubmitted_simps [simp]:
  "unsubmitted [] w = 0"
  "unsubmitted (k # ks) w = (if c_wrapper k = w then valid_count (c_rest k) else 0) + unsubmitted ks w"
  "unsubmitted (ks @ ks') w = unsubmitted ks w + unsubmitted ks' w"
  by (simp_all add: unsubmitted_def)

text \<open>Submitting a new request.\<close>

lemma inv_submit:
  assumes "sys_inv c" "good_handle handle (rs_handles (sys c))" "good_extents t xs" "0 < valid_count xs"
    "rs_open t cb ret xs (sys c) = Some (w, s)"
  shows "sys_inv (c\<lparr>sys := s, opened := cb # opened c,
    callers := \<lparr>c_type = t, c_handle = handle, c_hint = hint, c_wrapper = w, c_rest = xs\<rparr> # callers c\<rparr>)"
proof -
  note inv = sys_invD [OF assms(1)]
  let ?io = "rs_io (sys c)"
  let ?x = "(new_IOCBWrapper cb (int (valid_count xs)) ret)\<lparr>isRead := (t = RANGE_READ)\<rparr>"
  obtain hp where hp: "heap_new ?x (wrappers ?io) = (w, hp)" "s = (sys c)\<lparr>rs_io := ?io\<lparr>wrappers := hp\<rparr>\<rparr>"
    using assms(5) by (auto simp: rs_open_def Let_def assert_that_def split: if_splits prod.splits)
  have hok: "heap_ok (wrappers ?io)" using inv(2) by (simp add: io_ok_def)
  note new = heap_new_fresh [OF hok hp(1)]
  have io: "io_ok (?io\<lparr>wrappers := hp\<rparr>)"
    using inv(2) new(3,4) assms(4) by (auto simp: io_ok_def new_IOCBWrapper_def)
  have wait: "waiting_for (?io\<lparr>wrappers := hp\<rparr>) v = waiting_for ?io v + (if v = w then valid_count xs else 0)" for v
    using new(1,3) by (simp add: waiting_for_def new_IOCBWrapper_def)
  have dom: "w \<notin> dom (hp_objs (wrappers ?io))" "finite (dom (hp_objs (wrappers ?io)))"
    using new(1) hok by (auto simp: heap_ok_def)
  have "live_requests (?io\<lparr>wrappers := hp\<rparr>) = add_mset cb (live_requests ?io)"
    using dom by (auto simp: live_requests_def new(3) new_IOCBWrapper_def intro!: image_mset_cong split: if_splits)
  moreover have "items s (held (runner c)) = items (sys c) (held (runner c))" by (simp add: items_def hp(2))
  ultimately show ?thesis
    using inv io wait assms(2,3)
    by (simp add: sys_inv_def hp(2) sched_ok_def batch_ok_def active_ok_def callers_ok_def owed_def split: runner.splits)
qed

text \<open>Submitting the next extent of a request.\<close>

fun batch_of :: "runner \<Rightarrow> addr list" where
  "batch_of Idle = []"
| "batch_of (Top rs cur) = rs"
| "batch_of (Issue rs tmp) = rs"

lemma batch_ok_alt: "batch_ok s r \<longleftrightarrow> same_keys (rs_handles s) (rs_ranges s) (batch_of r) \<and> (\<forall>rs tmp. r = Issue rs tmp \<longrightarrow> rs \<noteq> [])"
  by (auto simp: batch_ok_def same_keys_def split: runner.splits)

lemma batch_of_held: "set (batch_of r) \<subseteq> set (held r)"
  by (cases r) auto

lemma next_extent_skip:
  "x_msize x = x_size x \<Longrightarrow> t = RANGE_WRITE \<Longrightarrow> x_size x = 0 \<Longrightarrow> next_extent ops t handle hint w x s = Some s"
  by (simp add: next_extent_def write_extent_def)

lemma next_extent_submit:
  "x_msize x = x_size x \<Longrightarrow> 0 < x_size x \<Longrightarrow> next_extent ops t handle hint w x s = submit_extent ops t handle hint w x s"
  by (cases t) (auto simp: next_extent_def write_extent_def read_extent_def)

lemma step_extent:
  assumes "sys_inv c" "callers c = ks @ k # ks'" "c_rest k = x # xs"
  shows "\<exists>s. next_extent ops (c_type k) (c_handle k) (c_hint k) (c_wrapper k) x (sys c) = Some s \<and>
    sys_inv (c\<lparr>sys := s, callers := ks @ k\<lparr>c_rest := xs\<rparr> # ks'\<rparr>)"
proof -
  note inv = sys_invD [OF assms(1)]
  have k: "good_handle (c_handle k) (rs_handles (sys c))" "x_msize x = x_size x" "x_start x \<le> x_start x + x_size x"
    "c_type k = RANGE_READ \<longrightarrow> 0 < x_size x" "good_extents (c_type k) xs"
  proof -
    have "k \<in> set (callers c)" using assms(2) by simp
    then have "good_handle (c_handle k) (rs_handles (sys c)) \<and> good_extents (c_type k) (x # xs)"
      using inv(5) assms(3) unfolding callers_ok_def by metis
    then show "good_handle (c_handle k) (rs_handles (sys c))" "x_msize x = x_size x" "x_start x \<le> x_start x + x_size x"
      "c_type k = RANGE_READ \<longrightarrow> 0 < x_size x" "good_extents (c_type k) xs"
      unfolding good_extent_def by simp_all
  qed
  show ?thesis
  proof (cases "0 < x_size x")
    case False
    then have z: "x_size x = 0" by (simp add: word_gt_0)
    have "c_type k \<noteq> RANGE_READ" using k(4) False by blast
    then have "c_type k = RANGE_WRITE" by (cases "c_type k") simp_all
    then have "next_extent ops (c_type k) (c_handle k) (c_hint k) (c_wrapper k) x (sys c) = Some (sys c)"
      using next_extent_skip [OF k(2) _ z] by blast
    moreover have "sys_inv (c\<lparr>sys := sys c, callers := ks @ k\<lparr>c_rest := xs\<rparr> # ks'\<rparr>)" (is "sys_inv ?c")
    proof (rule sys_invI)
      show "s_ok (sys ?c) (held (runner ?c))" using inv(1) by simp
      show "io_ok (rs_io (sys ?c))" using inv(2) by simp
      show "batch_ok (sys ?c) (runner ?c)" using inv(3) by simp
      show "active_ok ?c" using inv(4) by (simp add: active_ok_def)
      show "callers_ok ?c" using inv(5) assms(2) k(5) unfolding callers_ok_def by simp
      show "waiting_for (rs_io (sys ?c)) w = count (owed ?c) w + unsubmitted (callers ?c) w" for w
        using assms(2,3) False inv(6) [of w] by (simp add: owed_def)
      show "mset (opened ?c) = mset (map fst (fired (rs_io (sys ?c)))) + live_requests (rs_io (sys ?c))"
        using inv(7) by simp
    qed
    ultimately show ?thesis by blast
  next
    case True
    have keys: "same_keys (rs_handles (sys c)) (rs_ranges (sys c)) (batch_of (runner c))" using inv(3) by (simp add: batch_ok_alt)
    from submit_extent_Some [OF inv(1) keys batch_of_held True k(3,1), of "c_type k" "c_hint k" "c_wrapper k"]
    obtain s where 1: "submit_extent ops (c_type k) (c_handle k) (c_hint k) (c_wrapper k) x (sys c) = Some s"
      "s_ok s (held (runner c))" "same_keys (rs_handles (sys c)) (rs_ranges s) (batch_of (runner c))"
      "items s (held (runner c)) =
        add_mset (extent_item (c_type k) (c_handle k) (c_wrapper k) (rs_handles (sys c)) x) (items (sys c) (held (runner c)))"
      "schedActive s" "rs_pool s = rs_pool (sys c) + (if schedActive (sys c) then 0 else 1)"
      "rs_io s = rs_io (sys c)" "rs_calls s = rs_calls (sys c)" "rs_handles s = rs_handles (sys c)"
      by (elim exE conjE)
    let ?c = "c\<lparr>sys := s, callers := ks @ k\<lparr>c_rest := xs\<rparr> # ks'\<rparr>"
    have owed: "owed ?c = add_mset (c_wrapper k) (owed c)"
      by (simp add: owed_def 1(4,8) extent_item_def)
    have "sys_inv ?c"
    proof (rule sys_invI)
      show "s_ok (sys ?c) (held (runner ?c))" using 1(2) by simp
      show "io_ok (rs_io (sys ?c))" using inv(2) 1(7) by simp
      show "batch_ok (sys ?c) (runner ?c)" using inv(3) 1(3,9) by (simp add: batch_ok_alt)
      show "active_ok ?c" using inv(4) 1(5,6) by (simp add: active_ok_def split: if_splits)
      show "callers_ok ?c" using inv(5) assms(2) k(5) 1(9) unfolding callers_ok_def by simp
      show "waiting_for (rs_io (sys ?c)) w = count (owed ?c) w + unsubmitted (callers ?c) w" for w
        unfolding owed using assms(2,3) True inv(6) [of w] 1(7) by simp
      show "mset (opened ?c) = mset (map fst (fired (rs_io (sys ?c)))) + live_requests (rs_io (sys ?c))"
        using inv(7) 1(7) by simp
    qed
    then show ?thesis using 1(1) next_extent_submit [OF k(2) True] by simp
  qed
qed

text \<open>The scheduling thread starts, returns, or takes a batch.\<close>

lemma inv_start:
  assumes "sys_inv c" "runner c = Idle" "rs_pool (sys c) = Suc n"
  shows "sys_inv (c\<lparr>sys := (sys c)\<lparr>rs_pool := n\<rparr>, runner := Top [] 0\<rparr>)" (is "sys_inv ?c")
proof (rule sys_invI)
  note inv = sys_invD [OF assms(1)]
  show "s_ok (sys ?c) (held (runner ?c))" using inv(1) assms(2) by (simp add: sched_ok_def)
  show "io_ok (rs_io (sys ?c))" using inv(2) by simp
  show "batch_ok (sys ?c) (runner ?c)" by (simp add: batch_ok_def same_keys_def)
  show "active_ok ?c" using inv(4) assms(2,3) by (simp add: active_ok_def split: if_splits)
  show "callers_ok ?c" using inv(5) by (simp add: callers_ok_def)
  have "owed ?c = owed c" using assms(2) by (simp add: owed_def items_def)
  then show "waiting_for (rs_io (sys ?c)) w = count (owed ?c) w + unsubmitted (callers ?c) w" for w
    using inv(6) [of w] by simp
  show "mset (opened ?c) = mset (map fst (fired (rs_io (sys ?c)))) + live_requests (rs_io (sys ?c))" using inv(7) by simp
qed

lemma step_lock:
  assumes "sys_inv c" "runner c = Top rs cur"
  shows "(\<exists>s. run_locked ops False rs cur (sys c) = Some (s, None) \<and> sys_inv (c\<lparr>sys := s, runner := Idle\<rparr>)) \<or>
    (\<exists>s rs' cur' tmp. run_locked ops False rs cur (sys c) = Some (s, Some (rs', cur', tmp)) \<and>
       sys_inv (c\<lparr>sys := s, runner := (if rs' = [] then Top [] cur' else Issue rs' tmp)\<rparr>))"
proof -
  note inv = sys_invD [OF assms(1)]
  let ?s = "sys c"
  have ok: "s_ok ?s rs" "same_keys (rs_handles ?s) (rs_ranges ?s) rs" "schedActive ?s" "rs_pool ?s = 0"
    using inv(1,3,4) assms(2) by (simp_all add: batch_ok_def active_ok_def split: if_splits)
  have q: "q_inv (rs_ranges ?s) (range_sched ?s)" using ok(1) by (simp add: sched_ok_def)
  show ?thesis
  proof (cases "rsched_empty ops (range_sched ?s) \<and> \<not> exiting ?s \<and> rs = []")
    case True
    let ?c = "c\<lparr>sys := ?s\<lparr>schedActive := False\<rparr>, runner := Idle\<rparr>"
    have "run_locked ops False rs cur ?s = Some (?s\<lparr>schedActive := False\<rparr>, None)"
      using True by (simp add: run_locked_def wait_loop_False)
    moreover have "sys_inv ?c"
    proof (rule sys_invI)
      show "s_ok (sys ?c) (held (runner ?c))" using ok(1) True by (simp add: sched_ok_def)
      show "io_ok (rs_io (sys ?c))" using inv(2) by simp
      show "batch_ok (sys ?c) (runner ?c)" by (simp add: batch_ok_def)
      show "active_ok ?c" using ok(4) empty_iff [OF q] True by (simp add: active_ok_def)
      show "callers_ok ?c" using inv(5) by (simp add: callers_ok_def)
      have "owed ?c = owed c" using assms(2) True by (simp add: owed_def items_def)
      then show "waiting_for (rs_io (sys ?c)) w = count (owed ?c) w + unsubmitted (callers ?c) w" for w
        using inv(6) [of w] by simp
      show "mset (opened ?c) = mset (map fst (fired (rs_io (sys ?c)))) + live_requests (rs_io (sys ?c))" using inv(7) by simp
    qed
    ultimately show ?thesis by blast
  next
    case False
    from fill_loop_Some [OF ok(1,2), of cur]
    obtain s rs' cur' tmp where 1: "fill_loop ops rs cur ?s = Some (s, rs', cur', tmp)" "filled ?s rs cur s rs' tmp"
      by blast
    have f: "s = ?s\<lparr>rs_ranges := rs_ranges s, range_sched := range_sched s\<rparr>" "s_ok s (rs' @ opt_list tmp)"
      "same_keys (rs_handles ?s) (rs_ranges s) rs'" "tmp \<noteq> None \<longrightarrow> rs' \<noteq> []"
      using 1(2) unfolding filled_def by blast+
    have s: "rs_handles s = rs_handles ?s" "rs_calls s = rs_calls ?s" "rs_io s = rs_io ?s" "rs_pool s = rs_pool ?s"
      "schedActive s = schedActive ?s"
      by (subst f(1), simp)+
    let ?r = "if rs' = [] then Top [] cur' else Issue rs' tmp"
    let ?c = "c\<lparr>sys := s, runner := ?r\<rparr>"
    have held: "held ?r = rs' @ opt_list tmp" using f(4) by (cases tmp) auto
    have "run_locked ops False rs cur ?s = Some (s, Some (rs', cur', tmp))"
      using False 1(1) by (auto simp: run_locked_def wait_loop_False)
    moreover have "sys_inv ?c"
    proof (rule sys_invI)
      show "s_ok (sys ?c) (held (runner ?c))" using f(2) held by simp
      show "io_ok (rs_io (sys ?c))" using inv(2) s(3) by simp
      show "batch_ok (sys ?c) (runner ?c)" using f(3) s(1) by (simp add: batch_ok_def same_keys_def)
      show "active_ok ?c" using ok(3,4) s(4,5) by (simp add: active_ok_def)
      show "callers_ok ?c" using inv(5) s(1) by (simp add: callers_ok_def)
      have "items s (rs' @ opt_list tmp) = items ?s rs" by (rule filled_items [OF 1(2) ok(1)])
      then have "owed ?c = owed c" using assms(2) s(2) held by (simp add: owed_def)
      then show "waiting_for (rs_io (sys ?c)) w = count (owed ?c) w + unsubmitted (callers ?c) w" for w
        using inv(6) [of w] s(3) by simp
      show "mset (opened ?c) = mset (map fst (fired (rs_io (sys ?c)))) + live_requests (rs_io (sys ?c))"
        using inv(7) s(3) by simp
    qed
    ultimately show ?thesis by blast
  qed
qed

text \<open>A batch is issued: its extents move from the held ranges to the calls in flight.\<close>

lemma step_issue:
  assumes "sys_inv c" "runner c = Issue rs tmp"
  shows "\<exists>s rs' cur'. run_issue rs tmp (sys c) = Some (s, rs', cur') \<and> sys_inv (c\<lparr>sys := s, runner := Top rs' cur'\<rparr>)"
proof -
  note inv = sys_invD [OF assms(1)]
  let ?s = "sys c"
  have ok: "s_ok ?s (rs @ opt_list tmp)" "rs \<noteq> []" "same_keys (rs_handles ?s) (rs_ranges ?s) rs"
    using inv(1,3) assms(2) by (simp_all add: batch_ok_def)
  from run_issue_items [OF ok]
  obtain h k cur' where 1: "run_issue rs tmp ?s = Some (?s\<lparr>rs_ranges := h, rs_calls := rs_calls ?s @ [k]\<rparr>, opt_list tmp, cur')"
    "s_ok (?s\<lparr>rs_ranges := h, rs_calls := rs_calls ?s @ [k]\<rparr>) (opt_list tmp)"
    "items ?s (rs @ opt_list tmp) = mset (call_items (rs_handles ?s) k) +
      items (?s\<lparr>rs_ranges := h, rs_calls := rs_calls ?s @ [k]\<rparr>) (opt_list tmp)"
    "map (snd \<circ> snd) (call_items (rs_handles ?s) k) = shared_cbs (ic_cbs k)"
    by blast
  define s where "s = ?s\<lparr>rs_ranges := h, rs_calls := rs_calls ?s @ [k]\<rparr>"
  have s: "rs_handles s = rs_handles ?s" "rs_calls s = rs_calls ?s @ [k]" "rs_io s = rs_io ?s" "rs_pool s = rs_pool ?s"
    "schedActive s = schedActive ?s"
    by (simp_all add: s_def)
  note 1 = 1 [folded s_def]
  let ?c = "c\<lparr>sys := s, runner := Top (opt_list tmp) cur'\<rparr>"
  have "image_mset (snd \<circ> snd) (mset (call_items (rs_handles ?s) k)) = mset (shared_cbs (ic_cbs k))"
    unfolding mset_map [symmetric] 1(4) ..
  then have owed: "owed ?c = owed c"
    using assms(2) s(2) by (simp add: owed_def 1(3))
  have "sys_inv ?c"
  proof (rule sys_invI)
    show "s_ok (sys ?c) (held (runner ?c))" using 1(2) by simp
    show "io_ok (rs_io (sys ?c))" using inv(2) s(3) by simp
    show "batch_ok (sys ?c) (runner ?c)" by (cases tmp) (simp_all add: batch_ok_def same_keys_def)
    show "active_ok ?c" using inv(4) s(4,5) assms(2) by (simp add: active_ok_def split: if_splits)
    show "callers_ok ?c" using inv(5) s(1) by (simp add: callers_ok_def)
    show "waiting_for (rs_io (sys ?c)) w = count (owed ?c) w + unsubmitted (callers ?c) w" for w
      using inv(6) [of w] s(3) owed by simp
    show "mset (opened ?c) = mset (map fst (fired (rs_io (sys ?c)))) + live_requests (rs_io (sys ?c))"
      using inv(7) s(3) by simp
  qed
  then show ?thesis using 1(1) by blast
qed

text \<open>A call completes.\<close>

lemma step_complete:
  assumes "sys_inv c" "i < length (rs_calls (sys c))"
  shows "\<exists>s. rs_complete i z (sys c) = Some s \<and> sys_inv (c\<lparr>sys := s\<rparr>)"
proof -
  note inv = sys_invD [OF assms(1)]
  let ?s = "sys c" and ?ks = "rs_calls (sys c)"
  let ?rest = "take i ?ks @ drop (Suc i) ?ks"
  let ?cbs = "\<lambda>ks. mset (concat (map (\<lambda>k. shared_cbs (ic_cbs k)) ks))"
  have "?cbs ?ks = ?cbs (take i ?ks @ ?ks ! i # drop (Suc i) ?ks)" by (simp only: id_take_nth_drop [OF assms(2), symmetric])
  then have split: "?cbs ?ks = mset (shared_cbs (ic_cbs (?ks ! i))) + ?cbs ?rest" by simp
  have "count (mset (shared_cbs (ic_cbs (?ks ! i)))) w \<le> waiting_for (rs_io ?s) w" for w
    using inv(6) [of w] by (simp add: owed_def split)
  from issue_loop_step [OF inv(2) this, of z]
  obtain io where io: "issue_loop z CB_None (shared_cbs (ic_cbs (?ks ! i))) (rs_io ?s) = Some (io, Inr ())" "io_ok io"
    "waiting_for io = (\<lambda>w. waiting_for (rs_io ?s) w - count (mset (shared_cbs (ic_cbs (?ks ! i)))) w)"
    "mset (map fst (fired io)) + live_requests io = mset (map fst (fired (rs_io ?s))) + live_requests (rs_io ?s)"
    by blast
  define s where "s = ?s\<lparr>rs_io := io, rs_calls := ?rest\<rparr>"
  let ?c = "c\<lparr>sys := s\<rparr>"
  have run: "rs_complete i z ?s = Some s"
    using io(1) assms(2) by (simp add: rs_complete_def issueIOCallbacks_ok s_def)
  have items: "items s rs = items ?s rs" for rs by (simp add: items_def s_def)
  have "sys_inv ?c"
  proof (rule sys_invI)
    show "s_ok (sys ?c) (held (runner ?c))" using inv(1) by (simp add: sched_ok_def s_def)
    show "io_ok (rs_io (sys ?c))" using io(2) by (simp add: s_def)
    show "batch_ok (sys ?c) (runner ?c)" using inv(3) by (simp add: batch_ok_alt s_def)
    show "active_ok ?c" using inv(4) by (simp add: active_ok_def s_def)
    show "callers_ok ?c" using inv(5) by (simp add: callers_ok_def s_def)
    show "waiting_for (rs_io (sys ?c)) w = count (owed ?c) w + unsubmitted (callers ?c) w" for w
    proof -
      have "count (owed c) w = count (mset (shared_cbs (ic_cbs (?ks ! i)))) w + count (owed ?c) w"
        by (simp add: owed_def items split) (simp add: s_def)
      then show ?thesis using inv(6) [of w] io(3) by (simp add: s_def)
    qed
    show "mset (opened ?c) = mset (map fst (fired (rs_io (sys ?c)))) + live_requests (rs_io (sys ?c))"
      using inv(7) io(4) by (simp add: s_def)
  qed
  then show ?thesis using run by blast
qed

text \<open>The invariant holds in every state the threads can reach, and excludes failures.\<close>

lemma inv_shutdown: "sys_inv c \<Longrightarrow> sys_inv (c\<lparr>sys := (sys c)\<lparr>exiting := True\<rparr>\<rparr>)"
  by (simp add: sys_inv_def sched_ok_def batch_ok_alt active_ok_def callers_ok_def owed_def items_def)

lemma inv_step:
  assumes "sys_step ops c c'" "sys_inv c"
  shows "sys_inv c'"
  using assms(1)
proof (cases rule: sys_step.cases)
  case (Submit handle t xs cb ret w s hint)
  then show ?thesis using inv_submit [OF assms(2)] by simp
next
  case (Extent ks k ks' x xs s)
  then show ?thesis using step_extent [OF assms(2) Extent(2,3)] by auto
next
  case (Start n)
  then show ?thesis using inv_start [OF assms(2)] by simp
next
  case (Return rs cur s)
  then show ?thesis using step_lock [OF assms(2) Return(2)] by auto
next
  case (Batch rs cur s rs' cur' tmp)
  then show ?thesis using step_lock [OF assms(2) Batch(2)] by simp
next
  case (Issued rs tmp s rs' cur')
  then show ?thesis using step_issue [OF assms(2) Issued(2)] by auto
next
  case (Completed i z s)
  then have "i < length (rs_calls (sys c))" by (auto simp: rs_complete_def assert_that_def split: if_splits)
  then show ?thesis using step_complete [OF assms(2), of i z] Completed by auto
next
  case Shutdown
  then show ?thesis using inv_shutdown [OF assms(2)] by simp
qed

lemma inv_reachable:
  assumes "(sys_step ops)\<^sup>*\<^sup>* c c'" "sys_inv c"
  shows "sys_inv c'"
  using assms by (induction rule: rtranclp_induct) (auto intro: inv_step)

lemma inv_no_fault:
  assumes "sys_inv c"
  shows "no_fault ops c"
proof -
  have "next_extent ops (c_type k) (c_handle k) (c_hint k) (c_wrapper k) x (sys c) \<noteq> None"
    if k: "k \<in> set (callers c)" "c_rest k = x # xs" for k x xs
  proof -
    obtain ks ks' where "callers c = ks @ k # ks'" using k(1) by (meson split_list)
    from step_extent [OF assms this k(2)] show ?thesis by auto
  qed
  moreover have "run_locked ops False rs cur (sys c) \<noteq> None" if "runner c = Top rs cur" for rs cur
    using step_lock [OF assms that] by auto
  moreover have "run_issue rs tmp (sys c) \<noteq> None" if "runner c = Issue rs tmp" for rs tmp
    using step_issue [OF assms that] by auto
  moreover have "rs_complete i z (sys c) \<noteq> None" if "i < length (rs_calls (sys c))" for i z
    using step_complete [OF assms that, of z] by auto
  ultimately show ?thesis unfolding no_fault_def by blast
qed

text \<open>Nothing to do means that every accepted request has been called back.\<close>

lemma inv_quiescent:
  assumes "sys_inv c" "quiescent c"
  shows "live_requests (rs_io (sys c)) = {#}"
proof -
  note inv = sys_invD [OF assms(1)]
  have c: "\<forall>k \<in> set (callers c). c_rest k = []" "runner c = Idle" "rs_pool (sys c) = 0" "rs_calls (sys c) = []"
    using assms(2) by (simp_all add: quiescent_def)
  have "pend (sys c) = {#}" using inv(4) c(2,3) by (auto simp: active_ok_def split: if_splits)
  then have "owed c = {#}" using c(2,4) by (simp add: owed_def items_def)
  moreover have "unsubmitted (callers c) w = 0" for w
    using c(1) by (auto simp: unsubmitted_def valid_count_def)
  ultimately have "waiting_for (rs_io (sys c)) w = 0" for w using inv(6) by simp
  note zero = this
  have "hp_objs (wrappers (rs_io (sys c))) w = None" for w
  proof (cases "hp_objs (wrappers (rs_io (sys c))) w")
    case (Some x)
    then have "0 < iw_count x" using inv(2) unfolding io_ok_def by blast
    then show ?thesis using zero [of w] Some by (simp add: waiting_for_def)
  qed
  then have "hp_objs (wrappers (rs_io (sys c))) = Map.empty" by auto
  then show ?thesis by (simp add: live_requests_def)
qed

lemma start_inv:
  assumes "q_inv empty_heap q" "q_pending empty_heap q = {#}"
  shows "sys_inv (start_system hs n q)"
  using assms
  by (auto simp: heap_ok_empty sys_inv_def start_system_def sched_ok_def held_ok_def io_ok_def batch_ok_def active_ok_def callers_ok_def
      owed_def items_def waiting_for_def live_requests_def)

end

subsection \<open>Scripts of steps\<close>

text \<open>Steps as a function of what happens next, to run concrete schedules.\<close>

datatype action = Do_Submit RangeType nat addr addr "extent list" addr | Do_Extent nat | Do_Start | Do_Lock | Do_Issue
  | Do_Complete nat int

fun exec_action :: "'q RangeScheduler \<Rightarrow> action \<Rightarrow> 'q system \<Rightarrow> 'q system option" where
  "exec_action ops (Do_Submit t cb ret handle xs hint) c =
     (if good_handle handle (rs_handles (sys c)) \<and> good_extents t xs \<and> 0 < valid_count xs
      then do { (w, s) \<leftarrow> rs_open t cb ret xs (sys c);
        Some (c\<lparr>sys := s, opened := cb # opened c,
          callers := \<lparr>c_type = t, c_handle = handle, c_hint = hint, c_wrapper = w, c_rest = xs\<rparr> # callers c\<rparr>) }
      else None)"
| "exec_action ops (Do_Extent i) c =
     (if i < length (callers c) then
        (case c_rest (callers c ! i) of [] \<Rightarrow> None
         | x # xs \<Rightarrow> do {
             let k = callers c ! i;
             s \<leftarrow> next_extent ops (c_type k) (c_handle k) (c_hint k) (c_wrapper k) x (sys c);
             Some (c\<lparr>sys := s, callers := take i (callers c) @ k\<lparr>c_rest := xs\<rparr> # drop (Suc i) (callers c)\<rparr>) })
      else None)"
| "exec_action ops Do_Start c =
     (case (runner c, rs_pool (sys c)) of
        (Idle, Suc n) \<Rightarrow> Some (c\<lparr>sys := (sys c)\<lparr>rs_pool := n\<rparr>, runner := Top [] 0\<rparr>) | _ \<Rightarrow> None)"
| "exec_action ops Do_Lock c =
     (case runner c of
        Top rs cur \<Rightarrow> do {
          (s, res) \<leftarrow> run_locked ops False rs cur (sys c);
          Some (case res of None \<Rightarrow> c\<lparr>sys := s, runner := Idle\<rparr>
            | Some (rs', cur', tmp) \<Rightarrow> c\<lparr>sys := s, runner := (if rs' = [] then Top [] cur' else Issue rs' tmp)\<rparr>) }
      | _ \<Rightarrow> None)"
| "exec_action ops Do_Issue c =
     (case runner c of
        Issue rs tmp \<Rightarrow> do {
          (s, rs', cur') \<leftarrow> run_issue rs tmp (sys c);
          Some (c\<lparr>sys := s, runner := Top rs' cur'\<rparr>) }
      | _ \<Rightarrow> None)"
| "exec_action ops (Do_Complete i z) c = do { s \<leftarrow> rs_complete i z (sys c); Some (c\<lparr>sys := s\<rparr>) }"

fun exec_actions :: "'q RangeScheduler \<Rightarrow> action list \<Rightarrow> 'q system \<Rightarrow> 'q system option" where
  "exec_actions ops [] c = Some c"
| "exec_actions ops (a # as) c = do { c1 \<leftarrow> exec_action ops a c; exec_actions ops as c1 }"

lemma exec_action_step: "exec_action ops a c = Some c' \<Longrightarrow> sys_step ops c c'"
proof (induction ops a c rule: exec_action.induct)
  case (1 ops t cb ret handle xs hint c)
  then show ?case by (auto split: if_splits elim!: fault_elims intro: sys_step.Submit)
next
  case (2 ops i c)
  let ?k = "callers c ! i"
  from 2 obtain x xs s where i: "i < length (callers c)" "c_rest ?k = x # xs"
    "next_extent ops (c_type ?k) (c_handle ?k) (c_hint ?k) (c_wrapper ?k) x (sys c) = Some s"
    "c' = c\<lparr>sys := s, callers := take i (callers c) @ ?k\<lparr>c_rest := xs\<rparr> # drop (Suc i) (callers c)\<rparr>"
    by (auto simp: Let_def split: if_splits list.splits elim!: fault_elims)
  then show ?case using sys_step.Extent [OF id_take_nth_drop [OF i(1)] i(2,3)] by simp
next
  case (3 ops c)
  then show ?case by (auto split: runner.splits nat.splits intro: sys_step.Start)
next
  case (4 ops c)
  then obtain rs cur s res where r: "runner c = Top rs cur" "run_locked ops False rs cur (sys c) = Some (s, res)"
    "c' = (case res of None \<Rightarrow> c\<lparr>sys := s, runner := Idle\<rparr>
       | Some (rs', cur', tmp) \<Rightarrow> c\<lparr>sys := s, runner := (if rs' = [] then Top [] cur' else Issue rs' tmp)\<rparr>)"
    by (auto split: runner.splits elim!: fault_elims)
  show ?case
  proof (cases res)
    case None
    then show ?thesis using sys_step.Return [OF r(1), of ops s] r(2,3) by simp
  next
    case (Some b)
    obtain rs' cur' tmp where b: "b = (rs', cur', tmp)" by (cases b)
    show ?thesis using sys_step.Batch [OF r(1), of ops s rs' cur' tmp] r(2,3) Some b by simp
  qed
next
  case (5 ops c)
  then show ?case by (auto split: runner.splits elim!: fault_elims intro: sys_step.Issued)
next
  case (6 ops i z c)
  then show ?case by (auto elim!: fault_elims intro: sys_step.Completed)
qed

lemma exec_actions_steps: "exec_actions ops as c = Some c' \<Longrightarrow> (sys_step ops)\<^sup>*\<^sup>* c c'"
  by (induction ops as c rule: exec_actions.induct)
    (auto elim!: fault_elims intro: converse_rtranclp_into_rtranclp exec_action_step)

text \<open>\<open>write\<close> and \<open>read\<close> as a whole are such sequences of steps.\<close>

lemma extent_loop_steps:
  assumes "callers c = ks @ k # ks'"
    "extent_loop ops (c_type k) (c_handle k) (c_hint k) (c_wrapper k) (c_rest k) (sys c) = Some s"
  shows "(sys_step ops)\<^sup>*\<^sup>* c (c\<lparr>sys := s, callers := ks @ k\<lparr>c_rest := []\<rparr> # ks'\<rparr>)"
  using assms
proof (induction "c_rest k" arbitrary: c k)
  case Nil
  then have "sys c = s" "k\<lparr>c_rest := []\<rparr> = k" by (auto simp flip: Nil.hyps)
  then have "c\<lparr>sys := s, callers := ks @ k\<lparr>c_rest := []\<rparr> # ks'\<rparr> = c" using Nil.prems(1) by auto
  then show ?case by simp
next
  case (Cons x xs)
  obtain s1 where s1: "next_extent ops (c_type k) (c_handle k) (c_hint k) (c_wrapper k) x (sys c) = Some s1"
    "extent_loop ops (c_type k) (c_handle k) (c_hint k) (c_wrapper k) xs s1 = Some s"
    using Cons.prems(2) unfolding Cons.hyps(2) [symmetric] by (auto elim!: fault_elims)
  let ?k = "k\<lparr>c_rest := xs\<rparr>"
  let ?c = "c\<lparr>sys := s1, callers := ks @ ?k # ks'\<rparr>"
  have "sys_step ops c ?c" using sys_step.Extent [OF Cons.prems(1) Cons.hyps(2) [symmetric] s1(1)] .
  moreover have "(sys_step ops)\<^sup>*\<^sup>* ?c (?c\<lparr>sys := s, callers := ks @ ?k\<lparr>c_rest := []\<rparr> # ks'\<rparr>)"
    by (rule Cons.hyps(1)) (use s1(2) in simp_all)
  ultimately show ?case by (simp add: converse_rtranclp_into_rtranclp)
qed

subsection \<open>Properties\<close>

abbreviation merge_start :: "(addr \<rightharpoonup> 8 word list) \<Rightarrow> int \<Rightarrow> hrs merge_sched system" where
  "merge_start hs n \<equiv> start_system hs n (MergeRangeScheduler None empty_heap)"

abbreviation merge_hier :: "hrs merge_sched RangeScheduler" where
  "merge_hier \<equiv> merge_ops hrs_ops"

lemma merge_start_inv: "hier.merge.sys_inv (merge_start hs n)"
  using merge_new_inv [OF heap_ok_empty empty_heap_objs, of None] by (intro hier.merge.start_inv) simp_all

lemma fifo_start_inv: "fifo.sys_inv (start_system hs n [])"
  by (intro fifo.start_inv) (simp_all add: fifo_inv_def)

text \<open>A schedule for closed examples: two clients write and read one file, their extents interleave.\<close>

definition demo_handles :: "addr \<rightharpoonup> 8 word list" where
  "demo_handles = [100 \<mapsto> replicate 32 1, 101 \<mapsto> replicate 32 1]"

definition demo_extent :: "addr \<Rightarrow> u64 \<Rightarrow> u64 \<Rightarrow> extent" where
  "demo_extent b st n = \<lparr>x_mem = b, x_msize = n, x_start = st, x_size = n\<rparr>"

definition demo_script :: "action list" where
  "demo_script = [Do_Submit RANGE_WRITE 7 50 100 [demo_extent 1000 0 10] 0, Do_Extent 0, Do_Start, Do_Lock, Do_Issue,
     Do_Lock, Do_Complete 0 0]"

text \<open>
  (C2) The request scheduler with the merging range scheduler never fails: however the callers, the
  scheduling thread and the completions interleave, no assertion of \<open>write\<close>, \<open>read\<close>, \<open>run\<close>,
  \<open>check_ranges\<close> or \<open>issue\<close> can fail and no freed or foreign object is used, as long as requests are
  not empty and reads have no empty extent.
\<close>

theorem request_scheduler_safe:
  assumes "(sys_step merge_hier)\<^sup>*\<^sup>* (merge_start hs n) c"
  shows "no_fault merge_hier c"
  by (rule hier.merge.inv_no_fault [OF hier.merge.inv_reachable [OF assms merge_start_inv]])

theorem request_scheduler_safe_witness:
  "\<exists>c. exec_actions merge_hier (take 4 demo_script) (merge_start demo_handles 2) = Some c \<and> no_fault merge_hier c \<and>
     runner c = Issue [1] None"
proof -
  have "map_option (\<lambda>c. runner c)
      (exec_actions merge_hier (take 4 demo_script) (merge_start demo_handles 2)) = Some (Issue [1] None)"
    by code_simp
  then obtain c where c: "exec_actions merge_hier (take 4 demo_script) (merge_start demo_handles 2) = Some c"
    "runner c = Issue [1] None"
    by auto
  then show ?thesis using request_scheduler_safe [OF exec_actions_steps [OF c(1)]] by blast
qed



text \<open>
  (C3) A run of the scheduling thread ends. When it starts on any state the system can reach, with a
  positive batch size and no shutdown, it issues every queued extent in exactly one call, in the
  direction, on the file and with the buffer and the callback it was submitted with, and leaves the
  range scheduler empty and the scheduler inactive.
\<close>

theorem run_issues_everything:
  assumes "(sys_step merge_hier)\<^sup>*\<^sup>* (merge_start hs n) c" "runner c = Top [] 0" "0 < batch_size (sys c)" "\<not> exiting (sys c)"
  shows "\<exists>s ks. rs_run merge_hier False (sys c) = Some s \<and> merge_empty (range_sched s) \<and> \<not> schedActive s \<and>
    rs_calls s = rs_calls (sys c) @ ks \<and>
    mset (concat (map (call_items (rs_handles (sys c))) ks)) =
      image_mset (leaf_item (rs_handles (sys c)) (rs_ranges (sys c)))
        (merge_pending (\<lambda>h rs. mset (hrs_leaves h rs)) (rs_ranges (sys c)) (range_sched (sys c)))"
proof -
  have inv: "hier.merge.sys_inv c" by (rule hier.merge.inv_reachable [OF assms(1) merge_start_inv])
  note ok = hier.merge.sys_invD(1) [OF inv, unfolded assms(2) held.simps]
  have "same_keys (rs_handles (sys c)) (rs_ranges (sys c)) []" by (simp add: same_keys_def)
  from hier.merge.run_loop_Some [OF ok this assms(3,4), of 0]
  obtain s ks where 1: "run_loop merge_hier False [] 0 (sys c) = Some s"
    "sched_ok (merge_inv hrs_ops hrs_labelled hrs_own) (merge_own hrs_own) (merge_pending (\<lambda>h rs. mset (hrs_leaves h rs))) s []"
    "merge_pending (\<lambda>h rs. mset (hrs_leaves h rs)) (rs_ranges s) (range_sched s) = {#}" "\<not> schedActive s"
    "rs_calls s = rs_calls (sys c) @ ks"
    "mset (concat (map (call_items (rs_handles (sys c))) ks)) = hier.merge.items (sys c) []"
    by blast
  have "merge_inv hrs_ops hrs_labelled hrs_own (rs_ranges s) (range_sched s)" using 1(2) by (simp add: sched_ok_def)
  then have "merge_empty (range_sched s)" using hier.merge.empty_iff 1(3) by (simp add: merge_ops_def)
  then show ?thesis using 1 by (intro exI [of _ s] exI [of _ ks]) (simp add: rs_run_def hier.merge.items_def)
qed

theorem run_issues_everything_witness:
  "\<exists>c. exec_actions merge_hier (take 3 demo_script) (merge_start demo_handles 2) = Some c \<and>
    (\<exists>s ks. rs_run merge_hier False (sys c) = Some s \<and> merge_empty (range_sched s) \<and> \<not> schedActive s \<and>
      rs_calls s = rs_calls (sys c) @ ks \<and>
      mset (concat (map (call_items (rs_handles (sys c))) ks)) =
        image_mset (leaf_item (rs_handles (sys c)) (rs_ranges (sys c)))
          (merge_pending (\<lambda>h rs. mset (hrs_leaves h rs)) (rs_ranges (sys c)) (range_sched (sys c))))"
proof -
  have "map_option (\<lambda>c. (runner c, batch_size (sys c), exiting (sys c)))
      (exec_actions merge_hier (take 3 demo_script) (merge_start demo_handles 2)) = Some (Top [] 0, 2, False)"
    by code_simp
  then obtain c where c: "exec_actions merge_hier (take 3 demo_script) (merge_start demo_handles 2) = Some c"
    "runner c = Top [] 0" "batch_size (sys c) = 2" "\<not> exiting (sys c)"
    by auto
  show ?thesis using run_issues_everything [OF exec_actions_steps [OF c(1)] c(2) _ c(4)] c(1,3) by auto
qed



lemma run_loop_exiting:
  assumes "run_loop ops wait rs cur s = Some s'"
  shows "rs = [] \<longrightarrow> exiting s \<longrightarrow> \<not> rsched_empty ops (range_sched s)"
proof (rule run_loop.raw_induct [OF _ assms])
  fix run_loop' ops wait rs cur s s'
  assume IH: "\<And>ops wait rs cur s s'. run_loop' ops wait rs cur s = Some s' \<Longrightarrow>
      rs = [] \<longrightarrow> exiting s \<longrightarrow> \<not> rsched_empty ops (range_sched s)"
    and run: "do {
        (s1, res) \<leftarrow> run_locked ops wait rs cur s;
        (case res of None \<Rightarrow> Some s1
         | Some (rs1, cur1, tmp_r) \<Rightarrow>
            if rs1 = [] then run_loop' ops wait rs1 cur1 s1
            else do { (s2, rs2, cur2) \<leftarrow> run_issue rs1 tmp_r s1; run_loop' ops wait rs2 cur2 s2 })
      } = Some s'"
  show "rs = [] \<longrightarrow> exiting s \<longrightarrow> \<not> rsched_empty ops (range_sched s)"
  proof (intro impI notI)
    assume e: "rs = []" "exiting s" "rsched_empty ops (range_sched s)"
    have "wait_loop ops wait [] s = Some (s, False)" using e by (simp add: wait_loop.simps)
    moreover have "fill_loop ops [] cur s = Some (s, [], cur, None)" using e by (simp add: fill_loop.simps)
    ultimately have "run_loop' ops wait [] cur s = Some s'" using run e(1) by (simp add: run_locked_def)
    then show False using IH e by blast
  qed
qed

text \<open>
  (C36) Shutdown can hang: when the destructor has set \<open>exiting_\<close> and the scheduling thread, which is
  still in \<open>run\<close>, finds the queue empty, \<open>run\<close> never returns, so \<open>schedActive_\<close> stays set and the
  destructor spins forever.
\<close>

theorem run_hangs_on_shutdown:
  assumes "exiting s" "rsched_empty ops (range_sched s)"
  shows "rs_run ops waitForWork s = None"
  using run_loop_exiting [of ops waitForWork "[]" 0 s] assms unfolding rs_run_def
  by (cases "run_loop ops waitForWork [] 0 s") auto

theorem run_hangs_on_shutdown_witness:
  "rs_run fifo_ops False ((sys (start_system demo_handles 16 []))\<lparr>exiting := True\<rparr>) = None"
  by (rule run_hangs_on_shutdown) (simp_all add: fifo_ops_def fifo_empty_def start_system_def)

text \<open>
  (C37) A read with an empty extent crashes the scheduling thread: \<open>read\<close> queues the extent, because it
  tests the pointer \<open>file_sizes\<close> where it means the size, and \<open>issue\<close> then fails its assertion
  \<open>r->en_ > r->st_\<close>.
\<close>

theorem read_empty_extent_fails:
  assumes "handle \<noteq> null" "0 < n"
  shows "\<exists>s. rs_read fifo_ops cb ret handle [(b, 0)] [(ofs, 0)] hint (sys (start_system hs n [])) = Some s \<and>
    rs_pool s = 1 \<and> rs_run fifo_ops False s = None"
proof -
  let ?x = "\<lparr>x_mem = b, x_msize = 0, x_start = ofs, x_size = 0\<rparr> :: extent"
  let ?r = "request_range RANGE_READ handle hint 1 ?x"
  define h where "h = snd (heap_new ?r empty_heap)"
  have h: "heap_new ?r empty_heap = (1, h)" "hp_objs h 1 = Some ?r" by (simp_all add: h_def heap_new_def empty_heap_def Let_def)
  obtain s where s: "rs_read fifo_ops cb ret handle [(b, 0)] [(ofs, 0)] hint (sys (start_system hs n [])) = Some s"
    "rs_pool s = 1" "range_sched s = [1]" "rs_ranges s = h" "batch_size s = n"
    using h(1)
    by (auto simp: rs_read_def rs_open_def extents_def valid_count_def next_extent_def read_extent_def submit_extent_def
        enqueue_range_def fifo_ops_def fifo_enqueue_def start_system_def heap_new_def empty_heap_def Let_def)
  have "wait_loop fifo_ops False [] s = Some (s, False)"
    using s(3) by (simp add: wait_loop_False fifo_ops_def fifo_empty_def)
  moreover have last: "fill_loop fifo_ops rs cur s1 = Some (s1, rs, cur, None)" if "range_sched s1 = []" for rs cur s1
    using that by (subst fill_loop.simps) (simp add: fifo_ops_def fifo_empty_def)
  have "\<exists>s1 cur. fill_loop fifo_ops [] 0 s = Some (s1, [1], cur, None) \<and> rs_ranges s1 = h"
    using s(3-5) assms(2) h(2) last
    by (subst fill_loop.simps) (simp add: fifo_ops_def fifo_empty_def fifo_dequeue_def heap_read_def Let_def)
  moreover have "run_issue [1] None s1 = None" if "rs_ranges s1 = h" for s1 :: "addr list req_sched"
    using that h(2)
    by (simp add: run_issue_def check_ranges_def rs_issue_def heap_read_def request_range_def new_ChildRange_def init_fields_def
        entry_of_def nranges_def)
  ultimately have "run_loop fifo_ops False [] 0 s = None"
    by (subst run_loop.simps) (auto simp: run_locked_def)
  then show ?thesis using s(1,2) unfolding rs_run_def by blast
qed

theorem read_empty_extent_fails_witness:
  "\<exists>s. rs_read fifo_ops 7 50 100 [(1000, 0)] [(20, 0)] 0 (sys (start_system demo_handles 16 [])) = Some s \<and>
    rs_pool s = 1 \<and> rs_run fifo_ops False s = None"
  by (rule read_empty_extent_fails) simp_all

text \<open>
  (C38) A write whose extents are all empty is never called back: \<open>write\<close> queues nothing and schedules
  nothing; all that is left is a wrapper that waits for zero completions.
\<close>

theorem empty_write_never_completes:
  assumes "length files = length mem" "\<forall>x \<in> set (extents mem files). x_msize x = 0 \<and> x_size x = 0"
  shows "\<exists>w hp. rs_write ops cb ret handle mem files hint s =
    Some (s\<lparr>rs_io := (rs_io s)\<lparr>wrappers := hp\<rparr>\<rparr>) \<and> heap_new (new_IOCBWrapper cb 0 ret) (wrappers (rs_io s)) = (w, hp)"
proof -
  have loop: "extent_loop ops RANGE_WRITE handle hint w xs s' = Some s'"
    if "\<forall>x \<in> set xs. x_msize x = 0 \<and> x_size x = 0" for w xs s'
    using that by (induction xs) (simp_all add: next_extent_def write_extent_def)
  have "valid_count (extents mem files) = 0" using assms(2) by (auto simp: valid_count_def filter_empty_conv)
  then show ?thesis
    using assms(1) loop [OF assms(2)]
    by (cases "heap_new (new_IOCBWrapper cb 0 ret) (wrappers (rs_io s))")
      (simp add: rs_write_def rs_open_def new_IOCBWrapper_def)
qed

theorem empty_write_never_completes_witness:
  "let s = sys (start_system demo_handles 16 []) in
   \<exists>w hp. rs_write fifo_ops 7 50 100 [(1000, 0), (2000, 0)] [(20, 0), (30, 0)] 0 s =
    Some (s\<lparr>rs_io := (rs_io s)\<lparr>wrappers := hp\<rparr>\<rparr>) \<and> heap_new (new_IOCBWrapper 7 0 50) (wrappers (rs_io s)) = (w, hp)"
  unfolding Let_def by (rule empty_write_never_completes) (simp_all add: extents_def)

end
