(* ===== verification/Hash_Table.thy ===== *)
theory Hash_Table
  imports Iofsl_Prelude
begin

text \<open>
  The hash table of the C utilities (\<open>src/c-util/hash-table.c\<close>): chained buckets whose number is taken
  from a list of primes and grows when the table is a third full. A chain is the list of its entries from
  the head; the chains own their entries, so no two share one. The registered functions that free keys and
  values are recorded by what they are called on, in order. Every allocation may fail: its outcome is an
  argument of the operation that makes it. \<open>None\<close> is a division by zero or a signed overflow.
\<close>

record ('k, 'v, 'u) HashTable =
  ht_table :: "('k \<times> 'v) list list"
  ht_table_size :: int
  ht_hash_func :: "'u \<Rightarrow> 'k \<Rightarrow> u64"
  ht_equal_func :: "'u \<Rightarrow> 'k \<Rightarrow> 'k \<Rightarrow> bool"
  ht_key_free :: bool
  ht_value_free :: bool
  ht_entries :: int
  ht_prime_index :: nat
  ht_user :: 'u
  ht_freed :: "('k + 'v) list"

definition hash_table_primes :: "int list" where
  "hash_table_primes = [193, 389, 769, 1543, 3079, 6151, 12289, 24593, 49157, 98317,
     196613, 393241, 786433, 1572869, 3145739, 6291469,
     12582917, 25165843, 50331653, 100663319, 201326611,
     402653189, 805306457, 1610612741]"

definition hash_table_num_primes :: nat where
  "hash_table_num_primes = length hash_table_primes"

definition hash_table_set_user :: "'u \<Rightarrow> ('k, 'v, 'u) HashTable \<Rightarrow> ('k, 'v, 'u) HashTable" where
  "hash_table_set_user u t = t\<lparr>ht_user := u\<rparr>"

definition hash_table_get_user :: "('k, 'v, 'u) HashTable \<Rightarrow> 'u" where
  "hash_table_get_user t = ht_user t"

text \<open>The size of the new table, and whether \<open>calloc\<close> returned one.\<close>

definition hash_table_allocate_table :: "bool \<Rightarrow> ('k, 'v, 'u) HashTable \<Rightarrow> (('k, 'v, 'u) HashTable \<times> bool) option" where
  "hash_table_allocate_table ok t = do {
     n \<leftarrow> (if ht_prime_index t < hash_table_num_primes then Some (hash_table_primes ! ht_prime_index t)
          else do { assert_that (ht_entries t * 10 < 2147483648); Some (ht_entries t * 10) });
     Some (t\<lparr>ht_table_size := n, ht_table := (if ok then replicate (nat n) [] else [])\<rparr>, ok)
   }"

definition hash_table_free_entry :: "'k \<times> 'v \<Rightarrow> ('k, 'v, 'u) HashTable \<Rightarrow> ('k, 'v, 'u) HashTable" where
  "hash_table_free_entry e t =
     (let t1 = (if ht_key_free t then t\<lparr>ht_freed := ht_freed t @ [Inl (fst e)]\<rparr> else t)
      in if ht_value_free t1 then t1\<lparr>ht_freed := ht_freed t1 @ [Inr (snd e)]\<rparr> else t1)"

text \<open>The result is \<open>None\<close> for the null pointer. The user pointer is indeterminate until it is set.\<close>

definition hash_table_new ::
  "bool \<Rightarrow> bool \<Rightarrow> ('u \<Rightarrow> 'k \<Rightarrow> u64) \<Rightarrow> ('u \<Rightarrow> 'k \<Rightarrow> 'k \<Rightarrow> bool) \<Rightarrow> 'u \<Rightarrow> ('k, 'v, 'u) HashTable option" where
  "hash_table_new ok_struct ok_table hash_func equal_func u =
     (if \<not> ok_struct then None
      else do {
        (t, ok) \<leftarrow> hash_table_allocate_table ok_table
          \<lparr>ht_table = [], ht_table_size = 0, ht_hash_func = hash_func, ht_equal_func = equal_func,
           ht_key_free = False, ht_value_free = False, ht_entries = 0, ht_prime_index = 0, ht_user = u, ht_freed = []\<rparr>;
        if ok then Some t else None
      })"

text \<open>What freeing the table frees: all entries of all chains.\<close>

definition hash_table_free :: "('k, 'v, 'u) HashTable \<Rightarrow> ('k + 'v) list" where
  "hash_table_free t = ht_freed (fold (fold hash_table_free_entry) (ht_table t) t)"

definition hash_table_register_free_functions :: "bool \<Rightarrow> bool \<Rightarrow> ('k, 'v, 'u) HashTable \<Rightarrow> ('k, 'v, 'u) HashTable" where
  "hash_table_register_free_functions key_free value_free t = t\<lparr>ht_key_free := key_free, ht_value_free := value_free\<rparr>"

text \<open>\<open>hash_func (user_ptr, key) % table_size\<close>, an index into the table.\<close>

definition ht_index :: "'k \<Rightarrow> ('k, 'v, 'u) HashTable \<Rightarrow> nat option" where
  "ht_index k t = do {
     assert_that (ht_table_size t > 0);
     let i = nat (uint (ht_hash_func t (ht_user t) k) mod ht_table_size t);
     assert_that (i < length (ht_table t));
     Some i
   }"

text \<open>The loops that link the entries of the old chains into the new table.\<close>

fun relink_chain :: "('k \<times> 'v) list \<Rightarrow> ('k, 'v, 'u) HashTable \<Rightarrow> ('k, 'v, 'u) HashTable option" where
  "relink_chain [] t = Some t"
| "relink_chain (rover # rest) t = do {
     i \<leftarrow> ht_index (fst rover) t;
     relink_chain rest (t\<lparr>ht_table := (ht_table t)[i := rover # ht_table t ! i]\<rparr>)
   }"

fun relink_table :: "('k \<times> 'v) list list \<Rightarrow> ('k, 'v, 'u) HashTable \<Rightarrow> ('k, 'v, 'u) HashTable option" where
  "relink_table [] t = Some t"
| "relink_table (c # cs) t = do { t1 \<leftarrow> relink_chain c t; relink_table cs t1 }"

definition hash_table_enlarge :: "bool \<Rightarrow> ('k, 'v, 'u) HashTable \<Rightarrow> (('k, 'v, 'u) HashTable \<times> bool) option" where
  "hash_table_enlarge ok t = do {
     (t1, allocated) \<leftarrow> hash_table_allocate_table ok (t\<lparr>ht_prime_index := ht_prime_index t + 1\<rparr>);
     if \<not> allocated
     then Some (t1\<lparr>ht_table := ht_table t, ht_table_size := ht_table_size t, ht_prime_index := ht_prime_index t\<rparr>, False)
     else do { t2 \<leftarrow> relink_table (ht_table t) t1; Some (t2, True) }
   }"

text \<open>The first entry of a chain that passes a test, and the chain with that entry replaced or taken out.\<close>

fun chain_overwrite :: "('k \<Rightarrow> bool) \<Rightarrow> 'k \<times> 'v \<Rightarrow> ('k \<times> 'v) list \<Rightarrow> (('k \<times> 'v) \<times> ('k \<times> 'v) list) option" where
  "chain_overwrite p e [] = None"
| "chain_overwrite p e (x # xs) =
     (if p (fst x) then Some (x, e # xs) else map_option (map_prod id ((#) x)) (chain_overwrite p e xs))"

fun chain_unlink :: "('k \<Rightarrow> bool) \<Rightarrow> ('k \<times> 'v) list \<Rightarrow> (('k \<times> 'v) \<times> ('k \<times> 'v) list) option" where
  "chain_unlink p [] = None"
| "chain_unlink p (x # xs) = (if p (fst x) then Some (x, xs) else map_option (map_prod id ((#) x)) (chain_unlink p xs))"

definition free_overwritten :: "'k \<times> 'v \<Rightarrow> ('k, 'v, 'u) HashTable \<Rightarrow> ('k, 'v, 'u) HashTable" where
  "free_overwritten e t =
     (let t1 = (if ht_value_free t then t\<lparr>ht_freed := ht_freed t @ [Inr (snd e)]\<rparr> else t)
      in if ht_key_free t1 then t1\<lparr>ht_freed := ht_freed t1 @ [Inl (fst e)]\<rparr> else t1)"

text \<open>The second half of an insertion: overwrite the entry of an equal key, or link in a new one.\<close>

definition insert_entry :: "bool \<Rightarrow> 'k \<Rightarrow> 'v \<Rightarrow> ('k, 'v, 'u) HashTable \<Rightarrow> (('k, 'v, 'u) HashTable \<times> bool) option" where
  "insert_entry ok_entry key value t = do {
     i \<leftarrow> ht_index key t;
     Some (case chain_overwrite (\<lambda>k. ht_equal_func t (ht_user t) k key) (key, value) (ht_table t ! i) of
       Some (old, c) \<Rightarrow> ((free_overwritten old t)\<lparr>ht_table := (ht_table t)[i := c]\<rparr>, True)
     | None \<Rightarrow>
         if \<not> ok_entry then (t, False)
         else (t\<lparr>ht_table := (ht_table t)[i := (key, value) # ht_table t ! i], ht_entries := ht_entries t + 1\<rparr>, True))
   }"

definition hash_table_insert ::
  "bool \<Rightarrow> bool \<Rightarrow> 'k \<Rightarrow> 'v \<Rightarrow> ('k, 'v, 'u) HashTable \<Rightarrow> (('k, 'v, 'u) HashTable \<times> bool) option" where
  "hash_table_insert ok_table ok_entry key value t = do {
     assert_that (ht_entries t * 3 < 2147483648 \<and> ht_table_size t \<noteq> 0);
     (t1, room) \<leftarrow> (if ht_entries t * 3 div ht_table_size t > 0 then hash_table_enlarge ok_table t else Some (t, True));
     if \<not> room then Some (t1, False) else insert_entry ok_entry key value t1
   }"

text \<open>\<open>HASH_TABLE_NULL\<close> is the inner \<open>None\<close>.\<close>

definition hash_table_lookup :: "'k \<Rightarrow> ('k, 'v, 'u) HashTable \<Rightarrow> 'v option option" where
  "hash_table_lookup key t = do {
     i \<leftarrow> ht_index key t;
     Some (map_option snd (find (\<lambda>e. ht_equal_func t (ht_user t) key (fst e)) (ht_table t ! i)))
   }"

definition hash_table_remove :: "'k \<Rightarrow> ('k, 'v, 'u) HashTable \<Rightarrow> (('k, 'v, 'u) HashTable \<times> bool) option" where
  "hash_table_remove key t = do {
     i \<leftarrow> ht_index key t;
     Some (case chain_unlink (\<lambda>k. ht_equal_func t (ht_user t) key k) (ht_table t ! i) of
       None \<Rightarrow> (t, False)
     | Some (entry, c) \<Rightarrow>
         ((hash_table_free_entry entry (t\<lparr>ht_table := (ht_table t)[i := c]\<rparr>))\<lparr>ht_entries := ht_entries t - 1\<rparr>, True))
   }"

definition hash_table_num_entries :: "('k, 'v, 'u) HashTable \<Rightarrow> int" where
  "hash_table_num_entries t = ht_entries t"

subsection \<open>Iteration\<close>

text \<open>
  The next entry is the rest of its chain from that entry on, empty for the null pointer. The chain number
  is indeterminate while no entry was found.
\<close>

record ('k, 'v) HashTableIterator =
  it_next_entry :: "('k \<times> 'v) list"
  it_next_chain :: "nat option"

fun next_used_chain :: "'e list list \<Rightarrow> nat \<Rightarrow> (nat \<times> 'e list) option" where
  "next_used_chain [] chain = None"
| "next_used_chain (c # cs) chain = (if c \<noteq> [] then Some (chain, c) else next_used_chain cs (chain + 1))"

definition hash_table_iterate :: "('k, 'v, 'u) HashTable \<Rightarrow> ('k, 'v) HashTableIterator" where
  "hash_table_iterate t =
     (case next_used_chain (ht_table t) 0 of
        None \<Rightarrow> \<lparr>it_next_entry = [], it_next_chain = None\<rparr>
      | Some (chain, c) \<Rightarrow> \<lparr>it_next_entry = c, it_next_chain = Some chain\<rparr>)"

definition hash_table_iter_has_more :: "('k, 'v) HashTableIterator \<Rightarrow> bool" where
  "hash_table_iter_has_more it \<longleftrightarrow> it_next_entry it \<noteq> []"

definition hash_table_iter_next ::
  "('k, 'v, 'u) HashTable \<Rightarrow> ('k, 'v) HashTableIterator \<Rightarrow> ('v option \<times> ('k, 'v) HashTableIterator) option" where
  "hash_table_iter_next t it =
     (case it_next_entry it of
        [] \<Rightarrow> Some (None, it)
      | e # rest \<Rightarrow>
          if rest \<noteq> [] then Some (Some (snd e), it\<lparr>it_next_entry := rest\<rparr>)
          else do {
            c \<leftarrow> it_next_chain it;
            Some (Some (snd e),
              case next_used_chain (drop (c + 1) (ht_table t)) (c + 1) of
                None \<Rightarrow> it\<lparr>it_next_entry := [], it_next_chain := Some (max (c + 1) (length (ht_table t)))\<rparr>
              | Some (chain, es) \<Rightarrow> it\<lparr>it_next_entry := es, it_next_chain := Some chain\<rparr>)
          })"

subsection \<open>What the key functions promise\<close>

text \<open>
  The hash and the comparison function that a client hands to the table: comparing is an equivalence, and
  equal keys have the same hash.
\<close>

locale hash_keys =
  fixes hash :: "'k \<Rightarrow> u64" and equal :: "'k \<Rightarrow> 'k \<Rightarrow> bool"
  assumes equal_refl: "equal k k"
    and equal_sym: "equal k l \<Longrightarrow> equal l k"
    and equal_trans: "equal k l \<Longrightarrow> equal l m \<Longrightarrow> equal k m"
    and equal_hash: "equal k l \<Longrightarrow> hash k = hash l"

subsection \<open>The invariant\<close>

text \<open>
  The reference: a search through all entries of the table. The invariant makes the search in one chain
  agree with it: every entry is in the chain its hash selects, and no two entries have equal keys.
\<close>

definition ht_items :: "('k, 'v, 'u) HashTable \<Rightarrow> ('k \<times> 'v) list" where
  "ht_items t = concat (ht_table t)"

definition ht_eq :: "('k, 'v, 'u) HashTable \<Rightarrow> 'k \<Rightarrow> 'k \<Rightarrow> bool" where
  "ht_eq t = ht_equal_func t (ht_user t)"

definition ht_hash :: "('k, 'v, 'u) HashTable \<Rightarrow> 'k \<Rightarrow> u64" where
  "ht_hash t = ht_hash_func t (ht_user t)"

definition ht_abs :: "('k, 'v, 'u) HashTable \<Rightarrow> 'k \<rightharpoonup> 'v" where
  "ht_abs t k = map_option snd (find (\<lambda>e. ht_eq t k (fst e)) (ht_items t))"

definition bucket :: "int \<Rightarrow> ('k \<Rightarrow> u64) \<Rightarrow> 'k \<Rightarrow> nat" where
  "bucket n hash k = nat (uint (hash k) mod n)"

definition uniq_keys :: "('k \<Rightarrow> 'k \<Rightarrow> bool) \<Rightarrow> ('k \<times> 'v) list \<Rightarrow> bool" where
  "uniq_keys equal xs \<longleftrightarrow> (\<forall>k. length (filter (\<lambda>e. equal k (fst e)) xs) \<le> 1)"

definition chains_ok :: "int \<Rightarrow> ('k \<Rightarrow> u64) \<Rightarrow> ('k \<times> 'v) list list \<Rightarrow> bool" where
  "chains_ok n hash cs \<longleftrightarrow> 0 < n \<and> length cs = nat n \<and>
     (\<forall>i < length cs. \<forall>e \<in> set (cs ! i). bucket n hash (fst e) = i)"

definition ht_inv :: "('k, 'v, 'u) HashTable \<Rightarrow> bool" where
  "ht_inv t \<longleftrightarrow> chains_ok (ht_table_size t) (ht_hash t) (ht_table t) \<and> uniq_keys (ht_eq t) (ht_items t) \<and>
     ht_prime_index t < hash_table_num_primes \<and> ht_table_size t = hash_table_primes ! ht_prime_index t \<and>
     ht_entries t = int (length (ht_items t))"

subsection \<open>Chains\<close>

lemma find_uniq:
  assumes "length (filter P xs) \<le> 1"
  shows "find P xs = Some e \<longleftrightarrow> e \<in> set xs \<and> P e"
  using assms
proof (induction xs)
  case (Cons x xs)
  show ?case
  proof (cases "P x")
    case True
    then have "filter P xs = []" using Cons.prems by simp
    then show ?thesis using True by (auto simp: filter_empty_conv)
  next
    case False
    then show ?thesis using Cons by auto
  qed
qed simp

lemma find_only:
  assumes "i < length cs" "\<And>j e. j < length cs \<Longrightarrow> j \<noteq> i \<Longrightarrow> e \<in> set (cs ! j) \<Longrightarrow> \<not> P e"
  shows "find P (concat cs) = find P (cs ! i)"
proof -
  have app: "find P (xs @ ys) = (case find P xs of None \<Rightarrow> find P ys | Some e \<Rightarrow> Some e)" for xs ys
    by (induction xs) auto
  have l: "find P (concat (take i cs)) = None"
    unfolding find_None_iff
  proof
    assume "\<exists>e. e \<in> set (concat (take i cs)) \<and> P e"
    then obtain j e where "j < i" "e \<in> set (cs ! j)" "P e"
      by (auto simp: in_set_conv_nth [of _ "take i cs"])
    then show False using assms(1) assms(2) [of j e] by simp
  qed
  have r: "find P (concat (drop (Suc i) cs)) = None"
    unfolding find_None_iff
  proof
    assume "\<exists>e. e \<in> set (concat (drop (Suc i) cs)) \<and> P e"
    then obtain j e where "j < length cs - Suc i" "e \<in> set (cs ! (Suc i + j))" "P e"
      by (auto simp: in_set_conv_nth [of _ "drop (Suc i) cs"])
    then show False using assms(2) [of "Suc i + j" e] by simp
  qed
  have "concat cs = concat (take i cs) @ cs ! i @ concat (drop (Suc i) cs)"
    using arg_cong [OF id_take_nth_drop [OF assms(1)], of concat] by simp
  then show ?thesis using l r by (simp add: app split: option.splits)
qed

lemma mset_concat_update:
  assumes "i < length cs"
  shows "mset (concat (cs[i := c])) + mset (cs ! i) = mset (concat cs) + mset c"
proof -
  have "concat cs = concat (take i cs) @ cs ! i @ concat (drop (Suc i) cs)"
    using arg_cong [OF id_take_nth_drop [OF assms], of concat] by simp
  then show ?thesis using assms by (simp add: upd_conv_take_nth_drop)
qed

lemma chain_overwrite_Some:
  "chain_overwrite p e xs = Some (old, ys) \<Longrightarrow>
    p (fst old) \<and> old \<in> set xs \<and> add_mset old (mset ys) = add_mset e (mset xs)"
  by (induction xs arbitrary: ys) (auto split: if_splits simp: add_mset_commute)

lemma chain_overwrite_None: "chain_overwrite p e xs = None \<longleftrightarrow> (\<forall>x \<in> set xs. \<not> p (fst x))"
  by (induction xs) auto

lemma chain_unlink_Some:
  "chain_unlink p xs = Some (old, ys) \<Longrightarrow> p (fst old) \<and> mset xs = add_mset old (mset ys)"
  by (induction xs arbitrary: ys) (auto split: if_splits)

lemma chain_unlink_None: "chain_unlink p xs = None \<longleftrightarrow> (\<forall>x \<in> set xs. \<not> p (fst x))"
  by (induction xs) auto

lemma chains_ok_update:
  assumes "chains_ok n hash cs" "i < length cs" "set c \<subseteq> insert e (set (cs ! i))" "bucket n hash (fst e) = i \<or> e \<in> set (cs ! i)"
  shows "chains_ok n hash (cs[i := c])"
proof -
  have "bucket n hash (fst x) = i" if "x \<in> set c" for x
    using that assms by (auto simp: chains_ok_def)
  then show ?thesis using assms(1,2) by (auto simp: chains_ok_def nth_list_update)
qed

lemma bucket_less: "chains_ok n hash cs \<Longrightarrow> bucket n hash k < length cs"
  by (auto simp: chains_ok_def bucket_def nat_mono_iff)

lemma length_filter_mset: "length (filter P xs) = size (filter_mset P (mset xs))"
  by (simp flip: mset_filter)

context hash_keys
begin

lemma equal_bucket: "equal k l \<Longrightarrow> bucket n hash k = bucket n hash l"
  by (simp add: bucket_def equal_hash [of k l])

text \<open>The search in one chain agrees with the search in the whole table.\<close>

lemma find_chain:
  assumes "chains_ok n hash cs"
  shows "find (\<lambda>e. equal k (fst e)) (concat cs) = find (\<lambda>e. equal k (fst e)) (cs ! bucket n hash k)"
proof (rule find_only [OF bucket_less [OF assms]])
  fix j e assume "j < length cs" "j \<noteq> bucket n hash k" "e \<in> set (cs ! j)"
  then show "\<not> equal k (fst e)" using assms equal_bucket [of k "fst e" n] by (auto simp: chains_ok_def)
qed

lemma no_equal_chain:
  assumes "chains_ok n hash cs" "\<forall>x \<in> set (cs ! bucket n hash k). \<not> equal k (fst x)" "x \<in> set (concat cs)"
  shows "\<not> equal k (fst x)"
  using find_chain [OF assms(1), of k] assms(2,3) by (metis (no_types, lifting) find_None_iff)

text \<open>Adding an entry whose key no other has, and replacing the entry of an equal key.\<close>

lemma uniq_add:
  assumes "uniq_keys equal xs" "\<And>x. x \<in> set xs \<Longrightarrow> \<not> equal k (fst x)" "mset ys = add_mset (k, v) (mset xs)"
  shows "uniq_keys equal ys"
    "map_option snd (find (\<lambda>e. equal l (fst e)) ys) =
       (if equal l k then Some v else map_option snd (find (\<lambda>e. equal l (fst e)) xs))"
proof -
  have none: "filter (\<lambda>e. equal l (fst e)) xs = []" if "equal l k" for l
    using assms(2) equal_trans [OF equal_sym [OF that]] by (fastforce simp: filter_empty_conv)
  have len: "length (filter (\<lambda>e. equal l (fst e)) ys) =
      (if equal l k then 1 else 0) + length (filter (\<lambda>e. equal l (fst e)) xs)" for l
    by (simp add: length_filter_mset assms(3))
  show u: "uniq_keys equal ys" unfolding uniq_keys_def
  proof
    fix l
    show "length (filter (\<lambda>e. equal l (fst e)) ys) \<le> 1"
      using len [of l] none [of l] assms(1) [unfolded uniq_keys_def] by (cases "equal l k") auto
  qed
  have s: "set ys = insert (k, v) (set xs)" using assms(3) by (metis set_mset_mset set_mset_add_mset_insert)
  have fx: "find (\<lambda>e. equal l (fst e)) xs = Some e \<longleftrightarrow> e \<in> set xs \<and> equal l (fst e)" for e
    by (rule find_uniq) (use assms(1) in \<open>simp add: uniq_keys_def\<close>)
  have fy: "find (\<lambda>e. equal l (fst e)) ys = Some e \<longleftrightarrow> e \<in> set ys \<and> equal l (fst e)" for e
    by (rule find_uniq) (use u in \<open>simp add: uniq_keys_def\<close>)
  show "map_option snd (find (\<lambda>e. equal l (fst e)) ys) =
       (if equal l k then Some v else map_option snd (find (\<lambda>e. equal l (fst e)) xs))"
  proof (cases "equal l k")
    case True
    then show ?thesis using fy [of "(k, v)"] s by simp
  next
    case False
    then have "find (\<lambda>e. equal l (fst e)) ys = Some e \<longleftrightarrow> find (\<lambda>e. equal l (fst e)) xs = Some e" for e
      using fx [of e] fy [of e] s by auto
    then have "find (\<lambda>e. equal l (fst e)) ys = find (\<lambda>e. equal l (fst e)) xs"
      by (metis not_Some_eq)
    then show ?thesis using False by simp
  qed
qed

lemma uniq_remove:
  assumes "uniq_keys equal xs" "mset xs = add_mset old (mset ys)" "equal k (fst old)"
  shows "uniq_keys equal ys" "\<And>x. x \<in> set ys \<Longrightarrow> \<not> equal k (fst x)"
    "find (\<lambda>e. equal l (fst e)) ys = (if equal l k then None else find (\<lambda>e. equal l (fst e)) xs)"
proof -
  have len: "length (filter (\<lambda>e. equal l (fst e)) xs) =
      (if equal l (fst old) then 1 else 0) + length (filter (\<lambda>e. equal l (fst e)) ys)" for l
    by (simp add: length_filter_mset assms(2))
  have "length (filter (\<lambda>e. equal l (fst e)) ys) \<le> 1" for l
    using len [of l] assms(1) [unfolded uniq_keys_def, rule_format, of l] by simp
  then show u: "uniq_keys equal ys" by (simp add: uniq_keys_def)
  have "filter (\<lambda>e. equal k (fst e)) ys = []"
    using len [of k] assms(1) [unfolded uniq_keys_def, rule_format, of k] assms(3) by simp
  then show none: "\<And>x. x \<in> set ys \<Longrightarrow> \<not> equal k (fst x)" by (auto simp: filter_empty_conv)
  have s: "set xs = insert old (set ys)" using assms(2) by (metis set_mset_mset set_mset_add_mset_insert)
  have fx: "find (\<lambda>e. equal l (fst e)) xs = Some e \<longleftrightarrow> e \<in> set xs \<and> equal l (fst e)" for e
    by (rule find_uniq) (use assms(1) in \<open>simp add: uniq_keys_def\<close>)
  have fy: "find (\<lambda>e. equal l (fst e)) ys = Some e \<longleftrightarrow> e \<in> set ys \<and> equal l (fst e)" for e
    by (rule find_uniq) (use u in \<open>simp add: uniq_keys_def\<close>)
  show "find (\<lambda>e. equal l (fst e)) ys = (if equal l k then None else find (\<lambda>e. equal l (fst e)) xs)"
  proof (cases "equal l k")
    case True
    then have "\<not> equal l (fst x)" if "x \<in> set ys" for x
      using none [OF that] equal_trans [OF equal_sym [OF True], of "fst x"] by blast
    then show ?thesis using True by (auto simp: find_None_iff)
  next
    case False
    then have "\<not> equal l (fst old)" using assms(3) equal_sym equal_trans by blast
    then have "find (\<lambda>e. equal l (fst e)) ys = Some e \<longleftrightarrow> find (\<lambda>e. equal l (fst e)) xs = Some e" for e
      using fx [of e] fy [of e] s by auto
    then have "find (\<lambda>e. equal l (fst e)) ys = find (\<lambda>e. equal l (fst e)) xs"
      by (metis not_Some_eq)
    then show ?thesis using False by simp
  qed
qed

lemma uniq_perm:
  assumes "uniq_keys equal xs" "mset xs = mset ys"
  shows "uniq_keys equal ys" "find (\<lambda>e. equal l (fst e)) ys = find (\<lambda>e. equal l (fst e)) xs"
proof -
  show u: "uniq_keys equal ys" using assms by (simp add: uniq_keys_def length_filter_mset)
  have "find (\<lambda>e. equal l (fst e)) ys = Some e \<longleftrightarrow> find (\<lambda>e. equal l (fst e)) xs = Some e" for e
    using find_uniq [of "\<lambda>e. equal l (fst e)" xs e] find_uniq [of "\<lambda>e. equal l (fst e)" ys e] assms u
      mset_eq_setD [OF assms(2)]
    by (simp add: uniq_keys_def)
  then show "find (\<lambda>e. equal l (fst e)) ys = find (\<lambda>e. equal l (fst e)) xs"
    by (metis not_Some_eq)
qed

end

subsection \<open>The operations keep the invariant\<close>

text \<open>What no operation but the registration functions changes.\<close>

definition ht_same :: "('k, 'v, 'u) HashTable \<Rightarrow> ('k, 'v, 'u) HashTable \<Rightarrow> bool" where
  "ht_same t t' \<longleftrightarrow> ht_hash t' = ht_hash t \<and> ht_eq t' = ht_eq t \<and>
     ht_key_free t' = ht_key_free t \<and> ht_value_free t' = ht_value_free t"

lemma ht_same_refl [simp]: "ht_same t t"
  by (simp add: ht_same_def)

lemma ht_same_trans: "ht_same t u \<Longrightarrow> ht_same u v \<Longrightarrow> ht_same t v"
  by (simp add: ht_same_def)

lemma ht_invD:
  assumes "ht_inv t"
  shows "chains_ok (ht_table_size t) (ht_hash t) (ht_table t)" "uniq_keys (ht_eq t) (concat (ht_table t))"
  using assms by (auto simp: ht_inv_def ht_items_def)

lemma ht_index_ok:
  assumes "chains_ok (ht_table_size t) (ht_hash t) (ht_table t)"
  shows "ht_index k t = Some (bucket (ht_table_size t) (ht_hash t) k)"
  using assms bucket_less [OF assms, of k] by (simp add: ht_index_def chains_ok_def bucket_def ht_hash_def Let_def)

lemma relink_chain_ok:
  assumes "chains_ok (ht_table_size t) (ht_hash t) (ht_table t)"
  shows "\<exists>cs. relink_chain xs t = Some (t\<lparr>ht_table := cs\<rparr>) \<and> chains_ok (ht_table_size t) (ht_hash t) cs \<and>
    mset (concat cs) = mset xs + mset (concat (ht_table t))"
  using assms
proof (induction xs arbitrary: t)
  case Nil
  then show ?case by (intro exI [of _ "ht_table t"]) simp
next
  case (Cons x xs)
  let ?i = "bucket (ht_table_size t) (ht_hash t) (fst x)"
  let ?cs = "(ht_table t)[?i := x # ht_table t ! ?i]" let ?t = "t\<lparr>ht_table := ?cs\<rparr>"
  have h: "ht_hash ?t = ht_hash t" by (simp add: ht_hash_def)
  have i: "?i < length (ht_table t)" by (rule bucket_less [OF Cons.prems])
  have "chains_ok (ht_table_size t) (ht_hash t) ?cs"
    by (rule chains_ok_update [OF Cons.prems i, of _ x]) auto
  then have "chains_ok (ht_table_size ?t) (ht_hash ?t) (ht_table ?t)" using h by simp
  from Cons.IH [OF this] obtain cs where cs: "relink_chain xs ?t = Some (?t\<lparr>ht_table := cs\<rparr>)"
    "chains_ok (ht_table_size t) (ht_hash t) cs" "mset (concat cs) = mset xs + mset (concat ?cs)" using h by auto
  have "mset (concat ?cs) = add_mset x (mset (concat (ht_table t)))"
    using mset_concat_update [OF i, of "x # ht_table t ! ?i"] by simp
  then show ?case using cs ht_index_ok [OF Cons.prems, of "fst x"] by (intro exI [of _ cs]) simp
qed

lemma relink_table_ok:
  assumes "chains_ok (ht_table_size t) (ht_hash t) (ht_table t)"
  shows "\<exists>cs. relink_table xss t = Some (t\<lparr>ht_table := cs\<rparr>) \<and> chains_ok (ht_table_size t) (ht_hash t) cs \<and>
    mset (concat cs) = mset (concat xss) + mset (concat (ht_table t))"
  using assms
proof (induction xss arbitrary: t)
  case Nil
  then show ?case by (intro exI [of _ "ht_table t"]) simp
next
  case (Cons xs xss)
  obtain cs where cs: "relink_chain xs t = Some (t\<lparr>ht_table := cs\<rparr>)" "chains_ok (ht_table_size t) (ht_hash t) cs"
    "mset (concat cs) = mset xs + mset (concat (ht_table t))"
    using relink_chain_ok [OF Cons.prems, of xs] by (elim exE conjE)
  let ?t = "t\<lparr>ht_table := cs\<rparr>"
  have h: "ht_hash ?t = ht_hash t" by (simp add: ht_hash_def)
  then have "chains_ok (ht_table_size ?t) (ht_hash ?t) (ht_table ?t)" using cs(2) by simp
  from Cons.IH [OF this] show ?case using cs h by (auto simp: ac_simps)
qed

lemma primes_pos: "i < hash_table_num_primes \<Longrightarrow> 0 < hash_table_primes ! i"
proof -
  have "\<forall>n \<in> set hash_table_primes. 0 < n" by (simp add: hash_table_primes_def)
  then show "i < hash_table_num_primes \<Longrightarrow> 0 < hash_table_primes ! i"
    by (simp add: hash_table_num_primes_def)
qed

lemma empty_chains_ok: "0 < n \<Longrightarrow> chains_ok n hash (replicate (nat n) [])"
  by (simp add: chains_ok_def)

lemma concat_replicate_Nil [simp]: "concat (replicate n []) = []"
  by (induction n) auto

text \<open>A table that is a third full still has a larger prime, as long as it has fewer than 536870914 entries.\<close>

lemma next_prime:
  assumes "ht_inv t" "ht_entries t * 3 div ht_table_size t > 0" "ht_entries t < 536870914"
  shows "ht_prime_index t + 1 < hash_table_num_primes"
proof (rule ccontr)
  assume "\<not> ht_prime_index t + 1 < hash_table_num_primes"
  then have "ht_prime_index t = 23" using assms(1) by (simp add: ht_inv_def hash_table_num_primes_def hash_table_primes_def)
  then have "ht_table_size t = 1610612741" using assms(1) by (simp add: ht_inv_def hash_table_primes_def)
  then show False using assms(2,3) by simp
qed

lemma enlarge_failed: "ht_prime_index t + 1 < hash_table_num_primes \<Longrightarrow> hash_table_enlarge False t = Some (t, False)"
  by (simp add: hash_table_enlarge_def hash_table_allocate_table_def)

context hash_keys
begin

lemma enlarge_ok:
  assumes "ht_inv t" "ht_hash t = hash" "ht_eq t = equal" "ht_prime_index t + 1 < hash_table_num_primes"
  shows "\<exists>t'. hash_table_enlarge True t = Some (t', True) \<and> ht_inv t' \<and> ht_same t t' \<and> ht_abs t' = ht_abs t \<and>
    mset (ht_items t') = mset (ht_items t) \<and> ht_entries t' = ht_entries t \<and> ht_freed t' = ht_freed t"
proof -
  let ?n = "hash_table_primes ! Suc (ht_prime_index t)"
  let ?t = "t\<lparr>ht_prime_index := ht_prime_index t + 1, ht_table_size := ?n, ht_table := replicate (nat ?n) []\<rparr>"
  have n: "0 < ?n" using primes_pos assms(4) by simp
  have h: "ht_hash ?t = hash" using assms(2) by (simp add: ht_hash_def)
  have "chains_ok (ht_table_size ?t) (ht_hash ?t) (ht_table ?t)" using empty_chains_ok [OF n] by simp
  from relink_table_ok [OF this, of "ht_table t"] obtain cs where
    cs: "relink_table (ht_table t) ?t = Some (?t\<lparr>ht_table := cs\<rparr>)" "chains_ok ?n hash cs"
    "mset (concat cs) = mset (concat (ht_table t))" using h by auto
  let ?u = "?t\<lparr>ht_table := cs\<rparr>"
  have u: "ht_hash ?u = hash" "ht_eq ?u = equal" using assms(2,3) by (simp_all add: ht_hash_def ht_eq_def)
  have x: "uniq_keys equal (concat (ht_table t))" using assms(1,3) by (simp add: ht_inv_def ht_items_def)
  have inv: "ht_inv ?u" using assms(1,4) cs(2,3) u uniq_perm(1) [OF x cs(3) [symmetric]] mset_eq_length [OF cs(3)]
    by (simp add: ht_inv_def ht_items_def)
  have "ht_abs ?u = ht_abs t"
    using uniq_perm(2) [OF x cs(3) [symmetric]] u assms(3) by (simp add: fun_eq_iff ht_abs_def ht_items_def)
  moreover have "hash_table_enlarge True t = Some (?u, True)"
    using assms(4) cs(1) by (simp add: hash_table_enlarge_def hash_table_allocate_table_def)
  ultimately show ?thesis using inv cs(3) u assms(2,3) by (intro exI [of _ ?u]) (simp add: ht_same_def ht_items_def)
qed

text \<open>Looking up is the search through all entries.\<close>

lemma lookup_ok:
  assumes "ht_inv t" "ht_hash t = hash" "ht_eq t = equal"
  shows "hash_table_lookup k t = Some (ht_abs t k)"
  using assms(2,3) find_chain [of "ht_table_size t" "ht_table t" k] ht_index_ok [of t k] ht_invD [OF assms(1)]
  by (simp add: hash_table_lookup_def ht_abs_def ht_items_def ht_eq_def)

lemma remove_ok:
  assumes "ht_inv t" "ht_hash t = hash" "ht_eq t = equal"
  shows "\<exists>t'. hash_table_remove k t = Some (t', ht_abs t k \<noteq> None) \<and> ht_inv t' \<and> ht_same t t' \<and>
    ht_abs t' = (\<lambda>l. if equal l k then None else ht_abs t l) \<and>
    (case find (\<lambda>e. equal k (fst e)) (ht_items t) of
       None \<Rightarrow> t' = t
     | Some e \<Rightarrow> mset (ht_items t) = add_mset e (mset (ht_items t')) \<and>
         ht_freed t' = ht_freed t @ (if ht_key_free t then [Inl (fst e)] else []) @ (if ht_value_free t then [Inr (snd e)] else []))"
proof -
  let ?n = "ht_table_size t" let ?i = "bucket ?n hash k" let ?cs = "ht_table t"
  have c: "chains_ok ?n hash ?cs" and x: "uniq_keys equal (concat ?cs)"
    using ht_invD [OF assms(1)] assms(2,3) by simp_all
  have i: "?i < length ?cs" by (rule bucket_less [OF c])
  have ix: "ht_index k t = Some ?i" using ht_index_ok [of t k] c assms(2) by simp
  show ?thesis
  proof (cases "chain_unlink (equal k) (?cs ! ?i)")
    case None
    then have none: "\<forall>e \<in> set (?cs ! ?i). \<not> equal k (fst e)" by (simp add: chain_unlink_None)
    have "find (\<lambda>e. equal l (fst e)) (concat ?cs) = None" if "equal l k" for l
      using no_equal_chain [OF c none] equal_trans [OF equal_sym [OF that]] unfolding find_None_iff by blast
    then have "ht_abs t k = None" "ht_abs t = (\<lambda>l. if equal l k then None else ht_abs t l)"
      "find (\<lambda>e. equal k (fst e)) (ht_items t) = None"
      using assms(3) equal_refl by (auto simp: ht_abs_def ht_items_def fun_eq_iff)
    then show ?thesis using None ix assms by (auto simp: hash_table_remove_def ht_eq_def)
  next
    case (Some r)
    obtain e c' where r: "r = (e, c')" by (cases r)
    have e: "equal k (fst e)" "mset (?cs ! ?i) = add_mset e (mset c')"
      using chain_unlink_Some [of "equal k" "?cs ! ?i" e c'] Some r by auto
    let ?ds = "?cs[?i := c']"
    have m: "mset (concat ?cs) = add_mset e (mset (concat ?ds))"
      using mset_concat_update [OF i, of c'] e(2) by simp
    note rem = uniq_remove [OF x m e(1)]
    have "e \<in> set (concat ?cs)" using m by (metis set_mset_mset union_single_eq_member)
    then have f: "find (\<lambda>e. equal k (fst e)) (concat ?cs) = Some e"
      using find_uniq [of "\<lambda>e. equal k (fst e)" "concat ?cs" e] x e(1) by (simp add: uniq_keys_def)
    have "set (?cs ! ?i) = insert e (set c')" using arg_cong [OF e(2), of set_mset] by simp
    then have d: "chains_ok ?n hash ?ds" by (intro chains_ok_update [OF c i, of _ e]) auto
    let ?u = "(hash_table_free_entry e (t\<lparr>ht_table := ?ds\<rparr>))\<lparr>ht_entries := ht_entries t - 1\<rparr>"
    have tab: "ht_table ?u = ?ds" "ht_table_size ?u = ?n" "ht_prime_index ?u = ht_prime_index t"
      "ht_hash ?u = hash" "ht_eq ?u = equal" "ht_entries ?u = ht_entries t - 1"
      "ht_key_free ?u = ht_key_free t" "ht_value_free ?u = ht_value_free t"
      "ht_freed ?u = ht_freed t @ (if ht_key_free t then [Inl (fst e)] else []) @ (if ht_value_free t then [Inr (snd e)] else [])"
      using assms(2,3) by (simp_all add: hash_table_free_entry_def Let_def ht_hash_def ht_eq_def)
    have "hash_table_remove k t = Some (?u, True)"
      using ix Some r assms(3) by (simp add: hash_table_remove_def ht_eq_def)
    moreover have "ht_inv ?u" using assms(1) d rem(1) tab m mset_eq_length [OF m [folded mset.simps(2)]]
      by (simp add: ht_inv_def ht_items_def)
    moreover have "ht_abs ?u = (\<lambda>l. if equal l k then None else ht_abs t l)"
      using rem(3) tab assms(3) by (simp add: ht_abs_def ht_items_def fun_eq_iff)
    ultimately show ?thesis using f m tab assms(2,3)
      by (intro exI [of _ ?u]) (simp add: ht_abs_def ht_items_def ht_same_def)
  qed
qed

text \<open>Inserting into a table that has room: an equal key is overwritten in place, otherwise an entry is added.\<close>

definition inserted :: "'k \<Rightarrow> 'v \<Rightarrow> ('k, 'v, 'u) HashTable \<Rightarrow> ('k, 'v, 'u) HashTable \<Rightarrow> bool" where
  "inserted k v t t' \<longleftrightarrow> ht_inv t' \<and> ht_same t t' \<and> ht_abs t' = (\<lambda>l. if ht_eq t l k then Some v else ht_abs t l) \<and>
     (ht_abs t k = None \<longrightarrow> mset (ht_items t') = add_mset (k, v) (mset (ht_items t)) \<and> ht_freed t' = ht_freed t) \<and>
     ht_entries t' = ht_entries t + (if ht_abs t k = None then 1 else 0)"

lemma insert_push:
  assumes "ht_inv t" "ht_hash t = hash" "ht_eq t = equal"
    "\<forall>e \<in> set (ht_table t ! bucket (ht_table_size t) hash k). \<not> equal k (fst e)"
  shows "inserted k v t (t\<lparr>ht_table := (ht_table t)[bucket (ht_table_size t) hash k :=
      (k, v) # ht_table t ! bucket (ht_table_size t) hash k], ht_entries := ht_entries t + 1\<rparr>)" (is "inserted k v t ?u")
proof -
  let ?n = "ht_table_size t" let ?i = "bucket ?n hash k" let ?cs = "ht_table t" let ?ds = "?cs[?i := (k, v) # ?cs ! ?i]"
  have c: "chains_ok ?n hash ?cs" and x: "uniq_keys equal (concat ?cs)"
    using ht_invD [OF assms(1)] assms(2,3) by simp_all
  have i: "?i < length ?cs" by (rule bucket_less [OF c])
  have m: "mset (concat ?ds) = add_mset (k, v) (mset (concat ?cs))"
    using mset_concat_update [OF i, of "(k, v) # ?cs ! ?i"] by simp
  note add = uniq_add [OF x no_equal_chain [OF c assms(4)] m]
  have d: "chains_ok ?n hash ?ds"
    by (rule chains_ok_update [OF c i, of _ "(k, v)"]) auto
  have tab: "ht_hash ?u = hash" "ht_eq ?u = equal" using assms(2,3) by (simp_all add: ht_hash_def ht_eq_def)
  have none: "ht_abs t k = None"
  proof -
    have "find (\<lambda>e. equal k (fst e)) (concat ?cs) = None"
      using no_equal_chain [OF c assms(4)] unfolding find_None_iff by blast
    then show ?thesis using assms(3) by (simp add: ht_abs_def ht_items_def)
  qed
  have "ht_inv ?u" using assms(1) d add(1) tab mset_eq_length [OF m [folded mset.simps(2)]]
    by (simp add: ht_inv_def ht_items_def)
  moreover have "ht_abs ?u = (\<lambda>l. if equal l k then Some v else ht_abs t l)"
    using add(2) tab assms(3) by (simp add: ht_abs_def ht_items_def fun_eq_iff)
  ultimately show ?thesis using none m tab assms(2,3) by (simp add: inserted_def ht_same_def ht_items_def)
qed

lemma insert_overwrite:
  assumes "ht_inv t" "ht_hash t = hash" "ht_eq t = equal"
    "chain_overwrite (\<lambda>l. equal l k) (k, v) (ht_table t ! bucket (ht_table_size t) hash k) = Some (old, c')"
  shows "inserted k v t ((free_overwritten old t)\<lparr>ht_table := (ht_table t)[bucket (ht_table_size t) hash k := c']\<rparr>)"
    (is "inserted k v t ?u")
proof -
  let ?n = "ht_table_size t" let ?i = "bucket ?n hash k" let ?cs = "ht_table t" let ?ds = "?cs[?i := c']"
  have c: "chains_ok ?n hash ?cs" and x: "uniq_keys equal (concat ?cs)"
    using ht_invD [OF assms(1)] assms(2,3) by simp_all
  have i: "?i < length ?cs" by (rule bucket_less [OF c])
  have old: "equal k (fst old)" "old \<in> set (?cs ! ?i)" "add_mset old (mset c') = add_mset (k, v) (mset (?cs ! ?i))"
    using chain_overwrite_Some [OF assms(4)] equal_sym by auto
  then have mem: "old \<in> set (concat ?cs)" using i by auto
  obtain ys where ys: "mset (concat ?cs) = add_mset old (mset ys)"
    using mem by (metis insert_DiffM set_mset_mset ex_mset)
  have m: "mset (concat ?ds) = add_mset (k, v) (mset ys)"
  proof -
    have "mset (concat ?ds) + mset (?cs ! ?i) = add_mset old (mset ys) + mset c'"
      using mset_concat_update [OF i, of c'] ys by simp
    also have "\<dots> = mset ys + add_mset old (mset c')" by simp
    finally have "mset (concat ?ds) + mset (?cs ! ?i) = add_mset (k, v) (mset ys) + mset (?cs ! ?i)"
      using old(3) by simp
    then show ?thesis by simp
  qed
  note rem = uniq_remove [OF x ys old(1)]
  note add = uniq_add [OF rem(1,2) m]
  have "set c' \<subseteq> insert (k, v) (set (?cs ! ?i))"
    using arg_cong [OF old(3), of set_mset] by auto
  then have d: "chains_ok ?n hash ?ds"
    by (intro chains_ok_update [OF c i, of _ "(k, v)"]) auto
  have tab: "ht_table ?u = ?ds" "ht_table_size ?u = ?n" "ht_prime_index ?u = ht_prime_index t"
    "ht_hash ?u = hash" "ht_eq ?u = equal" "ht_entries ?u = ht_entries t"
    "ht_key_free ?u = ht_key_free t" "ht_value_free ?u = ht_value_free t"
    using assms(2,3) by (simp_all add: free_overwritten_def Let_def ht_hash_def ht_eq_def)
  have "length (concat ?ds) = length (concat ?cs)"
    using arg_cong [OF m, of size] arg_cong [OF ys, of size] by (simp only: size_mset size_add_mset)
  then have "ht_inv ?u" using assms(1) d add(1) tab by (simp add: ht_inv_def ht_items_def)
  moreover have "ht_abs ?u = (\<lambda>l. if equal l k then Some v else ht_abs t l)"
    using add(2) rem(3) tab assms(3) by (simp add: ht_abs_def ht_items_def fun_eq_iff)
  moreover obtain y where "ht_abs t k = Some y"
  proof -
    have "find (\<lambda>e. equal k (fst e)) (concat ?cs) \<noteq> None"
      using mem old(1) unfolding find_None_iff by blast
    then show thesis using that assms(3) by (auto simp: ht_abs_def ht_items_def)
  qed
  ultimately show ?thesis using tab assms(2,3) by (simp add: inserted_def ht_same_def)
qed

lemma insert_entry_ok:
  assumes "ht_inv t" "ht_hash t = hash" "ht_eq t = equal"
  shows "\<exists>t' r. insert_entry ok k v t = Some (t', r) \<and> (ok \<longrightarrow> r) \<and> (r \<longrightarrow> inserted k v t t') \<and> (\<not> r \<longrightarrow> t' = t)"
proof -
  let ?i = "bucket (ht_table_size t) hash k"
  have ix: "ht_index k t = Some ?i" using ht_index_ok [OF ht_invD(1) [OF assms(1)]] assms(2) by simp
  have e: "ht_equal_func t (ht_user t) = equal" using assms(3) by (simp add: ht_eq_def)
  show ?thesis
  proof (cases "chain_overwrite (\<lambda>l. equal l k) (k, v) (ht_table t ! ?i)")
    case None
    then have n: "\<forall>e \<in> set (ht_table t ! ?i). \<not> equal k (fst e)" using equal_sym by (auto simp: chain_overwrite_None)
    show ?thesis using None ix e insert_push [OF assms n, of v] by (cases ok) (auto simp: insert_entry_def)
  next
    case (Some r)
    obtain old c where "r = (old, c)" by (cases r)
    then show ?thesis using Some ix e insert_overwrite [OF assms, of k v old c] by (auto simp: insert_entry_def)
  qed
qed

lemma insert_ok:
  assumes "ht_inv t" "ht_hash t = hash" "ht_eq t = equal" "ht_entries t < 536870914"
  shows "\<exists>t' r. hash_table_insert ok_table ok_entry k v t = Some (t', r) \<and> (ok_table \<and> ok_entry \<longrightarrow> r) \<and>
    (r \<longrightarrow> inserted k v t t') \<and> (\<not> r \<longrightarrow> ht_inv t' \<and> ht_same t t' \<and> ht_abs t' = ht_abs t \<and> ht_entries t' = ht_entries t)"
proof -
  have n: "ht_entries t * 3 < 2147483648" "ht_table_size t \<noteq> 0"
    using assms(4) ht_invD(1) [OF assms(1)] by (auto simp: chains_ok_def)
  show ?thesis
  proof (cases "ht_entries t * 3 div ht_table_size t > 0")
    case False
    obtain t' r where r: "insert_entry ok_entry k v t = Some (t', r)" "ok_entry \<longrightarrow> r" "r \<longrightarrow> inserted k v t t'" "\<not> r \<longrightarrow> t' = t"
      using insert_entry_ok [OF assms(1-3), of ok_entry k v] by (elim exE conjE)
    have "hash_table_insert ok_table ok_entry k v t = Some (t', r)" using False n r(1) by (simp add: hash_table_insert_def)
    then show ?thesis using r(2-4) assms(1) by (intro exI [of _ t'] exI [of _ r]) simp
  next
    case True
    note p = next_prime [OF assms(1) True assms(4)]
    show ?thesis
    proof (cases ok_table)
      case False
      then have "hash_table_insert ok_table ok_entry k v t = Some (t, False)"
        using n True enlarge_failed [OF p] by (simp add: hash_table_insert_def)
      then show ?thesis using False assms(1) by (intro exI [of _ t] exI [of _ False]) simp
    next
      case big: True
      obtain u where u: "hash_table_enlarge True t = Some (u, True)" "ht_inv u" "ht_same t u" "ht_abs u = ht_abs t"
        "mset (ht_items u) = mset (ht_items t)" "ht_entries u = ht_entries t" "ht_freed u = ht_freed t"
        using enlarge_ok [OF assms(1-3) p] by (elim exE conjE)
      then have k: "ht_hash u = hash" "ht_eq u = equal" using assms(2,3) by (simp_all add: ht_same_def)
      obtain t' r where r: "insert_entry ok_entry k v u = Some (t', r)" "ok_entry \<longrightarrow> r" "r \<longrightarrow> inserted k v u t'" "\<not> r \<longrightarrow> t' = u"
        using insert_entry_ok [OF u(2) k, of ok_entry k v] by (elim exE conjE)
      have "inserted k v t t'" if "inserted k v u t'"
        using that ht_same_trans [OF u(3), of t'] unfolding inserted_def u(4-7) k(2) assms(3) by simp
      moreover have "hash_table_insert ok_table ok_entry k v t = Some (t', r)"
        using True big n u(1) r(1) by (simp add: hash_table_insert_def)
      ultimately show ?thesis using r(2-4) u(2-6) by (intro exI [of _ t'] exI [of _ r]) simp
    qed
  qed
qed

end

subsection \<open>Refinement of a map\<close>

text \<open>
  A client's calls, with the outcome of the allocations an insertion may make, and what they return. The
  specification is a map from keys to values; an insertion may fail only when an allocation did.
\<close>

datatype ('k, 'v) ht_op = HT_Insert bool bool 'k 'v | HT_Lookup 'k | HT_Remove 'k

datatype 'v ht_res = HT_Ok bool | HT_Value "'v option"

fun ht_step :: "('k, 'v) ht_op \<Rightarrow> ('k, 'v, 'u) HashTable \<Rightarrow> (('k, 'v, 'u) HashTable \<times> 'v ht_res) option" where
  "ht_step (HT_Insert a b k v) t = do { (t1, r) \<leftarrow> hash_table_insert a b k v t; Some (t1, HT_Ok r) }"
| "ht_step (HT_Lookup k) t = do { r \<leftarrow> hash_table_lookup k t; Some (t, HT_Value r) }"
| "ht_step (HT_Remove k) t = do { (t1, r) \<leftarrow> hash_table_remove k t; Some (t1, HT_Ok r) }"

fun ht_run :: "('k, 'v) ht_op list \<Rightarrow> ('k, 'v, 'u) HashTable \<Rightarrow> (('k, 'v, 'u) HashTable \<times> 'v ht_res list) option" where
  "ht_run [] t = Some (t, [])"
| "ht_run (op # ops) t = do { (t1, r) \<leftarrow> ht_step op t; (t2, rs) \<leftarrow> ht_run ops t1; Some (t2, r # rs) }"

fun map_step :: "('k \<Rightarrow> 'k \<Rightarrow> bool) \<Rightarrow> ('k, 'v) ht_op \<Rightarrow> 'v ht_res \<Rightarrow> ('k \<rightharpoonup> 'v) \<Rightarrow> ('k \<rightharpoonup> 'v) option" where
  "map_step equal (HT_Insert a b k v) (HT_Ok r) m =
     (if r then Some (\<lambda>l. if equal l k then Some v else m l) else if a \<and> b then None else Some m)"
| "map_step equal (HT_Lookup k) (HT_Value r) m = (if r = m k then Some m else None)"
| "map_step equal (HT_Remove k) (HT_Ok r) m =
     (if r = (m k \<noteq> None) then Some (\<lambda>l. if equal l k then None else m l) else None)"
| "map_step equal _ _ m = None"

fun map_run :: "('k \<Rightarrow> 'k \<Rightarrow> bool) \<Rightarrow> ('k, 'v) ht_op list \<Rightarrow> 'v ht_res list \<Rightarrow> ('k \<rightharpoonup> 'v) \<Rightarrow> ('k \<rightharpoonup> 'v) option" where
  "map_run equal [] [] m = Some m"
| "map_run equal (op # ops) (r # rs) m = do { m1 \<leftarrow> map_step equal op r m; map_run equal ops rs m1 }"
| "map_run equal _ _ m = None"

lemma new_ok:
  assumes "hash_table_new True True hash_func equal_func u = Some t"
  shows "ht_inv t" "ht_hash t = hash_func u" "ht_eq t = equal_func u" "ht_abs t = Map.empty" "ht_entries t = 0"
    "ht_items t = []" "ht_freed t = []" "ht_key_free t = False" "ht_value_free t = False"
proof -
  have p: "0 < hash_table_num_primes" by (simp add: hash_table_num_primes_def hash_table_primes_def)
  define n where "n = hash_table_primes ! 0"
  have n: "0 < n" using primes_pos [OF p] by (simp add: n_def)
  have t: "t = \<lparr>ht_table = replicate (nat n) [], ht_table_size = n, ht_hash_func = hash_func, ht_equal_func = equal_func,
      ht_key_free = False, ht_value_free = False, ht_entries = 0, ht_prime_index = 0, ht_user = u, ht_freed = []\<rparr>"
    using assms p by (simp add: hash_table_new_def hash_table_allocate_table_def n_def)
  show "ht_hash t = hash_func u" "ht_eq t = equal_func u" "ht_entries t = 0" "ht_freed t = []" "ht_key_free t = False"
    "ht_value_free t = False" by (simp_all add: t ht_hash_def ht_eq_def)
  show i: "ht_items t = []" by (simp add: t ht_items_def)
  then show "ht_abs t = Map.empty" by (simp add: ht_abs_def fun_eq_iff)
  show "ht_inv t" using i p empty_chains_ok [OF n] by (simp add: ht_inv_def uniq_keys_def t n_def [symmetric])
qed

context hash_keys
begin

lemma step_refines:
  fixes t :: "('k, 'v, 'u) HashTable"
  assumes "ht_inv t" "ht_hash t = hash" "ht_eq t = equal" "ht_entries t < 536870914"
  shows "\<exists>t' r. ht_step op t = Some (t', r) \<and> ht_inv t' \<and> ht_hash t' = hash \<and> ht_eq t' = equal \<and>
    ht_entries t' \<le> ht_entries t + 1 \<and> map_step equal op r (ht_abs t) = Some (ht_abs t')"
proof (cases op)
  case (HT_Insert a b k v)
  obtain t' r where r: "hash_table_insert a b k v t = Some (t', r)" "a \<and> b \<longrightarrow> r" "r \<longrightarrow> inserted k v t t'"
    "\<not> r \<longrightarrow> ht_inv t' \<and> ht_same t t' \<and> ht_abs t' = ht_abs t \<and> ht_entries t' = ht_entries t"
    using insert_ok [OF assms, of a b k v] by (elim exE conjE)
  have s: "ht_step op t = Some (t', HT_Ok r)" using r(1) HT_Insert by simp
  show ?thesis
  proof (cases r)
    case True
    then have "ht_inv t'" "ht_same t t'" "ht_abs t' = (\<lambda>l. if ht_eq t l k then Some v else ht_abs t l)"
      "ht_entries t' \<le> ht_entries t + 1"
      using r(3) by (simp_all add: inserted_def)
    then show ?thesis using s True HT_Insert assms(2,3) by (intro exI [of _ t'] exI [of _ "HT_Ok r"]) (simp add: ht_same_def)
  next
    case False
    then show ?thesis using s r(2,4) HT_Insert assms(2,3)
      by (intro exI [of _ t'] exI [of _ "HT_Ok r"]) (simp add: ht_same_def)
  qed
next
  case (HT_Lookup k)
  then show ?thesis using lookup_ok [OF assms(1-3)] assms by simp
next
  case (HT_Remove k)
  obtain t' where t': "hash_table_remove k t = Some (t', ht_abs t k \<noteq> None)" "ht_inv t'" "ht_same t t'"
    "ht_abs t' = (\<lambda>l. if equal l k then None else ht_abs t l)"
    "case find (\<lambda>e. equal k (fst e)) (ht_items t) of None \<Rightarrow> t' = t
      | Some e \<Rightarrow> mset (ht_items t) = add_mset e (mset (ht_items t')) \<and>
         ht_freed t' = ht_freed t @ (if ht_key_free t then [Inl (fst e)] else []) @ (if ht_value_free t then [Inr (snd e)] else [])"
    using remove_ok [OF assms(1-3), of k] by (elim exE conjE)
  have "ht_entries t' \<le> ht_entries t"
  proof (cases "find (\<lambda>e. equal k (fst e)) (ht_items t)")
    case None
    then show ?thesis using t'(5) by simp
  next
    case (Some e)
    then have "mset (ht_items t) = add_mset e (mset (ht_items t'))" using t'(5) by simp
    from arg_cong [OF this, of size] have "length (ht_items t) = Suc (length (ht_items t'))"
      by (simp only: size_mset size_add_mset)
    then show ?thesis using assms(1) t'(2) by (simp add: ht_inv_def)
  qed
  then show ?thesis using t'(1-4) HT_Remove assms(2,3) by (simp add: ht_same_def)
qed

lemma run_refines:
  fixes t :: "('k, 'v, 'u) HashTable"
  assumes "ht_inv t" "ht_hash t = hash" "ht_eq t = equal" "ht_entries t + int (length ops) \<le> 536870914"
  shows "\<exists>t' rs. ht_run ops t = Some (t', rs) \<and> ht_inv t' \<and> map_run equal ops rs (ht_abs t) = Some (ht_abs t')"
  using assms
proof (induction ops arbitrary: t)
  case (Cons op ops)
  then have "ht_entries t < 536870914" by simp
  from step_refines [OF Cons.prems(1-3) this, of op] obtain t1 r where
    t1: "ht_step op t = Some (t1, r)" "ht_inv t1" "ht_hash t1 = hash" "ht_eq t1 = equal"
    "ht_entries t1 \<le> ht_entries t + 1" "map_step equal op r (ht_abs t) = Some (ht_abs t1)"
    by (elim exE conjE)
  have "ht_entries t1 + int (length ops) \<le> 536870914" using t1(5) Cons.prems(4) by simp
  from Cons.IH [OF t1(2-4) this] obtain t2 rs where
    "ht_run ops t1 = Some (t2, rs)" "ht_inv t2" "map_run equal ops rs (ht_abs t1) = Some (ht_abs t2)"
    by (elim exE conjE)
  then show ?case using t1 by simp
qed simp

end

text \<open>
  (C10) A hash table refines a map. For key functions that agree (comparing is an equivalence and equal keys
  have equal hashes), any sequence of at most 536870914 insertions, lookups and removals on a new table runs
  without overflow, also across enlargements and failed allocations; every result is the one the map gives,
  an insertion fails only when an allocation failed, and the final table represents the final map.
\<close>

theorem hash_table_refines_map:
  assumes "hash_keys (hash_func u) (equal_func u)" "length ops \<le> 536870914"
    "hash_table_new True True hash_func equal_func u = Some t"
  shows "\<exists>t' rs. ht_run ops t = Some (t', rs) \<and> ht_inv t' \<and> map_run (equal_func u) ops rs Map.empty = Some (ht_abs t')"
  using hash_keys.run_refines [OF assms(1), of t ops] new_ok [OF assms(3)] assms(2) by simp

lemma new_exists: "\<exists>t. hash_table_new True True hash_func equal_func u = Some t"
  by (simp add: hash_table_new_def hash_table_allocate_table_def hash_table_num_primes_def hash_table_primes_def)

lemma word_keys: "hash_keys (\<lambda>k :: u64. k) (=)"
  by unfold_locales auto

text \<open>Two keys of the same bucket, one of them removed again.\<close>

theorem hash_table_refines_map_witness:
  "\<exists>t t' rs. hash_table_new True True (\<lambda>_ k. k) (\<lambda>_. (=)) () = Some t \<and>
     ht_run [HT_Insert True True (1 :: u64) ''a'', HT_Insert True False 194 ''b'', HT_Insert True True 194 ''c'',
       HT_Remove 1, HT_Lookup 194, HT_Lookup 1] t = Some (t', rs) \<and>
     map_run (=) [HT_Insert True True (1 :: u64) ''a'', HT_Insert True False 194 ''b'', HT_Insert True True 194 ''c'',
       HT_Remove 1, HT_Lookup 194, HT_Lookup 1] rs Map.empty = Some (ht_abs t')"
proof -
  obtain t :: "(u64, string, unit) HashTable" where t: "hash_table_new True True (\<lambda>_ k. k) (\<lambda>_. (=)) () = Some t"
    using new_exists [of "\<lambda>_ k. k" "\<lambda>_. (=)" "()"] by blast
  let ?ops = "[HT_Insert True True (1 :: u64) ''a'', HT_Insert True False 194 ''b'', HT_Insert True True 194 ''c'',
    HT_Remove 1, HT_Lookup 194, HT_Lookup 1]"
  have "length ?ops \<le> 536870914" by simp
  from hash_table_refines_map [of "\<lambda>_ k. k" "()" "\<lambda>_. (=)", OF word_keys this t] show ?thesis using t by blast
qed

subsection \<open>Iteration visits every entry\<close>

fun iter_take :: "nat \<Rightarrow> ('k, 'v, 'u) HashTable \<Rightarrow> ('k, 'v) HashTableIterator \<Rightarrow> ('v list \<times> ('k, 'v) HashTableIterator) option" where
  "iter_take 0 t it = Some ([], it)"
| "iter_take (Suc n) t it = do {
     assert_that (hash_table_iter_has_more it);
     (r, it1) \<leftarrow> hash_table_iter_next t it;
     v \<leftarrow> r;
     (vs, it2) \<leftarrow> iter_take n t it1;
     Some (v # vs, it2)
   }"

lemma next_used_chain_None: "next_used_chain cs n = None \<Longrightarrow> concat cs = []"
  by (induction cs n rule: next_used_chain.induct) (auto split: if_splits)

lemma next_used_chain_Some:
  "next_used_chain cs n = Some (m, c) \<Longrightarrow> n \<le> m \<and> c \<noteq> [] \<and> m - n < length cs \<and> concat cs = c @ concat (drop (Suc (m - n)) cs)"
proof (induction cs n rule: next_used_chain.induct)
  case (2 x xs n)
  show ?case
  proof (cases "x = []")
    case True
    then have "Suc n \<le> m" "c \<noteq> []" "m - Suc n < length xs" "concat xs = c @ concat (drop (Suc (m - Suc n)) xs)"
      using 2 by auto
    moreover from this have "m - n = Suc (m - Suc n)" by simp
    ultimately show ?thesis using True by simp
  next
    case False
    then show ?thesis using 2 by auto
  qed
qed simp

text \<open>What an iterator has still to visit.\<close>

definition it_rest :: "('k, 'v, 'u) HashTable \<Rightarrow> ('k, 'v) HashTableIterator \<Rightarrow> ('k \<times> 'v) list" where
  "it_rest t it = (if it_next_entry it = [] then []
     else it_next_entry it @ (case it_next_chain it of None \<Rightarrow> [] | Some c \<Rightarrow> concat (drop (Suc c) (ht_table t))))"

definition it_ok :: "('k, 'v) HashTableIterator \<Rightarrow> bool" where
  "it_ok it \<longleftrightarrow> (it_next_entry it \<noteq> [] \<longrightarrow> it_next_chain it \<noteq> None)"

lemma iterate_ok: "it_ok (hash_table_iterate t) \<and> it_rest t (hash_table_iterate t) = ht_items t"
proof (cases "next_used_chain (ht_table t) 0")
  case None
  then show ?thesis using next_used_chain_None [OF None]
    by (simp add: hash_table_iterate_def it_ok_def it_rest_def ht_items_def)
next
  case (Some r)
  then show ?thesis using next_used_chain_Some [of "ht_table t" 0 "fst r" "snd r"]
    by (cases r) (simp add: hash_table_iterate_def it_ok_def it_rest_def ht_items_def)
qed

lemma iter_next_ok:
  assumes "it_ok it" "it_rest t it = e # es"
  shows "\<exists>it'. hash_table_iter_next t it = Some (Some (snd e), it') \<and> it_ok it' \<and> it_rest t it' = es"
proof -
  obtain xs c where xs: "it_next_entry it = e # xs" "it_next_chain it = Some c" "es = xs @ concat (drop (Suc c) (ht_table t))"
    using assms by (cases "it_next_entry it") (auto simp: it_rest_def it_ok_def)
  show ?thesis
  proof (cases "xs = []")
    case False
    then show ?thesis using xs by (simp add: hash_table_iter_next_def it_ok_def it_rest_def)
  next
    case True
    show ?thesis
    proof (cases "next_used_chain (drop (Suc c) (ht_table t)) (Suc c)")
      case None
      then show ?thesis using xs True next_used_chain_None [OF None]
        by (simp add: hash_table_iter_next_def it_ok_def it_rest_def)
    next
      case (Some r)
      obtain m d where r: "r = (m, d)" by (cases r)
      have "Suc c \<le> m" "d \<noteq> []" "concat (drop (Suc c) (ht_table t)) = d @ concat (drop (Suc (m - Suc c)) (drop (Suc c) (ht_table t)))"
        using next_used_chain_Some [of "drop (Suc c) (ht_table t)" "Suc c" m d] Some r by auto
      then show ?thesis using xs True Some r by (simp add: hash_table_iter_next_def it_ok_def it_rest_def)
    qed
  qed
qed

lemma iter_take_ok:
  assumes "it_ok it" "it_rest t it = es"
  shows "\<exists>it'. iter_take (length es) t it = Some (map snd es, it') \<and> \<not> hash_table_iter_has_more it'"
  using assms
proof (induction es arbitrary: it)
  case Nil
  then show ?case by (auto simp: it_rest_def hash_table_iter_has_more_def split: if_splits)
next
  case (Cons e es)
  obtain it1 where it1: "hash_table_iter_next t it = Some (Some (snd e), it1)" "it_ok it1" "it_rest t it1 = es"
    using iter_next_ok [OF Cons.prems] by blast
  have "hash_table_iter_has_more it" using Cons.prems(2) by (auto simp: it_rest_def hash_table_iter_has_more_def)
  then show ?case using it1(1) Cons.IH [OF it1(2,3)] by auto
qed

text \<open>
  (C28) Iterating over a table, from \<open>hash_table_iterate\<close> and for as long as there is more, returns the
  values of all entries, each once, in the order of the chains, and then there is no more.
\<close>

theorem hash_table_iterates_all:
  "\<exists>it. iter_take (length (ht_items t)) t (hash_table_iterate t) = Some (map snd (ht_items t), it) \<and>
     \<not> hash_table_iter_has_more it \<and> hash_table_iter_next t it = Some (None, it)"
proof -
  obtain it where it: "iter_take (length (ht_items t)) t (hash_table_iterate t) = Some (map snd (ht_items t), it)"
    "\<not> hash_table_iter_has_more it"
    using iter_take_ok [of "hash_table_iterate t" t "ht_items t"] iterate_ok [of t] by auto
  then show ?thesis by (auto simp: hash_table_iter_has_more_def hash_table_iter_next_def)
qed

end
