(* ===== verification/Gencache.thy ===== *)
theory Gencache
  imports Hash_Table
begin

text \<open>
  The general cache (\<open>src/c-util/gencache.c\<close>): a hash table of items which are also on a doubly linked
  recycle list, oldest first; a full cache recycles the oldest item that nobody holds. Items are objects of
  an explicit store and the list is made of their pointers. Every operation runs under the lock of the cache
  and is one function; where it waits on the condition variable it gives the lock up, which is the result
  \<open>Sleep\<close>, and what it does once it is woken is a function of its own. \<open>None\<close> is a failed assertion, the
  use of an invalid pointer, or a loop that does not end. The functions that free keys and values are
  recorded by what they are called on.
\<close>

record ('k, 'v) priv_value =
  pv_next :: addr
  pv_prev :: addr
  pv_key :: 'k
  pv_value :: 'v
  pv_refcount :: int

record ('k, 'v) gencache =
  gc_capacity :: u32
  gc_count :: u32
  gc_key_free :: bool
  gc_item_free :: bool
  gc_hash :: "('k, addr, unit) HashTable"
  recycle_head :: addr
  recycle_tail :: addr
  gc_items :: "('k, 'v) priv_value heap"
  gc_freed :: "('k + 'v) list"

datatype 'a wait = Sleep | Return 'a

definition gc_read :: "('k, 'v) gencache \<Rightarrow> addr \<Rightarrow> ('k, 'v) priv_value option" where
  "gc_read gc a = heap_read (gc_items gc) a"

definition gc_update ::
  "addr \<Rightarrow> (('k, 'v) priv_value \<Rightarrow> ('k, 'v) priv_value) \<Rightarrow> ('k, 'v) gencache \<Rightarrow> ('k, 'v) gencache option" where
  "gc_update a f gc = do {
     x \<leftarrow> gc_read gc a;
     hp \<leftarrow> heap_write a (f x) (gc_items gc);
     Some (gc\<lparr>gc_items := hp\<rparr>)
   }"

subsection \<open>Creating and destroying\<close>

definition gencache_hash_key_free :: "'k \<Rightarrow> ('k, 'v) gencache \<Rightarrow> ('k, 'v) gencache" where
  "gencache_hash_key_free key gc = (if gc_key_free gc then gc\<lparr>gc_freed := gc_freed gc @ [Inl key]\<rparr> else gc)"

definition gencache_hash_item_free :: "addr \<Rightarrow> ('k, 'v) gencache \<Rightarrow> ('k, 'v) gencache option" where
  "gencache_hash_item_free item gc = do {
     i \<leftarrow> gc_read gc item;
     let gc1 = (if gc_item_free gc then gc\<lparr>gc_freed := gc_freed gc @ [Inr (pv_value i)]\<rparr> else gc);
     assert_that (pv_refcount i = 0);
     hp \<leftarrow> heap_delete item (gc_items gc1);
     Some (gc1\<lparr>gc_items := hp\<rparr>)
   }"

text \<open>The calls that the hash table makes of the functions registered with it.\<close>

fun gc_free_calls :: "('k + addr) list \<Rightarrow> ('k, 'v) gencache \<Rightarrow> ('k, 'v) gencache option" where
  "gc_free_calls [] gc = Some gc"
| "gc_free_calls (Inl key # fs) gc = gc_free_calls fs (gencache_hash_key_free key gc)"
| "gc_free_calls (Inr item # fs) gc = do { gc1 \<leftarrow> gencache_hash_item_free item gc; gc_free_calls fs gc1 }"

definition gencache_init ::
  "u32 \<Rightarrow> bool \<Rightarrow> bool \<Rightarrow> ('k \<Rightarrow> 'k \<Rightarrow> bool) \<Rightarrow> ('k \<Rightarrow> u64) \<Rightarrow> ('k, 'v) priv_value heap \<Rightarrow> ('k, 'v) gencache option" where
  "gencache_init max_cache_size fn_key_free fn_item_free fn_key_compare fn_key_hash hp = do {
     h \<leftarrow> hash_table_new True True (\<lambda>_. fn_key_hash) (\<lambda>_. fn_key_compare) ();
     Some \<lparr>gc_capacity = max_cache_size, gc_count = 0, gc_key_free = fn_key_free, gc_item_free = fn_item_free,
       gc_hash = hash_table_register_free_functions True True (hash_table_set_user () h),
       recycle_head = null, recycle_tail = null, gc_items = hp, gc_freed = []\<rparr>
   }"

definition gencache_done :: "('k, 'v) gencache \<Rightarrow> ('k + 'v) list option" where
  "gencache_done gc = map_option gc_freed (gc_free_calls (hash_table_free (gc_hash gc)) gc)"

text \<open>Calls of the hash table, followed by the free functions it called.\<close>

definition gc_hash_done :: "('k, addr, unit) HashTable \<times> bool \<Rightarrow> ('k, 'v) gencache \<Rightarrow> (('k, 'v) gencache \<times> bool) option" where
  "gc_hash_done res gc = do {
     gc1 \<leftarrow> gc_free_calls (ht_freed (fst res)) (gc\<lparr>gc_hash := (fst res)\<lparr>ht_freed := []\<rparr>\<rparr>);
     Some (gc1, snd res)
   }"

definition gc_hash_remove :: "'k \<Rightarrow> ('k, 'v) gencache \<Rightarrow> (('k, 'v) gencache \<times> bool) option" where
  "gc_hash_remove key gc = do { res \<leftarrow> hash_table_remove key (gc_hash gc); gc_hash_done res gc }"

definition gc_hash_insert :: "bool \<Rightarrow> 'k \<Rightarrow> addr \<Rightarrow> ('k, 'v) gencache \<Rightarrow> (('k, 'v) gencache \<times> bool) option" where
  "gc_hash_insert ok key item gc = do { res \<leftarrow> hash_table_insert ok ok key item (gc_hash gc); gc_hash_done res gc }"

definition gc_counts :: "('k, 'v) gencache \<Rightarrow> bool" where
  "gc_counts gc \<longleftrightarrow> gc_count gc = word_of_int (hash_table_num_entries (gc_hash gc))"

subsection \<open>The recycle list\<close>

definition unlinked :: "('k, 'v) priv_value \<Rightarrow> ('k, 'v) priv_value" where
  "unlinked x = x\<lparr>pv_next := null, pv_prev := null\<rparr>"

definition gencache_recycle_remove :: "addr \<Rightarrow> ('k, 'v) gencache \<Rightarrow> ('k, 'v) gencache option" where
  "gencache_recycle_remove item gc = do {
     assert_that (recycle_head gc \<noteq> null);
     assert_that (recycle_tail gc \<noteq> null);
     x \<leftarrow> gc_read gc item;
     if recycle_head gc = item \<and> recycle_tail gc = item
     then do {
       gc1 \<leftarrow> gc_update item unlinked gc;
       Some (gc1\<lparr>recycle_head := null, recycle_tail := null\<rparr>)
     }
     else do {
       assert_that (pv_next x \<noteq> null \<or> pv_prev x \<noteq> null);
       if pv_next x = null
       then do {
         assert_that (recycle_tail gc = item);
         assert_that (pv_prev x \<noteq> null);
         p \<leftarrow> gc_read gc (pv_prev x);
         assert_that (pv_next p = item);
         gc1 \<leftarrow> gc_update (pv_prev x) (\<lambda>p. p\<lparr>pv_next := null\<rparr>) gc;
         gc_update item unlinked (gc1\<lparr>recycle_tail := pv_prev x\<rparr>)
       }
       else if pv_prev x = null
       then do {
         assert_that (recycle_head gc = item);
         gc1 \<leftarrow> gc_update (pv_next x) (\<lambda>n. n\<lparr>pv_prev := null\<rparr>) gc;
         gc_update item unlinked (gc1\<lparr>recycle_head := pv_next x\<rparr>)
       }
       else do {
         assert_that (recycle_head gc \<noteq> item);
         assert_that (recycle_tail gc \<noteq> item);
         gc1 \<leftarrow> gc_update (pv_next x) (\<lambda>n. n\<lparr>pv_prev := pv_prev x\<rparr>) gc;
         gc2 \<leftarrow> gc_update (pv_prev x) (\<lambda>p. p\<lparr>pv_next := pv_next x\<rparr>) gc1;
         gc_update item unlinked gc2
       }
     }
   }"

definition gencache_recycle_add_tail :: "addr \<Rightarrow> ('k, 'v) gencache \<Rightarrow> ('k, 'v) gencache option" where
  "gencache_recycle_add_tail item gc =
     (if recycle_tail gc = null
      then do {
        assert_that (recycle_head gc = null);
        gc_update item unlinked (gc\<lparr>recycle_tail := item, recycle_head := item\<rparr>)
      }
      else do {
        t \<leftarrow> gc_read gc (recycle_tail gc);
        assert_that (pv_next t = null);
        gc1 \<leftarrow> gc_update (recycle_tail gc) (\<lambda>t. t\<lparr>pv_next := item\<rparr>) gc;
        gc2 \<leftarrow> gc_update item (\<lambda>x. x\<lparr>pv_next := null, pv_prev := recycle_tail gc\<rparr>) gc1;
        Some (gc2\<lparr>recycle_tail := item\<rparr>)
      })"

text \<open>The item is taken out of the list only when it has both a successor and a predecessor.\<close>

definition gencache_item_refresh :: "addr \<Rightarrow> ('k, 'v) gencache \<Rightarrow> ('k, 'v) gencache option" where
  "gencache_item_refresh item gc =
     (if recycle_tail gc = item then Some gc
      else do {
        x \<leftarrow> gc_read gc item;
        gc1 \<leftarrow> (if pv_next x \<noteq> null \<and> pv_prev x \<noteq> null \<and> recycle_head gc \<noteq> null
          then gencache_recycle_remove item gc else Some gc);
        gencache_recycle_add_tail item gc1
      })"

text \<open>The search for an item that is not in use.\<close>

partial_function (option) find_unused :: "('k, 'v) gencache \<Rightarrow> addr \<Rightarrow> addr option option" where
  "find_unused gc item = do {
     x \<leftarrow> gc_read gc item;
     if pv_refcount x = 0 then Some (Some item)
     else if pv_next x = null then Some None
     else find_unused gc (pv_next x)
   }"

declare find_unused.simps [code]

definition gencache_recycle :: "('k, 'v) gencache \<Rightarrow> ('k, 'v) gencache wait option" where
  "gencache_recycle gc =
     (if gc_count gc = 0
      then do {
        assert_that (recycle_head gc = null);
        assert_that (recycle_tail gc = null);
        Some (Return gc)
      }
      else do {
        found \<leftarrow> find_unused gc (recycle_head gc);
        (case found of
           None \<Rightarrow> Some Sleep
         | Some item \<Rightarrow> do {
             gc1 \<leftarrow> gencache_recycle_remove item gc;
             x \<leftarrow> gc_read gc1 item;
             (gc2, i) \<leftarrow> gc_hash_remove (pv_key x) (gc1\<lparr>gc_count := gc_count gc1 - 1\<rparr>);
             assert_that i;
             Some (Return gc2)
           })
      })"

subsection \<open>Operations\<close>

definition gencache_key_unlock :: "addr \<Rightarrow> ('k, 'v) gencache \<Rightarrow> ('k, 'v) gencache option" where
  "gencache_key_unlock item gc = do {
     x \<leftarrow> gc_read gc item;
     assert_that (pv_refcount x \<noteq> 0);
     gc_update item (\<lambda>x. x\<lparr>pv_refcount := pv_refcount x - 1\<rparr>) gc
   }"

definition gc_lock_item :: "addr \<Rightarrow> ('k, 'v) gencache \<Rightarrow> ('k, 'v) gencache option" where
  "gc_lock_item item gc = do {
     x \<leftarrow> gc_read gc item;
     assert_that (pv_refcount x < 2147483647);
     gc_update item (\<lambda>x. x\<lparr>pv_refcount := pv_refcount x + 1\<rparr>) gc
   }"

definition gencache_lookup_internal :: "'k \<Rightarrow> ('k, 'v) gencache \<Rightarrow> addr option option" where
  "gencache_lookup_internal key gc = hash_table_lookup key (gc_hash gc)"

partial_function (option) gc_make_room :: "('k, 'v) gencache \<Rightarrow> ('k, 'v) gencache wait option" where
  "gc_make_room gc =
     (if gc_count gc = gc_capacity gc
      then do {
        r \<leftarrow> gencache_recycle gc;
        (case r of Sleep \<Rightarrow> Some Sleep | Return gc1 \<Rightarrow> gc_make_room gc1)
      }
      else Some (Return gc))"

declare gc_make_room.simps [code]

text \<open>The part of \<open>gencache_key_add\<close> after the cache has room; the result is the item.\<close>

definition gc_add_entry :: "bool \<Rightarrow> bool \<Rightarrow> 'k \<Rightarrow> 'v \<Rightarrow> ('k, 'v) gencache \<Rightarrow> (('k, 'v) gencache \<times> addr) option" where
  "gc_add_entry ok lock key value gc = do {
     assert_that (gc_counts gc);
     assert_that (gc_count gc \<noteq> gc_capacity gc);
     let (item, hp) = heap_new \<lparr>pv_next = null, pv_prev = null, pv_key = key, pv_value = value, pv_refcount = 0\<rparr> (gc_items gc);
     (gc1, tmp) \<leftarrow> gc_hash_insert ok key item (gc\<lparr>gc_items := hp\<rparr>);
     assert_that tmp;
     gc2 \<leftarrow> gencache_item_refresh item (gc1\<lparr>gc_count := gc_count gc1 + 1\<rparr>);
     gc3 \<leftarrow> (if lock then gc_lock_item item gc2 else Some gc2);
     assert_that (gc_counts gc3);
     Some (gc3, item)
   }"

text \<open>Making room and adding, at the first attempt and again whenever the thread is woken.\<close>

definition gc_add_locked ::
  "bool \<Rightarrow> bool \<Rightarrow> 'k \<Rightarrow> 'v \<Rightarrow> ('k, 'v) gencache \<Rightarrow> (('k, 'v) gencache \<times> addr option) wait option" where
  "gc_add_locked ok lock key value gc = do {
     r \<leftarrow> gc_make_room gc;
     (case r of
        Sleep \<Rightarrow> Some Sleep
      | Return gc1 \<Rightarrow> do { (gc2, item) \<leftarrow> gc_add_entry ok lock key value gc1; Some (Return (gc2, Some item)) })
   }"

text \<open>The result is the new item, or \<open>None\<close> (return value 0) for a duplicate that is allowed.\<close>

definition gencache_key_add ::
  "bool \<Rightarrow> bool \<Rightarrow> bool \<Rightarrow> 'k \<Rightarrow> 'v \<Rightarrow> ('k, 'v) gencache \<Rightarrow> (('k, 'v) gencache \<times> addr option) wait option" where
  "gencache_key_add ok dupok lock key value gc = do {
     assert_that (gc_counts gc);
     found \<leftarrow> gencache_lookup_internal key gc;
     if dupok \<and> found \<noteq> None then Some (Return (gc, None))
     else do {
       assert_that (found = None);
       gc_add_locked ok lock key value gc
     }
   }"

text \<open>
  The end of \<open>gencache_key_remove\<close>, with the value it will return. The thread that was woken looks the key
  up again but goes on with the item it found before it slept.
\<close>

definition gc_remove_item :: "bool \<Rightarrow> addr \<Rightarrow> 'k \<Rightarrow> ('k, 'v) gencache \<Rightarrow> (('k, 'v) gencache \<times> bool) wait option" where
  "gc_remove_item ret item key gc = do {
     x \<leftarrow> gc_read gc item;
     assert_that (pv_refcount x = 0);
     gc1 \<leftarrow> gencache_recycle_remove item gc;
     (gc2, i) \<leftarrow> gc_hash_remove key gc1;
     assert_that i;
     let gc3 = gc2\<lparr>gc_count := gc_count gc2 - 1\<rparr>;
     assert_that (gc_counts gc3);
     Some (Return (gc3, ret))
   }"

definition gencache_key_remove :: "'k \<Rightarrow> ('k, 'v) gencache \<Rightarrow> (('k, 'v) gencache \<times> bool) wait option" where
  "gencache_key_remove key gc = do {
     found \<leftarrow> gencache_lookup_internal key gc;
     (case found of
        None \<Rightarrow> Some (Return (gc, False))
      | Some item \<Rightarrow> do {
          x \<leftarrow> gc_read gc item;
          if pv_refcount x \<noteq> 0 then Some Sleep else gc_remove_item True item key gc
        })
   }"

definition gc_remove_woken :: "addr \<Rightarrow> 'k \<Rightarrow> ('k, 'v) gencache \<Rightarrow> (('k, 'v) gencache \<times> bool) wait option" where
  "gc_remove_woken item key gc = do {
     found \<leftarrow> gencache_lookup_internal key gc;
     (case found of
        None \<Rightarrow> gc_remove_item False item key gc
      | Some _ \<Rightarrow> do {
          x \<leftarrow> gc_read gc item;
          if pv_refcount x \<noteq> 0 then Some Sleep else gc_remove_item True item key gc
        })
   }"

text \<open>The value and the item that were found; \<open>lock\<close> says whether the caller wants the item held.\<close>

definition gencache_key_lookup_helper ::
  "'k \<Rightarrow> bool \<Rightarrow> bool \<Rightarrow> ('k, 'v) gencache \<Rightarrow> (('k, 'v) gencache \<times> ('v \<times> addr) option) option" where
  "gencache_key_lookup_helper key lock refresh gc = do {
     found \<leftarrow> gencache_lookup_internal key gc;
     (case found of
        None \<Rightarrow> Some (gc, None)
      | Some item \<Rightarrow> do {
          x \<leftarrow> gc_read gc item;
          gc1 \<leftarrow> (if lock then gc_lock_item item gc else Some gc);
          gc2 \<leftarrow> (if refresh then gencache_item_refresh item gc1 else Some gc1);
          Some (gc2, Some (pv_value x, item))
        })
   }"

definition gencache_key_lookup_refresh ::
  "'k \<Rightarrow> bool \<Rightarrow> ('k, 'v) gencache \<Rightarrow> (('k, 'v) gencache \<times> ('v \<times> addr) option) option" where
  "gencache_key_lookup_refresh key lock gc = gencache_key_lookup_helper key lock True gc"

definition gencache_key_lookup ::
  "'k \<Rightarrow> bool \<Rightarrow> ('k, 'v) gencache \<Rightarrow> (('k, 'v) gencache \<times> ('v \<times> addr) option) option" where
  "gencache_key_lookup key lock gc = gencache_key_lookup_helper key lock False gc"

subsection \<open>The doubly linked list\<close>

text \<open>The items from \<open>a\<close> on are linked in this order, after \<open>p\<close> and before \<open>n\<close>.\<close>

fun linked :: "(addr \<rightharpoonup> ('k, 'v) priv_value) \<Rightarrow> addr \<Rightarrow> addr list \<Rightarrow> addr \<Rightarrow> bool" where
  "linked m p [] n = True"
| "linked m p (a # as) n =
     (case m a of None \<Rightarrow> False
      | Some x \<Rightarrow> pv_prev x = p \<and> pv_next x = (if as = [] then n else hd as) \<and> linked m a as n)"

definition payload :: "('k, 'v) priv_value \<Rightarrow> 'k \<times> 'v \<times> int" where
  "payload x = (pv_key x, pv_value x, pv_refcount x)"

text \<open>Two stores that differ in the links only.\<close>

definition same_payload :: "(addr \<rightharpoonup> ('k, 'v) priv_value) \<Rightarrow> (addr \<rightharpoonup> ('k, 'v) priv_value) \<Rightarrow> bool" where
  "same_payload m m' \<longleftrightarrow> (\<forall>a. map_option payload (m' a) = map_option payload (m a))"

definition gc_list :: "('k, 'v) gencache \<Rightarrow> addr list \<Rightarrow> bool" where
  "gc_list gc xs \<longleftrightarrow> distinct xs \<and> null \<notin> set xs \<and> linked (hp_objs (gc_items gc)) null xs null \<and>
     recycle_head gc = (if xs = [] then null else hd xs) \<and> recycle_tail gc = (if xs = [] then null else last xs)"

lemma linked_append:
  "linked m p (xs @ ys) n \<longleftrightarrow>
     linked m p xs (if ys = [] then n else hd ys) \<and> linked m (if xs = [] then p else last xs) ys n"
  by (induction xs arbitrary: p) (auto split: option.splits)

lemma linked_cong: "(\<And>a. a \<in> set xs \<Longrightarrow> m' a = m a) \<Longrightarrow> linked m' p xs n = linked m p xs n"
  by (induction xs arbitrary: p) (auto split: option.splits)

lemma linked_mem: "linked m p xs n \<Longrightarrow> a \<in> set xs \<Longrightarrow> \<exists>x. m a = Some x"
  by (induction xs arbitrary: p) (auto split: option.splits)

text \<open>A cache whose store and list ends changed.\<close>

definition relinked :: "(addr \<rightharpoonup> ('k, 'v) priv_value) \<Rightarrow> addr \<Rightarrow> addr \<Rightarrow> ('k, 'v) gencache \<Rightarrow> ('k, 'v) gencache" where
  "relinked m h t gc = gc\<lparr>gc_items := (gc_items gc)\<lparr>hp_objs := m\<rparr>, recycle_head := h, recycle_tail := t\<rparr>"

lemma relinked_simps [simp]:
  "hp_objs (gc_items (relinked m h t gc)) = m" "recycle_head (relinked m h t gc) = h" "recycle_tail (relinked m h t gc) = t"
  "relinked m h t (relinked m' h' t' gc) = relinked m h t gc"
  "(relinked m h t gc)\<lparr>recycle_head := h'\<rparr> = relinked m h' t gc" "(relinked m h t gc)\<lparr>recycle_tail := t'\<rparr> = relinked m h t' gc"
  "gc_hash (relinked m h t gc) = gc_hash gc" "gc_count (relinked m h t gc) = gc_count gc"
  "gc_capacity (relinked m h t gc) = gc_capacity gc" "hp_alloc (gc_items (relinked m h t gc)) = hp_alloc (gc_items gc)"
  by (cases gc, simp add: relinked_def)+

lemma gc_update_eq:
  "hp_objs (gc_items gc) a = Some x \<Longrightarrow>
    gc_update a f gc = Some (relinked ((hp_objs (gc_items gc))(a \<mapsto> f x)) (recycle_head gc) (recycle_tail gc) gc)"
  by (cases gc) (simp add: gc_update_def gc_read_def heap_read_def heap_write_def relinked_def)

lemma gc_read_eq: "gc_read gc a = hp_objs (gc_items gc) a"
  by (simp add: gc_read_def heap_read_def)

lemma gc_list_relinked:
  "gc_list (relinked m h t gc) xs \<longleftrightarrow> distinct xs \<and> null \<notin> set xs \<and> linked m null xs null \<and>
     h = (if xs = [] then null else hd xs) \<and> t = (if xs = [] then null else last xs)"
  by (simp add: gc_list_def relinked_def)

lemma same_payload_refl [simp]: "same_payload m m"
  by (simp add: same_payload_def)

lemma payload_links [simp]:
  "payload (x\<lparr>pv_next := n\<rparr>) = payload x" "payload (x\<lparr>pv_prev := p\<rparr>) = payload x"
  "payload (x\<lparr>pv_next := n, pv_prev := p\<rparr>) = payload x" "payload (unlinked x) = payload x"
  by (simp_all add: payload_def unlinked_def)

lemma recycle_remove_ok:
  assumes "gc_list gc (us @ a # vs)"
  shows "\<exists>m h t. gencache_recycle_remove a gc = Some (relinked m h t gc) \<and> gc_list (relinked m h t gc) (us @ vs) \<and>
    same_payload (hp_objs (gc_items gc)) m \<and> map_option unlinked (m a) = m a"
proof -
  let ?m = "hp_objs (gc_items gc)"
  have d: "distinct (us @ a # vs)" "null \<notin> set (us @ a # vs)" and
    ht: "recycle_head gc = hd (us @ [a])" "recycle_tail gc = last (a # vs)"
    using assms by (auto simp: gc_list_def hd_append)
  have l: "linked ?m null us a" "linked ?m a vs null"
    using assms by (auto simp: gc_list_def linked_append split: option.splits)
  obtain x where x: "?m a = Some x" "pv_prev x = (if us = [] then null else last us)" "pv_next x = (if vs = [] then null else hd vs)"
    using assms by (auto simp: gc_list_def linked_append split: option.splits)
  have idem: "map_option unlinked (Some (unlinked x)) = Some (unlinked x)" by (simp add: unlinked_def)
  show ?thesis
  proof (cases us rule: rev_cases)
    case Nil
    show ?thesis
    proof (cases vs)
      case vs: Nil
      have "gencache_recycle_remove a gc = Some (relinked (?m(a \<mapsto> unlinked x)) null null gc)"
        using Nil vs d ht x by (simp add: gencache_recycle_remove_def gc_read_eq gc_update_eq)
      then show ?thesis using Nil vs x(1) idem
        by (intro exI [of _ "?m(a \<mapsto> unlinked x)"] exI [of _ null]) (simp add: gc_list_relinked same_payload_def)
    next
      case (Cons c ws)
      obtain y where y: "?m c = Some y" "pv_next y = (if ws = [] then null else hd ws)" "linked ?m c ws null"
        using l(2) Cons by (auto split: option.splits)
      let ?m' = "?m(c \<mapsto> y\<lparr>pv_prev := null\<rparr>, a \<mapsto> unlinked x)"
      have "recycle_tail gc \<in> set vs" using ht(2) Cons by simp
      then have "recycle_tail gc \<noteq> a" "recycle_tail gc \<noteq> null" "c \<noteq> a" "c \<noteq> null" using d Cons by auto
      then have "gencache_recycle_remove a gc = Some (relinked ?m' c (recycle_tail gc) gc)"
        using Nil Cons d(2) ht(1) x y(1) by (simp add: gencache_recycle_remove_def gc_read_eq gc_update_eq)
      moreover have "linked ?m' c ws null" using y(3) d Nil Cons by (subst linked_cong [of ws ?m' ?m]) auto
      moreover have "same_payload ?m ?m'"
        using x(1) y(1) by (auto simp: same_payload_def)
      ultimately show ?thesis using Nil Cons d ht y idem
        by (intro exI [of _ ?m'] exI [of _ c] exI [of _ "recycle_tail gc"]) (auto simp: gc_list_relinked)
    qed
  next
    case (snoc ws b)
    obtain z where z: "?m b = Some z" "pv_next z = a" "pv_prev z = (if ws = [] then null else last ws)" "linked ?m null ws b"
      using l(1) snoc by (auto simp: linked_append split: option.splits)
    show ?thesis
    proof (cases vs)
      case Nil
      let ?m' = "?m(b \<mapsto> z\<lparr>pv_next := null\<rparr>, a \<mapsto> unlinked x)"
      have "recycle_head gc \<in> set us" using ht(1) snoc by (simp add: hd_append)
      then have "recycle_head gc \<noteq> a" "recycle_head gc \<noteq> null" "b \<noteq> a" "b \<noteq> null" using d snoc by auto
      then have "gencache_recycle_remove a gc = Some (relinked ?m' (recycle_head gc) b gc)"
        using Nil snoc d(2) ht(2) x z(1,2) by (simp add: gencache_recycle_remove_def gc_read_eq gc_update_eq)
      moreover have "linked ?m' null ws b" using z(4) d Nil snoc by (subst linked_cong [of ws ?m' ?m]) auto
      moreover have "same_payload ?m ?m'"
        using x(1) z(1) by (auto simp: same_payload_def)
      ultimately show ?thesis using Nil snoc d ht z idem
        by (intro exI [of _ ?m'] exI [of _ "recycle_head gc"] exI [of _ b])
          (auto simp: gc_list_relinked linked_append hd_append)
    next
      case (Cons c qs)
      obtain y where y: "?m c = Some y" "pv_next y = (if qs = [] then null else hd qs)" "linked ?m c qs null"
        using l(2) Cons by (auto split: option.splits)
      have ne: "b \<noteq> c" "a \<noteq> b" "a \<noteq> c" "b \<noteq> null" "c \<noteq> null" using d snoc Cons by auto
      let ?m' = "?m(c \<mapsto> y\<lparr>pv_prev := b\<rparr>, b \<mapsto> z\<lparr>pv_next := c\<rparr>, a \<mapsto> unlinked x)"
      have "recycle_head gc \<in> set us" "recycle_tail gc \<in> set vs" using ht snoc Cons by (simp_all add: hd_append)
      then have "recycle_head gc \<noteq> a" "recycle_tail gc \<noteq> a" "recycle_head gc \<noteq> null" "recycle_tail gc \<noteq> null"
        using d by auto
      then have "gencache_recycle_remove a gc = Some (relinked ?m' (recycle_head gc) (recycle_tail gc) gc)"
        using Cons snoc x y(1) z(1) ne by (simp add: gencache_recycle_remove_def gc_read_eq gc_update_eq)
      moreover have "linked ?m' null ws b" using z(4) d Cons snoc by (subst linked_cong [of ws ?m' ?m]) auto
      moreover have "linked ?m' c qs null" using y(3) d Cons snoc by (subst linked_cong [of qs ?m' ?m]) auto
      moreover have "same_payload ?m ?m'"
        using x(1) y(1) z(1) by (auto simp: same_payload_def)
      ultimately show ?thesis using Cons snoc d ht y z ne idem
        by (intro exI [of _ ?m'] exI [of _ "recycle_head gc"] exI [of _ "recycle_tail gc"])
          (auto simp: gc_list_relinked linked_append hd_append)
    qed
  qed
qed

lemma add_tail_ok:
  assumes "gc_list gc xs" "hp_objs (gc_items gc) a = Some x" "a \<notin> set xs" "a \<noteq> null"
  shows "\<exists>m h. gencache_recycle_add_tail a gc = Some (relinked m h a gc) \<and> gc_list (relinked m h a gc) (xs @ [a]) \<and>
    same_payload (hp_objs (gc_items gc)) m"
proof -
  let ?m = "hp_objs (gc_items gc)"
  show ?thesis
  proof (cases xs rule: rev_cases)
    case Nil
    have "gencache_recycle_add_tail a gc = Some (relinked (?m(a \<mapsto> unlinked x)) a a gc)"
      using Nil assms by (cases gc) (simp add: gencache_recycle_add_tail_def gc_list_def gc_update_eq relinked_def)
    then show ?thesis using Nil assms(2,4)
      by (intro exI [of _ "?m(a \<mapsto> unlinked x)"] exI [of _ a]) (simp add: gc_list_relinked same_payload_def, simp add: unlinked_def)
  next
    case (snoc ws b)
    obtain z where z: "?m b = Some z" "pv_next z = null" "pv_prev z = (if ws = [] then null else last ws)" "linked ?m null ws b"
      using assms(1) snoc by (auto simp: gc_list_def linked_append split: option.splits)
    have t: "recycle_tail gc = b" "b \<noteq> null" "a \<noteq> b" using assms snoc by (auto simp: gc_list_def)
    let ?m' = "?m(b \<mapsto> z\<lparr>pv_next := a\<rparr>, a \<mapsto> x\<lparr>pv_next := null, pv_prev := b\<rparr>)"
    have "gencache_recycle_add_tail a gc = Some (relinked ?m' (recycle_head gc) a gc)"
      using t z assms(2) by (simp add: gencache_recycle_add_tail_def gc_read_eq gc_update_eq)
    moreover have "linked ?m' null ws b"
      using z(4) assms(1,3) snoc by (subst linked_cong [of ws ?m' ?m]) (auto simp: gc_list_def)
    moreover have "same_payload ?m ?m'"
      using assms(2) z(1) by (auto simp: same_payload_def)
    moreover have "distinct (ws @ [b])" "null \<notin> set (ws @ [b])" "recycle_head gc = hd (ws @ [b])"
      using assms(1) snoc by (auto simp: gc_list_def)
    ultimately show ?thesis using assms(2-4) snoc z t
      by (intro exI [of _ ?m'] exI [of _ "recycle_head gc"]) (auto simp: gc_list_relinked linked_append hd_append)
  qed
qed

lemma find_unused_ok:
  assumes "linked (hp_objs (gc_items gc)) p xs null" "xs \<noteq> []" "null \<notin> set xs"
  shows "find_unused gc (hd xs) = Some (find (\<lambda>a. \<exists>x. hp_objs (gc_items gc) a = Some x \<and> pv_refcount x = 0) xs)"
  using assms
proof (induction xs arbitrary: p)
  case (Cons a as)
  obtain x where x: "hp_objs (gc_items gc) a = Some x" "pv_next x = (if as = [] then null else hd as)"
    "linked (hp_objs (gc_items gc)) a as null"
    using Cons.prems(1) by (auto split: option.splits)
  show ?case
  proof (cases "as = []")
    case True
    then show ?thesis using x by (subst find_unused.simps) (simp add: gc_read_eq)
  next
    case False
    have "hd as \<noteq> null" using Cons.prems(3) False by (metis hd_in_set list.set_intros(2))
    then show ?thesis using x False Cons.IH [OF x(3) False] Cons.prems(3)
      by (subst find_unused.simps) (simp add: gc_read_eq)
  qed
qed simp

subsection \<open>The invariant\<close>

definition gc_entry :: "('k, 'v) gencache \<Rightarrow> addr \<Rightarrow> 'k \<times> 'v \<times> int" where
  "gc_entry gc a = payload (the (hp_objs (gc_items gc) a))"

definition hash_ok :: "('k \<Rightarrow> u64) \<Rightarrow> ('k \<Rightarrow> 'k \<Rightarrow> bool) \<Rightarrow> ('k, addr, unit) HashTable \<Rightarrow> bool" where
  "hash_ok hash equal t \<longleftrightarrow> ht_inv t \<and> ht_hash t = hash \<and> ht_eq t = equal \<and> ht_key_free t \<and> ht_value_free t \<and> ht_freed t = []"

text \<open>
  The items of the list are all items; the hash table holds each under its key; the count is their number
  and within the capacity.
\<close>

definition gc_inv :: "('k \<Rightarrow> u64) \<Rightarrow> ('k \<Rightarrow> 'k \<Rightarrow> bool) \<Rightarrow> ('k, 'v) gencache \<Rightarrow> addr list \<Rightarrow> bool" where
  "gc_inv hash equal gc xs \<longleftrightarrow> gc_list gc xs \<and> heap_ok (gc_items gc) \<and> dom (hp_objs (gc_items gc)) = set xs \<and>
     hash_ok hash equal (gc_hash gc) \<and>
     mset (ht_items (gc_hash gc)) = mset (map (\<lambda>a. (fst (gc_entry gc a), a)) xs) \<and>
     gc_count gc = word_of_nat (length xs) \<and> length xs \<le> unat (gc_capacity gc) \<and> gc_capacity gc < 536870914 \<and>
     (\<forall>a \<in> set xs. 0 \<le> snd (snd (gc_entry gc a)))"

fun split_at :: "('a \<Rightarrow> bool) \<Rightarrow> 'a list \<Rightarrow> ('a list \<times> 'a \<times> 'a list) option" where
  "split_at p [] = None"
| "split_at p (x # xs) = (if p x then Some ([], x, xs) else map_option (\<lambda>(us, y, vs). (x # us, y, vs)) (split_at p xs))"

lemma split_at_Some: "split_at p xs = Some (us, a, vs) \<Longrightarrow> xs = us @ a # vs \<and> p a \<and> (\<forall>x \<in> set us. \<not> p x)"
  by (induction xs arbitrary: us) (auto split: if_splits)

lemma split_at_None: "split_at p xs = None \<longleftrightarrow> (\<forall>x \<in> set xs. \<not> p x)"
  by (induction xs) auto

lemma find_split_at: "find p xs = map_option (\<lambda>(us, a, vs). a) (split_at p xs)"
  by (induction xs) (auto simp: option.map_comp comp_def case_prod_unfold)

lemma split_at_map: "split_at p (map f xs) = map_option (\<lambda>(us, a, vs). (map f us, f a, map f vs)) (split_at (\<lambda>x. p (f x)) xs)"
  by (induction xs) (auto simp: option.map_comp comp_def case_prod_unfold)

lemma split_at_cong: "(\<And>x. x \<in> set xs \<Longrightarrow> p x = q x) \<Longrightarrow> split_at p xs = split_at q xs"
  by (induction xs) auto

lemma find_map_comp: "find p (map f xs) = map_option f (find (\<lambda>x. p (f x)) xs)"
  by (induction xs) auto

lemma freed_fields [simp]:
  "ht_hash (t\<lparr>ht_freed := fs\<rparr>) = ht_hash t" "ht_eq (t\<lparr>ht_freed := fs\<rparr>) = ht_eq t" "ht_items (t\<lparr>ht_freed := fs\<rparr>) = ht_items t"
  by (simp_all add: ht_hash_def ht_eq_def ht_items_def)

lemma freed_simps [simp]:
  "ht_inv (t\<lparr>ht_freed := fs\<rparr>) = ht_inv t" "ht_same t (u\<lparr>ht_freed := fs\<rparr>) = ht_same t u"
  by (simp_all add: ht_inv_def ht_same_def)

lemma count_simps [simp]:
  "gc_list (gc\<lparr>gc_count := c\<rparr>) xs = gc_list gc xs" "gc_entry (gc\<lparr>gc_count := c\<rparr>) a = gc_entry gc a"
  by (simp_all add: gc_list_def gc_entry_def)

lemma entry_relinked:
  assumes "same_payload (hp_objs (gc_items gc)) m" "a \<in> dom (hp_objs (gc_items gc))"
  shows "gc_entry (relinked m h t gc) a = gc_entry gc a"
  using assms by (auto simp: gc_entry_def same_payload_def) (metis map_option_eq_Some option.sel)

lemma same_payload_dom: "same_payload m0 m \<Longrightarrow> dom m = dom m0"
  by (auto simp: same_payload_def dom_def) (metis option.map_disc_iff not_Some_eq)+

lemma heap_ok_objs:
  "heap_ok h \<Longrightarrow> finite (dom m) \<Longrightarrow> hp_alloc h' = hp_alloc h \<Longrightarrow> hp_objs h' = m \<Longrightarrow> heap_ok h'"
  by (simp add: heap_ok_def)

lemma inv_relinked:
  assumes "gc_inv hash equal gc xs" "gc_list (relinked m h t gc) ys" "same_payload (hp_objs (gc_items gc)) m" "mset ys = mset xs"
  shows "gc_inv hash equal (relinked m h t gc) ys"
    "zs \<subseteq> set xs \<Longrightarrow> \<forall>a \<in> zs. gc_entry (relinked m h t gc) a = gc_entry gc a"
proof -
  have d: "dom m = set xs" using same_payload_dom [OF assms(3)] assms(1) by (simp add: gc_inv_def)
  have e: "gc_entry (relinked m h t gc) a = gc_entry gc a" if "a \<in> set xs" for a
    using entry_relinked [OF assms(3)] assms(1) that by (simp add: gc_inv_def)
  then show "zs \<subseteq> set xs \<Longrightarrow> \<forall>a \<in> zs. gc_entry (relinked m h t gc) a = gc_entry gc a" by auto
  have s: "set ys = set xs" "length ys = length xs" using assms(4) by (auto dest: mset_eq_setD mset_eq_length)
  have "heap_ok (gc_items (relinked m h t gc))"
    by (rule heap_ok_objs [of "gc_items gc" m]) (use assms(1) d in \<open>simp_all add: gc_inv_def\<close>)
  moreover have "mset (map (\<lambda>a. (fst (gc_entry (relinked m h t gc) a), a)) ys) = mset (map (\<lambda>a. (fst (gc_entry gc a), a)) xs)"
  proof -
    have "map (\<lambda>a. (fst (gc_entry (relinked m h t gc) a), a)) ys = map (\<lambda>a. (fst (gc_entry gc a), a)) ys"
      using e s(1) by simp
    then show ?thesis using assms(4) by (simp only: mset_map)
  qed
  ultimately show "gc_inv hash equal (relinked m h t gc) ys"
    using assms(1,2) d e s by (simp add: gc_inv_def)
qed

context hash_keys
begin

lemma table_lookup_ok:
  assumes "hash_ok hash equal t" "mset (ht_items t) = mset (map (\<lambda>a. (f a, a)) xs)"
  shows "hash_table_lookup k t = Some (find (\<lambda>a. equal k (f a)) xs)"
proof -
  let ?ps = "map (\<lambda>a. (f a, a)) xs"
  have h: "ht_inv t" "ht_hash t = hash" "ht_eq t = equal" using assms(1) by (simp_all add: hash_ok_def)
  have u: "uniq_keys equal (ht_items t)" using h(1,3) by (auto simp: ht_inv_def)
  have "find (\<lambda>e. equal k (fst e)) ?ps = find (\<lambda>e. equal k (fst e)) (ht_items t)"
    by (rule uniq_perm(2) [OF u assms(2)])
  then have "ht_abs t k = map_option snd (find (\<lambda>e. equal k (fst e)) ?ps)" using h(3) by (simp add: ht_abs_def)
  also have "\<dots> = find (\<lambda>a. equal k (f a)) xs"
    by (simp add: find_map_comp option.map_comp comp_def option.map_ident)
  finally show ?thesis using lookup_ok [OF h] by simp
qed

lemma lookup_internal_ok:
  assumes "gc_inv hash equal gc xs"
  shows "gencache_lookup_internal k gc = Some (find (\<lambda>a. equal k (fst (gc_entry gc a))) xs)"
proof -
  have "hash_ok hash equal (gc_hash gc)" "mset (ht_items (gc_hash gc)) = mset (map (\<lambda>a. (fst (gc_entry gc a), a)) xs)"
    using assms by (simp_all only: gc_inv_def)
  from table_lookup_ok [OF this] show ?thesis by (simp add: gencache_lookup_internal_def)
qed

text \<open>Two items never have equal keys.\<close>

lemma keys_differ:
  assumes "gc_inv hash equal gc (us @ a # vs)" "b \<in> set (us @ vs)" "equal k (fst (gc_entry gc a))"
  shows "\<not> equal k (fst (gc_entry gc b))"
proof -
  let ?ps = "map (\<lambda>a. (fst (gc_entry gc a), a)) (us @ a # vs)"
  have u: "uniq_keys equal (ht_items (gc_hash gc))" "mset (ht_items (gc_hash gc)) = mset ?ps"
    using assms(1) by (auto simp: gc_inv_def hash_ok_def ht_inv_def)
  have "mset ?ps = add_mset (fst (gc_entry gc a), a) (mset (map (\<lambda>a. (fst (gc_entry gc a), a)) (us @ vs)))" by simp
  note rem = uniq_remove(2) [OF uniq_perm(1) [OF u] this, of k "(fst (gc_entry gc b), b)"]
  have "(fst (gc_entry gc b), b) \<in> set (map (\<lambda>a. (fst (gc_entry gc a), a)) (us @ vs))"
    using assms(2) by (simp only: set_map image_eqI)
  then show ?thesis using rem assms(3) by simp
qed

text \<open>Removing the key of an item from the hash table.\<close>

lemma hash_remove_ok:
  assumes "hash_ok hash equal t" "mset (ht_items t) = mset (map (\<lambda>a. (f a, a)) (us @ a # vs))" "equal k (f a)"
  shows "\<exists>t'. hash_table_remove k t = Some (t', True) \<and> hash_ok hash equal (t'\<lparr>ht_freed := []\<rparr>) \<and>
    mset (ht_items t') = mset (map (\<lambda>a. (f a, a)) (us @ vs)) \<and> ht_freed t' = [Inl (f a), Inr a]"
proof -
  have ht: "ht_inv t" "ht_hash t = hash" "ht_eq t = equal" "ht_key_free t" "ht_value_free t" "ht_freed t = []"
    using assms(1) by (simp_all add: hash_ok_def)
  have u: "uniq_keys equal (ht_items t)" using ht(1,3) by (auto simp: ht_inv_def)
  have "find (\<lambda>e. equal k (fst e)) (ht_items t) = Some (f a, a)"
    using find_uniq [of "\<lambda>e. equal k (fst e)" "ht_items t" "(f a, a)"] u assms(3) mset_eq_setD [OF assms(2)]
    by (simp add: uniq_keys_def)
  then have ab: "ht_abs t k = Some a" and fd: "find (\<lambda>e. equal k (fst e)) (ht_items t) = Some (f a, a)"
    using ht(3) by (simp_all add: ht_abs_def)
  obtain t' where t': "hash_table_remove k t = Some (t', True)" "ht_inv t'" "ht_same t t'"
    "mset (ht_items t) = add_mset (f a, a) (mset (ht_items t'))" "ht_freed t' = [Inl (f a), Inr a]"
    using remove_ok [OF ht(1-3), of k] unfolding fd ab option.case using ht(4-6) by auto
  have "hash_ok hash equal (t'\<lparr>ht_freed := []\<rparr>)" using t'(2,3) ht by (simp add: hash_ok_def ht_same_def)
  moreover have "mset (ht_items t') = mset (map (\<lambda>a. (f a, a)) (us @ vs))" using t'(4) assms(2) by simp
  ultimately show ?thesis using t'(1,5) by blast
qed

text \<open>Taking an item that nobody holds out of the list, the hash table and the store.\<close>

lemma unlink_ok:
  assumes "gc_inv hash equal gc (us @ a # vs)" "snd (snd (gc_entry gc a)) = 0" "equal k (fst (gc_entry gc a))"
  shows "\<exists>m h t gc'. gencache_recycle_remove a gc = Some (relinked m h t gc) \<and>
    (\<exists>x. m a = Some x \<and> payload x = gc_entry gc a) \<and>
    (\<forall>c. gc_hash_remove k ((relinked m h t gc)\<lparr>gc_count := c\<rparr>) = Some (gc'\<lparr>gc_count := c\<rparr>, True)) \<and>
    gc_count gc' = gc_count gc \<and> gc_capacity gc' = gc_capacity gc \<and>
    gc_inv hash equal (gc'\<lparr>gc_count := gc_count gc - 1\<rparr>) (us @ vs) \<and>
    (\<forall>b \<in> set (us @ vs). gc_entry gc' b = gc_entry gc b)"
proof -
  let ?xs = "us @ a # vs" let ?t = "gc_hash gc" let ?f = "\<lambda>a. (fst (gc_entry gc a), a)"
  have inv: "gc_list gc ?xs" "hash_ok hash equal ?t" "mset (ht_items ?t) = mset (map ?f ?xs)" "distinct ?xs"
    and fin: "dom (hp_objs (gc_items gc)) = set ?xs"
    using assms(1) by (auto simp: gc_inv_def gc_list_def)
  obtain m h t where r: "gencache_recycle_remove a gc = Some (relinked m h t gc)" "gc_list (relinked m h t gc) (us @ vs)"
    "same_payload (hp_objs (gc_items gc)) m"
    using recycle_remove_ok [OF inv(1)] by blast
  have d: "dom m = set ?xs" using same_payload_dom [OF r(3)] fin by simp
  have e: "gc_entry (relinked m h t gc) b = gc_entry gc b" if "b \<in> set ?xs" for b
    using entry_relinked [OF r(3)] fin that by simp
  have "a \<in> dom m" using d by simp
  then obtain x where xa: "m a = Some x" by blast
  then have x: "m a = Some x" "payload x = gc_entry gc a" using e [of a] by (simp_all add: gc_entry_def)
  obtain t' where t': "hash_table_remove k ?t = Some (t', True)" "hash_ok hash equal (t'\<lparr>ht_freed := []\<rparr>)"
    "mset (ht_items t') = mset (map ?f (us @ vs))" "ht_freed t' = [Inl (fst (gc_entry gc a)), Inr a]"
    using hash_remove_ok [OF inv(2,3) assms(3)] by (elim exE conjE)
  let ?t' = "t'\<lparr>ht_freed := []\<rparr>"
  have ok: "hash_ok hash equal ?t'" and its: "mset (ht_items ?t') = mset (map ?f (us @ vs))" using t'(2,3) by simp_all
  define fr where "fr = gc_freed gc @ (if gc_key_free gc then [Inl (fst (gc_entry gc a))] else []) @
    (if gc_item_free gc then [Inr (pv_value x)] else [])"
  define gc' where "gc' = (relinked (m(a := None)) h t gc)\<lparr>gc_hash := ?t', gc_freed := fr\<rparr>"
  have "pv_refcount x = 0" using assms(2) by (simp add: x(2) [symmetric] payload_def)
  then have free: "gc_hash_remove k ((relinked m h t gc)\<lparr>gc_count := c\<rparr>) = Some (gc'\<lparr>gc_count := c\<rparr>, True)" for c
    using t'(1,4) x(1)
    by (cases gc) (simp add: gc_hash_remove_def gc_hash_done_def gencache_hash_key_free_def gencache_hash_item_free_def
      gc_read_def heap_read_def heap_delete_def relinked_def gc'_def fr_def)
  have cnt: "gc_count gc' = gc_count gc" "gc_capacity gc' = gc_capacity gc" by (simp_all add: gc'_def)
  have e': "gc_entry gc' b = gc_entry gc b" if "b \<in> set (us @ vs)" for b
    using e [of b] that inv(4) by (auto simp: gc'_def gc_entry_def relinked_def)
  have "linked (m(a := None)) null (us @ vs) null"
    using r(2) inv(4) by (subst linked_cong [of "us @ vs" _ m]) (auto simp: gc_list_relinked)
  then have "gc_list gc' (us @ vs)" using r(2) by (simp add: gc'_def gc_list_def gc_list_relinked relinked_def)
  moreover have "heap_ok (gc_items gc')"
    by (rule heap_ok_objs [of "gc_items gc" "m(a := None)"]) (use assms(1) d in \<open>simp_all add: gc_inv_def gc'_def relinked_def\<close>)
  moreover have "dom (hp_objs (gc_items gc')) = set (us @ vs)" using d inv(4) by (auto simp: gc'_def relinked_def)
  moreover have "mset (ht_items (gc_hash gc')) = mset (map (\<lambda>b. (fst (gc_entry gc' b), b)) (us @ vs))"
  proof -
    have "map (\<lambda>b. (fst (gc_entry gc' b), b)) (us @ vs) = map ?f (us @ vs)" using e' by simp
    moreover have "gc_hash gc' = ?t'" by (simp add: gc'_def)
    ultimately show ?thesis using its by (simp only:)
  qed
  moreover have "gc_count gc - 1 = word_of_nat (length (us @ vs))" "length (us @ vs) \<le> unat (gc_capacity gc')"
    "gc_capacity gc' < 536870914"
    using assms(1) cnt(2) by (simp_all add: gc_inv_def)
  moreover have "\<forall>b \<in> set (us @ vs). 0 \<le> snd (snd (gc_entry gc' b))" using e' assms(1) by (simp add: gc_inv_def)
  moreover have "hash_ok hash equal (gc_hash gc')" using ok by (simp add: gc'_def)
  ultimately have inv': "gc_inv hash equal (gc'\<lparr>gc_count := gc_count gc - 1\<rparr>) (us @ vs)"
    unfolding gc_inv_def count_simps by simp
  show ?thesis
  proof (intro exI conjI allI)
    show "gencache_recycle_remove a gc = Some (relinked m h t gc)" by (rule r(1))
    show "m a = Some x" "payload x = gc_entry gc a" by (rule x)+
    show "gc_hash_remove k ((relinked m h t gc)\<lparr>gc_count := c\<rparr>) = Some (gc'\<lparr>gc_count := c\<rparr>, True)" for c by (rule free)
    show "gc_count gc' = gc_count gc" "gc_capacity gc' = gc_capacity gc" by (rule cnt)+
    show "gc_inv hash equal (gc'\<lparr>gc_count := gc_count gc - 1\<rparr>) (us @ vs)" by (rule inv')
    show "\<forall>b \<in> set (us @ vs). gc_entry gc' b = gc_entry gc b" using e' by blast
  qed
qed

end

subsection \<open>The specification\<close>

text \<open>
  A cache as its users see it: a list of entries (key, value, number of holders), oldest first. A full
  cache makes room by giving up the oldest entry that nobody holds, if there is one.
\<close>

type_synonym ('k, 'v) entry = "'k \<times> 'v \<times> int"

definition holders :: "('k, 'v) entry \<Rightarrow> int" where
  "holders e = snd (snd e)"

definition cache_room :: "nat \<Rightarrow> ('k, 'v) entry list \<Rightarrow> ('k, 'v) entry list option" where
  "cache_room cap es = (if length es < cap then Some es
     else map_option (\<lambda>(us, e, vs). us @ vs) (split_at (\<lambda>e. holders e = 0) es))"

datatype ('k, 'v) gc_op =
    GC_Add bool bool 'k 'v
  | GC_Lookup bool 'k
  | GC_Refresh bool 'k
  | GC_Remove 'k
  | GC_Unlock 'k

datatype 'v gc_res = GC_Slept | GC_Done bool | GC_Value "'v option"

definition hold :: "bool \<Rightarrow> ('k, 'v) entry \<Rightarrow> ('k, 'v) entry option" where
  "hold lock e = (if \<not> lock then Some e
     else if holders e < 2147483647 then Some (fst e, fst (snd e), holders e + 1) else None)"

text \<open>
  \<open>None\<close> is a call the cache is not made for: adding a duplicate that is not allowed, more holders than
  an \<open>int\<close> counts, giving up an entry that is not held, and refreshing the oldest of several entries.
\<close>

fun cache_step :: "('k \<Rightarrow> 'k \<Rightarrow> bool) \<Rightarrow> nat \<Rightarrow> ('k, 'v) gc_op \<Rightarrow> ('k, 'v) entry list \<Rightarrow> (('k, 'v) entry list \<times> 'v gc_res) option" where
  "cache_step equal cap (GC_Add dupok lock k v) es =
     (if \<exists>e \<in> set es. equal k (fst e) then (if dupok then Some (es, GC_Done False) else None)
      else case cache_room cap es of
        None \<Rightarrow> Some (es, GC_Slept)
      | Some es' \<Rightarrow> Some (es' @ [(k, v, if lock then 1 else 0)], GC_Done True))"
| "cache_step equal cap (GC_Lookup lock k) es =
     (case split_at (\<lambda>e. equal k (fst e)) es of
        None \<Rightarrow> Some (es, GC_Value None)
      | Some (us, e, vs) \<Rightarrow> do { e' \<leftarrow> hold lock e; Some (us @ e' # vs, GC_Value (Some (fst (snd e)))) })"
| "cache_step equal cap (GC_Refresh lock k) es =
     (case split_at (\<lambda>e. equal k (fst e)) es of
        None \<Rightarrow> Some (es, GC_Value None)
      | Some (us, e, vs) \<Rightarrow> do {
          assert_that (us \<noteq> [] \<or> vs = []);
          e' \<leftarrow> hold lock e;
          Some (us @ vs @ [e'], GC_Value (Some (fst (snd e))))
        })"
| "cache_step equal cap (GC_Remove k) es =
     (case split_at (\<lambda>e. equal k (fst e)) es of
        None \<Rightarrow> Some (es, GC_Done False)
      | Some (us, e, vs) \<Rightarrow> if holders e = 0 then Some (us @ vs, GC_Done True) else Some (es, GC_Slept))"
| "cache_step equal cap (GC_Unlock k) es =
     (case split_at (\<lambda>e. equal k (fst e)) es of
        None \<Rightarrow> None
      | Some (us, e, vs) \<Rightarrow> if holders e = 0 then None
          else Some (us @ (fst e, fst (snd e), holders e - 1) # vs, GC_Done True))"

fun cache_run :: "('k \<Rightarrow> 'k \<Rightarrow> bool) \<Rightarrow> nat \<Rightarrow> ('k, 'v) gc_op list \<Rightarrow> ('k, 'v) entry list \<Rightarrow> (('k, 'v) entry list \<times> 'v gc_res list) option" where
  "cache_run equal cap [] es = Some (es, [])"
| "cache_run equal cap (op # ops) es = do {
     (es1, r) \<leftarrow> cache_step equal cap op es;
     (es2, rs) \<leftarrow> cache_run equal cap ops es1;
     Some (es2, r # rs)
   }"

text \<open>The same calls of the code. Who unlocks an item kept the pointer; a held item stays where it is.\<close>

definition gc_woken :: "('k, 'v) gencache \<Rightarrow> (('k, 'v) gencache \<times> 'a) wait \<Rightarrow> ('a \<Rightarrow> bool) \<Rightarrow> ('k, 'v) gencache \<times> 'v gc_res" where
  "gc_woken gc r ok = (case r of Sleep \<Rightarrow> (gc, GC_Slept) | Return (gc1, a) \<Rightarrow> (gc1, GC_Done (ok a)))"

fun gc_step :: "('k, 'v) gc_op \<Rightarrow> ('k, 'v) gencache \<Rightarrow> (('k, 'v) gencache \<times> 'v gc_res) option" where
  "gc_step (GC_Add dupok lock k v) gc = do { r \<leftarrow> gencache_key_add True dupok lock k v gc; Some (gc_woken gc r (\<lambda>a. a \<noteq> None)) }"
| "gc_step (GC_Lookup lock k) gc = do { (gc1, r) \<leftarrow> gencache_key_lookup k lock gc; Some (gc1, GC_Value (map_option fst r)) }"
| "gc_step (GC_Refresh lock k) gc = do { (gc1, r) \<leftarrow> gencache_key_lookup_refresh k lock gc; Some (gc1, GC_Value (map_option fst r)) }"
| "gc_step (GC_Remove k) gc = do { r \<leftarrow> gencache_key_remove k gc; Some (gc_woken gc r id) }"
| "gc_step (GC_Unlock k) gc = do {
     found \<leftarrow> gencache_lookup_internal k gc;
     item \<leftarrow> found;
     gc1 \<leftarrow> gencache_key_unlock item gc;
     Some (gc1, GC_Done True)
   }"

fun gc_run :: "('k, 'v) gc_op list \<Rightarrow> ('k, 'v) gencache \<Rightarrow> (('k, 'v) gencache \<times> 'v gc_res list) option" where
  "gc_run [] gc = Some (gc, [])"
| "gc_run (op # ops) gc = do { (gc1, r) \<leftarrow> gc_step op gc; (gc2, rs) \<leftarrow> gc_run ops gc1; Some (gc2, r # rs) }"

text \<open>A cache represents a list of entries.\<close>

definition gc_is :: "('k \<Rightarrow> u64) \<Rightarrow> ('k \<Rightarrow> 'k \<Rightarrow> bool) \<Rightarrow> nat \<Rightarrow> ('k, 'v) gencache \<Rightarrow> ('k, 'v) entry list \<Rightarrow> bool" where
  "gc_is hash equal cap gc es \<longleftrightarrow> unat (gc_capacity gc) = cap \<and> 0 < cap \<and> (\<exists>xs. gc_inv hash equal gc xs \<and> map (gc_entry gc) xs = es)"

lemma count_unat: "gc_inv hash equal gc xs \<Longrightarrow> unat (gc_count gc) = length xs"
proof -
  assume i: "gc_inv hash equal gc xs"
  have "unat (gc_capacity gc) < 2 ^ LENGTH(32)" by (rule unsigned_less)
  then have "length xs < 2 ^ LENGTH(32)" using i by (simp add: gc_inv_def)
  then show "unat (gc_count gc) = length xs" using i by (simp add: gc_inv_def unsigned_of_nat take_bit_nat_eq_self)
qed

lemma counts_ok: "gc_inv hash equal gc xs \<Longrightarrow> gc_counts gc"
proof -
  assume i: "gc_inv hash equal gc xs"
  then have "mset (ht_items (gc_hash gc)) = mset (map (\<lambda>a. (fst (gc_entry gc a), a)) xs)" by (simp only: gc_inv_def)
  from mset_eq_length [OF this] have "length (ht_items (gc_hash gc)) = length xs" by simp
  then show "gc_counts gc" using i by (simp add: gc_counts_def gc_inv_def hash_ok_def ht_inv_def hash_table_num_entries_def)
qed

lemma inv_read:
  assumes "gc_inv hash equal gc xs" "a \<in> set xs"
  shows "\<exists>x. gc_read gc a = Some x \<and> hp_objs (gc_items gc) a = Some x \<and> gc_entry gc a = payload x"
proof -
  have "a \<in> dom (hp_objs (gc_items gc))" using assms by (simp add: gc_inv_def)
  then show ?thesis by (auto simp: gc_read_eq gc_entry_def)
qed

lemma linked_refcount:
  assumes "m a = Some x"
  shows "linked (m(a \<mapsto> x\<lparr>pv_refcount := r\<rparr>)) p xs n = linked m p xs n"
  using assms by (induction xs arbitrary: p) (auto split: option.splits)

lemma set_refcount:
  assumes "gc_inv hash equal gc (us @ a # vs)" "hp_objs (gc_items gc) a = Some x" "0 \<le> r"
  shows "\<exists>gc'. gc_update a (\<lambda>x. x\<lparr>pv_refcount := r\<rparr>) gc = Some gc' \<and> gc_inv hash equal gc' (us @ a # vs) \<and>
    gc_capacity gc' = gc_capacity gc \<and>
    map (gc_entry gc') (us @ a # vs) = map (gc_entry gc) us @ (pv_key x, pv_value x, r) # map (gc_entry gc) vs"
proof -
  let ?m = "(hp_objs (gc_items gc))(a \<mapsto> x\<lparr>pv_refcount := r\<rparr>)" let ?xs = "us @ a # vs"
  let ?g = "relinked ?m (recycle_head gc) (recycle_tail gc) gc"
  have i: "gc_list gc ?xs" "dom (hp_objs (gc_items gc)) = set ?xs" "distinct ?xs" "heap_ok (gc_items gc)"
    using assms(1) by (auto simp: gc_inv_def gc_list_def)
  have e: "gc_entry ?g b = (if b = a then (pv_key x, pv_value x, r) else gc_entry gc b)" for b
    by (simp add: gc_entry_def payload_def)
  have k: "fst (gc_entry ?g b) = fst (gc_entry gc b)" for b
    using assms(2) by (simp add: e gc_entry_def payload_def)
  have "gc_list ?g ?xs" using i(1) linked_refcount [of "hp_objs (gc_items gc)" a x r, OF assms(2)] by (simp add: gc_list_relinked gc_list_def)
  moreover have "heap_ok (gc_items ?g)"
    by (rule heap_ok_objs [of "gc_items gc" ?m]) (use i in simp_all)
  moreover have "dom (hp_objs (gc_items ?g)) = set ?xs" using i(2) by auto
  moreover have "\<forall>b \<in> set ?xs. 0 \<le> snd (snd (gc_entry ?g b))" using assms(1,3) by (auto simp: e gc_inv_def)
  ultimately have "gc_inv hash equal ?g ?xs" using assms(1) unfolding gc_inv_def k by simp
  moreover have "map (gc_entry ?g) ?xs = map (gc_entry gc) us @ (pv_key x, pv_value x, r) # map (gc_entry gc) vs"
    using i(3) by (auto simp: e)
  ultimately show ?thesis using gc_update_eq [OF assms(2)] by (intro exI [of _ ?g]) simp
qed

lemma hold_ok:
  assumes "gc_inv hash equal gc (us @ a # vs)" "hold lock (gc_entry gc a) = Some e'"
  shows "\<exists>gc'. (if lock then gc_lock_item a gc else Some gc) = Some gc' \<and> gc_inv hash equal gc' (us @ a # vs) \<and>
    gc_capacity gc' = gc_capacity gc \<and> map (gc_entry gc') (us @ a # vs) = map (gc_entry gc) us @ e' # map (gc_entry gc) vs"
proof (cases lock)
  case False
  then show ?thesis using assms by (simp add: hold_def)
next
  case True
  obtain x where x: "gc_read gc a = Some x" "hp_objs (gc_items gc) a = Some x" "gc_entry gc a = payload x"
    using inv_read [OF assms(1), of a] by auto
  have r: "0 \<le> pv_refcount x" using assms(1) x(3) by (simp add: gc_inv_def payload_def)
  have e': "pv_refcount x < 2147483647" "e' = (pv_key x, pv_value x, pv_refcount x + 1)"
    using assms(2) True x(3) by (auto simp: hold_def holders_def payload_def split: if_splits)
  have "gc_update a (\<lambda>x. x\<lparr>pv_refcount := pv_refcount x + 1\<rparr>) gc = gc_update a (\<lambda>y. y\<lparr>pv_refcount := pv_refcount x + 1\<rparr>) gc"
    by (simp add: gc_update_eq [OF x(2)])
  then have "gc_lock_item a gc = gc_update a (\<lambda>y. y\<lparr>pv_refcount := pv_refcount x + 1\<rparr>) gc"
    using x(1) e'(1) by (simp add: gc_lock_item_def)
  then show ?thesis using True e'(2) r set_refcount [OF assms(1) x(2), of "pv_refcount x + 1"] by simp
qed

lemma refresh_ok:
  assumes "gc_inv hash equal gc (us @ a # vs)" "us \<noteq> [] \<or> vs = []"
  shows "\<exists>gc'. gencache_item_refresh a gc = Some gc' \<and> gc_inv hash equal gc' (us @ vs @ [a]) \<and>
    gc_capacity gc' = gc_capacity gc \<and> map (gc_entry gc') (us @ vs @ [a]) = map (gc_entry gc) (us @ vs @ [a])"
proof (cases "vs = []")
  case True
  have "recycle_tail gc = a" using assms(1) True by (simp add: gc_inv_def gc_list_def)
  then show ?thesis using assms(1) True by (simp add: gencache_item_refresh_def)
next
  case False
  let ?xs = "us @ a # vs"
  have l: "gc_list gc ?xs" and us: "us \<noteq> []" using assms False by (auto simp: gc_inv_def)
  obtain x where x: "gc_read gc a = Some x" "hp_objs (gc_items gc) a = Some x"
    using inv_read [OF assms(1), of a] by auto
  have d: "distinct ?xs" "null \<notin> set ?xs" "recycle_head gc = hd us" "recycle_tail gc = last vs" "linked (hp_objs (gc_items gc)) null ?xs null"
    using l us False by (auto simp: gc_list_def)
  have "last vs \<in> set vs" "hd us \<in> set us" "last us \<in> set us" "hd vs \<in> set vs" using us False by simp_all
  then have ne: "last vs \<noteq> a" "hd us \<noteq> null" "last us \<noteq> null" "hd vs \<noteq> null" using d(1,2) by auto
  have nx: "pv_next x = hd vs" "pv_prev x = last us" using d(5) x(2) us False by (auto simp: linked_append)
  obtain m h t where r: "gencache_recycle_remove a gc = Some (relinked m h t gc)" "gc_list (relinked m h t gc) (us @ vs)"
    "same_payload (hp_objs (gc_items gc)) m"
    using recycle_remove_ok [OF l] by blast
  have "a \<in> dom m" using same_payload_dom [OF r(3)] x(2) by auto
  then obtain y where y: "m a = Some y" by blast
  have "a \<notin> set (us @ vs)" "a \<noteq> null" using d(1,2) by auto
  then obtain m' h' where q: "gencache_recycle_add_tail a (relinked m h t gc) = Some (relinked m' h' a gc)"
    "gc_list (relinked m' h' a gc) ((us @ vs) @ [a])" "same_payload m m'"
    using add_tail_ok [OF r(2), of a y] y by auto
  have p: "same_payload (hp_objs (gc_items gc)) m'" using r(3) q(3) by (simp add: same_payload_def)
  have l': "gc_list (relinked m' h' a gc) (us @ vs @ [a])" using q(2) by simp
  have ms: "mset (us @ vs @ [a]) = mset ?xs" by simp
  have st: "set (us @ vs @ [a]) \<subseteq> set ?xs" by auto
  note ir = inv_relinked(1) [OF assms(1) l' p ms] inv_relinked(2) [OF assms(1) l' p ms st]
  have "gencache_item_refresh a gc = Some (relinked m' h' a gc)"
    using d ne nx x(1) r(1) q(1) by (simp add: gencache_item_refresh_def)
  then show ?thesis using ir by (intro exI [of _ "relinked m' h' a gc"]) simp
qed

context hash_keys
begin

lemma recycle_ok:
  assumes "gc_inv hash equal gc xs" "xs \<noteq> []"
  shows "(case split_at (\<lambda>a. holders (gc_entry gc a) = 0) xs of
      None \<Rightarrow> gencache_recycle gc = Some Sleep
    | Some (us, a, vs) \<Rightarrow> \<exists>gc'. gencache_recycle gc = Some (Return gc') \<and> gc_inv hash equal gc' (us @ vs) \<and>
        gc_capacity gc' = gc_capacity gc \<and> map (gc_entry gc') (us @ vs) = map (gc_entry gc) (us @ vs))"
proof -
  let ?p = "\<lambda>a. holders (gc_entry gc a) = 0" let ?m = "hp_objs (gc_items gc)"
  have l: "gc_list gc xs" using assms(1) by (simp add: gc_inv_def)
  have c: "gc_count gc \<noteq> 0" using count_unat [OF assms(1)] assms(2) by auto
  have "find (\<lambda>a. \<exists>x. ?m a = Some x \<and> pv_refcount x = 0) xs = find ?p xs"
  proof (rule find_cong [OF refl])
    fix a assume "a \<in> set xs"
    from inv_read [OF assms(1) this] show "(\<exists>x. ?m a = Some x \<and> pv_refcount x = 0) = ?p a"
      by (auto simp: holders_def payload_def)
  qed
  then have fu: "find_unused gc (recycle_head gc) = Some (find ?p xs)"
    using find_unused_ok [of gc null xs] l assms(2) by (simp add: gc_list_def)
  show ?thesis
  proof (cases "split_at ?p xs")
    case None
    then show ?thesis using c fu by (simp add: gencache_recycle_def find_split_at)
  next
    case (Some r)
    obtain us a vs where r: "r = (us, a, vs)" by (cases r)
    have xs: "xs = us @ a # vs" "snd (snd (gc_entry gc a)) = 0" using split_at_Some [of ?p xs us a vs] Some r by (auto simp: holders_def)
    obtain m h t gc' x where g: "gencache_recycle_remove a gc = Some (relinked m h t gc)" "m a = Some x" "payload x = gc_entry gc a"
      "\<And>c. gc_hash_remove (fst (gc_entry gc a)) ((relinked m h t gc)\<lparr>gc_count := c\<rparr>) = Some (gc'\<lparr>gc_count := c\<rparr>, True)"
      "gc_capacity gc' = gc_capacity gc"
      "gc_inv hash equal (gc'\<lparr>gc_count := gc_count gc - 1\<rparr>) (us @ vs)" "\<forall>b \<in> set (us @ vs). gc_entry gc' b = gc_entry gc b"
      using unlink_ok [OF assms(1) [unfolded xs(1)] xs(2) equal_refl] by (elim exE conjE) blast
    have "pv_key x = fst (gc_entry gc a)" using g(3) [symmetric] by (simp add: payload_def)
    then have "gencache_recycle gc = Some (Return (gc'\<lparr>gc_count := gc_count gc - 1\<rparr>))"
      using c fu Some r g(1,2,4) by (simp add: gencache_recycle_def find_split_at gc_read_eq)
    then show ?thesis using Some r g(5-7) by auto
  qed
qed

lemma make_room_ok:
  assumes "gc_inv hash equal gc xs" "0 < unat (gc_capacity gc)"
  shows "(case cache_room (unat (gc_capacity gc)) (map (gc_entry gc) xs) of
      None \<Rightarrow> gc_make_room gc = Some Sleep
    | Some es \<Rightarrow> \<exists>gc' ys. gc_make_room gc = Some (Return gc') \<and> gc_inv hash equal gc' ys \<and> gc_capacity gc' = gc_capacity gc \<and>
        map (gc_entry gc') ys = es \<and> length ys < unat (gc_capacity gc))"
proof -
  have full: "gc_count g = gc_capacity g \<longleftrightarrow> \<not> length ys < unat (gc_capacity g)" if "gc_inv hash equal g ys" for g :: "('k, 'b) gencache" and ys
  proof -
    have "unat (gc_count g) = length ys" "length ys \<le> unat (gc_capacity g)"
      using count_unat [OF that] that by (simp_all add: gc_inv_def)
    then show ?thesis by (auto simp: word_unat_eq_iff)
  qed
  have stay: "gc_make_room g = Some (Return g)" if "gc_inv hash equal g ys" "length ys < unat (gc_capacity g)"
    for g :: "('k, 'b) gencache" and ys
    using full [OF that(1)] that(2) by (subst gc_make_room.simps) simp
  show ?thesis
  proof (cases "length xs < unat (gc_capacity gc)")
    case True
    then show ?thesis using stay [OF assms(1) True] assms(1) by (auto simp: cache_room_def)
  next
    case False
    then have ne: "xs \<noteq> []" and f: "gc_count gc = gc_capacity gc" using full [OF assms(1)] assms(2) by auto
    let ?s = "split_at (\<lambda>a. holders (gc_entry gc a) = 0) xs"
    note rec = recycle_ok [OF assms(1) ne]
    show ?thesis
    proof (cases ?s)
      case None
      then have "gc_make_room gc = Some Sleep" using rec f by (subst gc_make_room.simps) simp
      then show ?thesis using None False by (simp add: cache_room_def split_at_map)
    next
      case (Some r)
      obtain us a vs where r: "r = (us, a, vs)" by (cases r)
      obtain gc' where g: "gencache_recycle gc = Some (Return gc')" "gc_inv hash equal gc' (us @ vs)"
        "gc_capacity gc' = gc_capacity gc" "map (gc_entry gc') (us @ vs) = map (gc_entry gc) (us @ vs)"
        using rec Some r by auto
      have "length xs \<le> unat (gc_capacity gc)" using assms(1) by (simp add: gc_inv_def)
      moreover have "xs = us @ a # vs"
        using split_at_Some [of "\<lambda>a. holders (gc_entry gc a) = 0" xs us a vs] Some r by simp
      ultimately have len: "length (us @ vs) < unat (gc_capacity gc)" by simp
      then have "gc_make_room gc = Some (Return gc')"
        using g(1) f stay [OF g(2)] g(3) by (subst gc_make_room.simps) simp
      then show ?thesis using Some r False g(2-4) len by (auto simp: cache_room_def split_at_map)
    qed
  qed
qed

lemma hash_insert_ok:
  assumes "gc_inv hash equal gc xs" "\<forall>a \<in> set xs. \<not> equal k (fst (gc_entry gc a))" "length xs < unat (gc_capacity gc)"
  shows "\<exists>t. (\<forall>hp. gc_hash_insert True k a (gc\<lparr>gc_items := hp\<rparr>) = Some (gc\<lparr>gc_items := hp, gc_hash := t\<rparr>, True)) \<and>
    hash_ok hash equal t \<and> mset (ht_items t) = add_mset (k, a) (mset (ht_items (gc_hash gc)))"
proof -
  let ?t = "gc_hash gc"
  have h: "ht_inv ?t" "ht_hash ?t = hash" "ht_eq ?t = equal" "ht_key_free ?t" "ht_value_free ?t" "ht_freed ?t = []"
    using assms(1) by (simp_all add: gc_inv_def hash_ok_def)
  have "find (\<lambda>a. equal k (fst (gc_entry gc a))) xs = None" using assms(2) by (simp add: find_None_iff)
  then have none: "ht_abs ?t k = None"
    using lookup_internal_ok [OF assms(1), of k] lookup_ok [OF h(1-3), of k] by (simp add: gencache_lookup_internal_def)
  have "mset (ht_items ?t) = mset (map (\<lambda>a. (fst (gc_entry gc a), a)) xs)" using assms(1) by (simp only: gc_inv_def)
  from mset_eq_length [OF this] have "ht_entries ?t = int (length xs)" using h(1) by (simp add: ht_inv_def)
  moreover have "length xs < 536870914"
  proof -
    have "gc_capacity gc < 536870914" using assms(1) by (simp add: gc_inv_def)
    then have "unat (gc_capacity gc) < unat (536870914 :: u32)" by (simp add: word_less_nat_alt)
    then show ?thesis using assms(3) by simp
  qed
  ultimately have "ht_entries ?t < 536870914" by simp
  from insert_ok [OF h(1-3) this, of True True k a] obtain t where
    t: "hash_table_insert True True k a ?t = Some (t, True)" "inserted k a ?t t" by auto
  have u: "ht_inv t" "ht_same ?t t" "mset (ht_items t) = add_mset (k, a) (mset (ht_items ?t))" "ht_freed t = []"
    using t(2) none h(6) by (simp_all add: inserted_def)
  have f: "t\<lparr>ht_freed := []\<rparr> = t" using u(4) by (cases t) simp
  have "gc_hash_insert True k a (gc\<lparr>gc_items := hp\<rparr>) = Some (gc\<lparr>gc_items := hp, gc_hash := t\<rparr>, True)" for hp
    using t(1) u(4) f by (simp add: gc_hash_insert_def gc_hash_done_def)
  moreover have "hash_ok hash equal t" using u h by (simp add: hash_ok_def ht_same_def)
  ultimately show ?thesis using u(3) by blast
qed

text \<open>The new item, before it is held.\<close>

lemma link_new_item:
  assumes "gc_inv hash equal gc xs" "\<forall>a \<in> set xs. \<not> equal k (fst (gc_entry gc a))" "length xs < unat (gc_capacity gc)"
    "heap_new \<lparr>pv_next = null, pv_prev = null, pv_key = k, pv_value = v, pv_refcount = 0\<rparr> (gc_items gc) = (a, hp)"
  shows "\<exists>g1 g2. gc_hash_insert True k a (gc\<lparr>gc_items := hp\<rparr>) = Some (g1, True) \<and>
    gencache_item_refresh a (g1\<lparr>gc_count := gc_count g1 + 1\<rparr>) = Some g2 \<and> gc_inv hash equal g2 (xs @ [a]) \<and>
    gc_capacity g2 = gc_capacity gc \<and> map (gc_entry g2) (xs @ [a]) = map (gc_entry gc) xs @ [(k, v, 0)]"
proof -
  let ?x = "\<lparr>pv_next = null, pv_prev = null, pv_key = k, pv_value = v, pv_refcount = 0\<rparr>" let ?m = "hp_objs (gc_items gc)"
  have i: "gc_list gc xs" "heap_ok (gc_items gc)" "dom ?m = set xs" "gc_count gc = word_of_nat (length xs)"
    "mset (ht_items (gc_hash gc)) = mset (map (\<lambda>a. (fst (gc_entry gc a), a)) xs)"
    using assms(1) by (simp_all only: gc_inv_def)
  note n = heap_new_fresh [OF i(2) assms(4)]
  have "a \<notin> dom ?m" using n(1) by auto
  then have a: "a \<notin> set xs" "a \<noteq> null" using n(2) i(3) by simp_all
  obtain t where t: "\<And>hp. gc_hash_insert True k a (gc\<lparr>gc_items := hp\<rparr>) = Some (gc\<lparr>gc_items := hp, gc_hash := t\<rparr>, True)"
    "hash_ok hash equal t" "mset (ht_items t) = add_mset (k, a) (mset (ht_items (gc_hash gc)))"
    using hash_insert_ok [OF assms(1-3), of a] by (elim exE conjE) blast
  define g1 where "g1 = gc\<lparr>gc_items := hp, gc_hash := t, gc_count := gc_count gc + 1\<rparr>"
  have l1: "linked (hp_objs hp) null xs null = linked ?m null xs null"
    using a(1) n(3) by (intro linked_cong) auto
  then have "gc_list g1 xs" using i(1) by (simp add: gc_list_def g1_def)
  moreover have g1a: "hp_objs (gc_items g1) a = Some ?x" using n(3) by (simp add: g1_def)
  ultimately obtain m h where m: "gencache_recycle_add_tail a g1 = Some (relinked m h a g1)" "gc_list (relinked m h a g1) (xs @ [a])"
    "same_payload (hp_objs hp) m"
    using add_tail_ok [of g1 xs a ?x] a by (auto simp: g1_def)
  let ?g = "relinked m h a g1"
  have "recycle_tail g1 \<noteq> a" using i(1) a last_in_set [of xs] by (auto simp: gc_list_def g1_def)
  then have rf: "gencache_item_refresh a g1 = Some ?g" using m(1) g1a by (simp add: gencache_item_refresh_def gc_read_eq)
  have dm: "dom m = insert a (set xs)" using same_payload_dom [OF m(3)] n(3) i(3) by simp
  have e: "gc_entry ?g b = gc_entry gc b" if "b \<in> set xs" for b
  proof -
    have "b \<noteq> a" using that a(1) by auto
    moreover have "gc_entry ?g b = gc_entry g1 b"
      by (rule entry_relinked) (use m(3) i(3) n(3) that in \<open>auto simp: g1_def\<close>)
    ultimately show ?thesis using n(3) by (simp add: gc_entry_def g1_def)
  qed
  have ea: "gc_entry ?g a = (k, v, 0)"
  proof -
    have "gc_entry ?g a = gc_entry g1 a" by (rule entry_relinked) (use m(3) n(3) in \<open>auto simp: g1_def\<close>)
    then show ?thesis using g1a by (simp add: gc_entry_def payload_def)
  qed
  have mp: "map (gc_entry ?g) (xs @ [a]) = map (gc_entry gc) xs @ [(k, v, 0)]" using e ea by simp
  have "heap_ok (gc_items ?g)"
    by (rule heap_ok_objs [of hp m]) (use n(4) dm in \<open>simp_all add: g1_def\<close>)
  moreover have "mset (ht_items (gc_hash ?g)) = mset (map (\<lambda>a. (fst (gc_entry ?g a), a)) (xs @ [a]))"
  proof -
    have "map (\<lambda>a. (fst (gc_entry ?g a), a)) (xs @ [a]) = map (\<lambda>a. (fst (gc_entry gc a), a)) xs @ [(k, a)]" using e ea by simp
    then have "mset (map (\<lambda>a. (fst (gc_entry ?g a), a)) (xs @ [a])) = add_mset (k, a) (mset (map (\<lambda>a. (fst (gc_entry gc a), a)) xs))"
      by (simp only: mset_append mset.simps) simp
    moreover have "gc_hash ?g = t" by (simp add: g1_def)
    ultimately show ?thesis using t(3) i(5) by (simp only:)
  qed
  moreover have "gc_count ?g = word_of_nat (length (xs @ [a]))" using i(4) by (simp add: g1_def)
  moreover have "length (xs @ [a]) \<le> unat (gc_capacity ?g)" "gc_capacity ?g < 536870914"
    using assms(1,3) by (simp_all add: g1_def gc_inv_def)
  moreover have "\<forall>b \<in> set (xs @ [a]). 0 \<le> snd (snd (gc_entry ?g b))" using e ea assms(1) by (simp add: gc_inv_def)
  moreover have "hash_ok hash equal (gc_hash ?g)" using t(2) by (simp add: g1_def)
  ultimately have inv: "gc_inv hash equal ?g (xs @ [a])" using m(2) dm unfolding gc_inv_def by simp
  have "gc_hash_insert True k a (gc\<lparr>gc_items := hp\<rparr>) = Some (gc\<lparr>gc_items := hp, gc_hash := t\<rparr>, True)" by (rule t(1))
  moreover have "gencache_item_refresh a ((gc\<lparr>gc_items := hp, gc_hash := t\<rparr>)\<lparr>gc_count := gc_count (gc\<lparr>gc_items := hp, gc_hash := t\<rparr>) + 1\<rparr>) = Some ?g"
    using rf by (simp add: g1_def)
  moreover have "gc_capacity ?g = gc_capacity gc" by (simp add: g1_def)
  ultimately show ?thesis using inv mp by blast
qed

lemma add_entry_ok:
  assumes "gc_inv hash equal gc xs" "\<forall>a \<in> set xs. \<not> equal k (fst (gc_entry gc a))" "length xs < unat (gc_capacity gc)"
  shows "\<exists>gc' a. gc_add_entry True lock k v gc = Some (gc', a) \<and> gc_inv hash equal gc' (xs @ [a]) \<and>
    gc_capacity gc' = gc_capacity gc \<and> map (gc_entry gc') (xs @ [a]) = map (gc_entry gc) xs @ [(k, v, if lock then 1 else 0)]"
proof -
  obtain a hp where n: "heap_new \<lparr>pv_next = null, pv_prev = null, pv_key = k, pv_value = v, pv_refcount = 0\<rparr> (gc_items gc) = (a, hp)"
    by fastforce
  obtain g1 g2 where g: "gc_hash_insert True k a (gc\<lparr>gc_items := hp\<rparr>) = Some (g1, True)"
    "gencache_item_refresh a (g1\<lparr>gc_count := gc_count g1 + 1\<rparr>) = Some g2" "gc_inv hash equal g2 (xs @ [a])"
    "gc_capacity g2 = gc_capacity gc" "map (gc_entry g2) (xs @ [a]) = map (gc_entry gc) xs @ [(k, v, 0)]"
    using link_new_item [OF assms n] by (elim exE conjE)
  have ea: "hold lock (gc_entry g2 a) = Some (k, v, if lock then 1 else 0)" using g(5) by (simp add: hold_def holders_def)
  obtain g3 where g3: "(if lock then gc_lock_item a g2 else Some g2) = Some g3" "gc_inv hash equal g3 (xs @ [a])"
    "gc_capacity g3 = gc_capacity g2" "map (gc_entry g3) (xs @ [a]) = map (gc_entry g2) xs @ [(k, v, if lock then 1 else 0)]"
    using hold_ok [OF g(3) ea] by auto
  have "gc_count gc \<noteq> gc_capacity gc" using count_unat [OF assms(1)] assms(3) by auto
  then have "gc_add_entry True lock k v gc = Some (g3, a)"
    using counts_ok [OF assms(1)] n g(1,2) g3(1) counts_ok [OF g3(2)] by (simp add: gc_add_entry_def)
  then show ?thesis using g3(2-4) g(4,5) by (intro exI [of _ g3] exI [of _ a]) simp
qed

subsection \<open>The operations refine the specification\<close>

lemma gc_isI:
  "gc_inv hash equal gc xs \<Longrightarrow> map (gc_entry gc) xs = es \<Longrightarrow> unat (gc_capacity gc) = cap \<Longrightarrow> 0 < cap \<Longrightarrow>
    gc_is hash equal cap gc es"
  by (auto simp: gc_is_def)

lemma find_entry:
  assumes "gc_inv hash equal gc xs"
  shows "split_at (\<lambda>e. equal k (fst e)) (map (gc_entry gc) xs) =
      map_option (\<lambda>(us, a, vs). (map (gc_entry gc) us, gc_entry gc a, map (gc_entry gc) vs))
        (split_at (\<lambda>a. equal k (fst (gc_entry gc a))) xs)"
    "gencache_lookup_internal k gc = Some (map_option (\<lambda>(us, a, vs). a) (split_at (\<lambda>a. equal k (fst (gc_entry gc a))) xs))"
  using lookup_internal_ok [OF assms, of k] by (simp_all add: split_at_map find_split_at)

lemma cache_room_sub: "cache_room cap es = Some fs \<Longrightarrow> set fs \<subseteq> set es"
proof -
  assume f: "cache_room cap es = Some fs"
  show "set fs \<subseteq> set es"
  proof (cases "length es < cap")
    case False
    then obtain us e vs where "split_at (\<lambda>e. holders e = 0) es = Some (us, e, vs)" "fs = us @ vs"
      using f by (auto simp: cache_room_def)
    then show ?thesis using split_at_Some [of "\<lambda>e. holders e = 0" es us e vs] by auto
  qed (use f in \<open>simp add: cache_room_def\<close>)
qed

lemma add_refines:
  assumes "gc_is hash equal cap gc es" "cache_step equal cap (GC_Add dupok lock k v) es = Some (es', r)"
  shows "\<exists>gc'. gc_step (GC_Add dupok lock k v) gc = Some (gc', r) \<and> gc_is hash equal cap gc' es'"
proof -
  obtain xs where xs: "gc_inv hash equal gc xs" "es = map (gc_entry gc) xs" and cap: "unat (gc_capacity gc) = cap" "0 < cap"
    using assms(1) by (auto simp: gc_is_def)
  let ?p = "\<lambda>a. equal k (fst (gc_entry gc a))"
  note fe = find_entry [OF xs(1), of k] counts_ok [OF xs(1)]
  show ?thesis
  proof (cases "\<exists>e \<in> set es. equal k (fst e)")
    case True
    then have d: "dupok" "es' = es" "r = GC_Done False" using assms(2) by (auto split: if_splits)
    have "split_at ?p xs \<noteq> None" using True xs(2) by (auto simp: split_at_None)
    then show ?thesis using d fe assms(1) by (auto simp: gencache_key_add_def gc_woken_def)
  next
    case False
    then have no: "\<forall>a \<in> set xs. \<not> ?p a" using xs(2) by auto
    then have "split_at ?p xs = None" by (simp add: split_at_None)
    then have ka: "gencache_key_add True dupok lock k v gc = gc_add_locked True lock k v gc"
      using fe by (simp add: gencache_key_add_def)
    note room = make_room_ok [OF xs(1), unfolded cap, OF cap(2)]
    show ?thesis
    proof (cases "cache_room cap es")
      case None
      then have "gc_make_room gc = Some Sleep" "es' = es" "r = GC_Slept" using room assms(2) False xs(2) by (auto split: if_splits)
      then show ?thesis using ka assms(1) by (simp add: gc_add_locked_def gc_woken_def)
    next
      case (Some fs)
      obtain g ys where g: "gc_make_room gc = Some (Return g)" "gc_inv hash equal g ys" "gc_capacity g = gc_capacity gc"
        "map (gc_entry g) ys = fs" "length ys < unat (gc_capacity g)"
        using room Some xs(2) cap by auto
      have e: "es' = fs @ [(k, v, if lock then 1 else 0)]" "r = GC_Done True" using assms(2) Some False by (auto split: if_splits)
      have sub: "set fs \<subseteq> set es" by (rule cache_room_sub [OF Some])
      have "\<not> equal k (fst (gc_entry g b))" if "b \<in> set ys" for b
      proof -
        have "gc_entry g b \<in> set fs" using that g(4) by auto
        then show ?thesis using sub False by blast
      qed
      then obtain gc' a where a: "gc_add_entry True lock k v g = Some (gc', a)" "gc_inv hash equal gc' (ys @ [a])"
        "gc_capacity gc' = gc_capacity g" "map (gc_entry gc') (ys @ [a]) = map (gc_entry g) ys @ [(k, v, if lock then 1 else 0)]"
        using add_entry_ok [OF g(2) _ g(5), of k lock v] by auto
      have "gc_step (GC_Add dupok lock k v) gc = Some (gc', r)"
        using ka g(1) a(1) e(2) by (simp add: gc_add_locked_def gc_woken_def)
      moreover have "gc_is hash equal cap gc' es'"
        by (rule gc_isI [OF a(2)]) (use a(3,4) g(3,4) cap e(1) in \<open>simp_all only:\<close>)
      ultimately show ?thesis by blast
    qed
  qed
qed

lemma lookup_refines:
  assumes "gc_is hash equal cap gc es"
    "cache_step equal cap (if refresh then GC_Refresh lock k else GC_Lookup lock k) es = Some (es', r)"
  shows "\<exists>gc' v. gencache_key_lookup_helper k lock refresh gc = Some (gc', v) \<and> r = GC_Value (map_option fst v) \<and> gc_is hash equal cap gc' es'"
proof -
  obtain xs where xs: "gc_inv hash equal gc xs" "es = map (gc_entry gc) xs" and cap: "unat (gc_capacity gc) = cap" "0 < cap"
    using assms(1) by (auto simp: gc_is_def)
  let ?s = "split_at (\<lambda>a. equal k (fst (gc_entry gc a))) xs"
  note fe = find_entry [OF xs(1), of k]
  show ?thesis
  proof (cases ?s)
    case None
    then have "es' = es" "r = GC_Value None" using assms(2) fe(1) xs(2) by (cases refresh; simp)+
    then show ?thesis using None fe(2) assms(1) by (simp add: gencache_key_lookup_helper_def)
  next
    case (Some q)
    obtain us a vs where q: "q = (us, a, vs)" by (cases q)
    have x: "xs = us @ a # vs" using split_at_Some [of _ xs us a vs] Some q by auto
    obtain e' where e': "hold lock (gc_entry gc a) = Some e'" "r = GC_Value (Some (fst (snd (gc_entry gc a))))"
      "refresh \<longrightarrow> us \<noteq> [] \<or> vs = []"
      "es' = (if refresh then map (gc_entry gc) (us @ vs) @ [e'] else map (gc_entry gc) us @ e' # map (gc_entry gc) vs)"
      using assms(2) fe(1) xs(2) Some q by (cases refresh) (auto elim!: fault_elims)
    obtain y where y: "gc_read gc a = Some y" "gc_entry gc a = payload y" using inv_read [OF xs(1), of a] x by auto
    obtain g1 where g1: "(if lock then gc_lock_item a gc else Some gc) = Some g1" "gc_inv hash equal g1 (us @ a # vs)"
      "gc_capacity g1 = gc_capacity gc" "map (gc_entry g1) (us @ a # vs) = map (gc_entry gc) us @ e' # map (gc_entry gc) vs"
      using hold_ok [OF xs(1) [unfolded x] e'(1)] by (elim exE conjE)
    have m1: "map (gc_entry g1) us = map (gc_entry gc) us" "gc_entry g1 a = e'" "map (gc_entry g1) vs = map (gc_entry gc) vs"
      using g1(4) by simp_all
    have v: "fst (snd (gc_entry gc a)) = pv_value y" using y(2) by (simp add: payload_def)
    show ?thesis
    proof (cases refresh)
      case False
      have "gencache_key_lookup_helper k lock refresh gc = Some (g1, Some (pv_value y, a))"
        using False fe(2) Some q y(1) g1(1) by (simp add: gencache_key_lookup_helper_def)
      moreover have "gc_is hash equal cap g1 es'"
        by (rule gc_isI [OF g1(2)]) (use g1(3,4) cap e'(4) False in \<open>simp_all only: if_False\<close>)
      ultimately show ?thesis using e'(2) v by auto
    next
      case True
      obtain g2 where g2: "gencache_item_refresh a g1 = Some g2" "gc_inv hash equal g2 (us @ vs @ [a])"
        "gc_capacity g2 = gc_capacity g1" "map (gc_entry g2) (us @ vs @ [a]) = map (gc_entry g1) (us @ vs @ [a])"
        using refresh_ok [OF g1(2)] e'(3) True by blast
      have "gencache_key_lookup_helper k lock refresh gc = Some (g2, Some (pv_value y, a))"
        using True fe(2) Some q y(1) g1(1) g2(1) by (simp add: gencache_key_lookup_helper_def)
      moreover have "gc_is hash equal cap g2 es'"
        by (rule gc_isI [OF g2(2)]) (use g2(3,4) g1(3) cap e'(4) True m1 in \<open>simp_all only: if_True map_append list.map append_assoc\<close>)
      ultimately show ?thesis using e'(2) v by auto
    qed
  qed
qed

lemma remove_refines:
  assumes "gc_is hash equal cap gc es" "cache_step equal cap (GC_Remove k) es = Some (es', r)"
  shows "\<exists>gc'. gc_step (GC_Remove k) gc = Some (gc', r) \<and> gc_is hash equal cap gc' es'"
proof -
  obtain xs where xs: "gc_inv hash equal gc xs" "es = map (gc_entry gc) xs" and cap: "unat (gc_capacity gc) = cap" "0 < cap"
    using assms(1) by (auto simp: gc_is_def)
  let ?s = "split_at (\<lambda>a. equal k (fst (gc_entry gc a))) xs"
  note fe = find_entry [OF xs(1), of k]
  show ?thesis
  proof (cases ?s)
    case None
    then have "es' = es" "r = GC_Done False" using assms(2) fe(1) xs(2) by simp_all
    then show ?thesis using None fe(2) assms(1) by (simp add: gencache_key_remove_def gc_woken_def)
  next
    case (Some q)
    obtain us a vs where q: "q = (us, a, vs)" by (cases q)
    have x: "xs = us @ a # vs" "equal k (fst (gc_entry gc a))" using split_at_Some [of _ xs us a vs] Some q by auto
    obtain y where y: "gc_read gc a = Some y" "gc_entry gc a = payload y" using inv_read [OF xs(1), of a] x by auto
    have h: "holders (gc_entry gc a) = pv_refcount y" using y(2) by (simp add: holders_def payload_def)
    show ?thesis
    proof (cases "pv_refcount y = 0")
      case False
      then have "es' = es" "r = GC_Slept" using assms(2) fe(1) xs(2) Some q h by simp_all
      then show ?thesis using False Some q fe(2) y(1) assms(1) by (simp add: gencache_key_remove_def gc_woken_def)
    next
      case True
      then have e: "es' = map (gc_entry gc) (us @ vs)" "r = GC_Done True" using assms(2) fe(1) xs(2) Some q h by simp_all
      have "snd (snd (gc_entry gc a)) = 0" using h True by (simp add: holders_def)
      from unlink_ok [OF xs(1) [unfolded x(1)] this x(2)] obtain m h t gc' where
        g: "gencache_recycle_remove a gc = Some (relinked m h t gc)"
        "\<And>c. gc_hash_remove k ((relinked m h t gc)\<lparr>gc_count := c\<rparr>) = Some (gc'\<lparr>gc_count := c\<rparr>, True)"
        "gc_count gc' = gc_count gc" "gc_capacity gc' = gc_capacity gc"
        "gc_inv hash equal (gc'\<lparr>gc_count := gc_count gc - 1\<rparr>) (us @ vs)" "\<forall>b \<in> set (us @ vs). gc_entry gc' b = gc_entry gc b"
        by (elim exE conjE) blast
      let ?g = "gc'\<lparr>gc_count := gc_count gc - 1\<rparr>"
      have "(relinked m h t gc)\<lparr>gc_count := gc_count gc\<rparr> = relinked m h t gc" by (cases gc) (simp add: relinked_def)
      moreover have "gc'\<lparr>gc_count := gc_count gc\<rparr> = gc'" using g(3) by (cases gc') simp
      ultimately have hr: "gc_hash_remove k (relinked m h t gc) = Some (gc', True)" using g(2) [of "gc_count gc"] by (simp only:)
      have "gc_remove_item True a k gc = Some (Return (?g, True))"
        using y(1) True g(1,3) hr counts_ok [OF g(5)] by (simp add: gc_remove_item_def)
      then have "gc_step (GC_Remove k) gc = Some (?g, r)"
        using True Some q fe(2) y(1) e(2) by (simp add: gencache_key_remove_def gc_woken_def)
      moreover have "map (gc_entry ?g) (us @ vs) = es'" using g(6) e(1) by simp
      then have "gc_is hash equal cap ?g es'" by (rule gc_isI [OF g(5)]) (use g(4) cap in simp_all)
      ultimately show ?thesis by blast
    qed
  qed
qed

lemma unlock_refines:
  assumes "gc_is hash equal cap gc es" "cache_step equal cap (GC_Unlock k) es = Some (es', r)"
  shows "\<exists>gc'. gc_step (GC_Unlock k) gc = Some (gc', r) \<and> gc_is hash equal cap gc' es'"
proof -
  obtain xs where xs: "gc_inv hash equal gc xs" "es = map (gc_entry gc) xs" and cap: "unat (gc_capacity gc) = cap" "0 < cap"
    using assms(1) by (auto simp: gc_is_def)
  let ?s = "split_at (\<lambda>a. equal k (fst (gc_entry gc a))) xs"
  note fe = find_entry [OF xs(1), of k]
  obtain us a vs where q: "?s = Some (us, a, vs)" using assms(2) fe(1) xs(2) by (cases ?s) auto
  have x: "xs = us @ a # vs" using split_at_Some [OF q] by simp
  obtain y where y: "gc_read gc a = Some y" "hp_objs (gc_items gc) a = Some y" "gc_entry gc a = payload y"
    using inv_read [OF xs(1), of a] x by auto
  have e: "pv_refcount y \<noteq> 0" "es' = map (gc_entry gc) us @ (pv_key y, pv_value y, pv_refcount y - 1) # map (gc_entry gc) vs" "r = GC_Done True"
    using assms(2) fe(1) xs(2) q y(3) by (auto simp: holders_def payload_def split: if_splits)
  have "0 \<le> pv_refcount y" using xs(1) x y(3) by (simp add: gc_inv_def payload_def)
  then have "0 \<le> pv_refcount y - 1" using e(1) by simp
  from set_refcount [OF xs(1) [unfolded x] y(2) this] obtain gc' where
    g: "gc_update a (\<lambda>x. x\<lparr>pv_refcount := pv_refcount y - 1\<rparr>) gc = Some gc'" "gc_inv hash equal gc' (us @ a # vs)"
    "gc_capacity gc' = gc_capacity gc"
    "map (gc_entry gc') (us @ a # vs) = map (gc_entry gc) us @ (pv_key y, pv_value y, pv_refcount y - 1) # map (gc_entry gc) vs"
    by (elim exE conjE)
  have "gc_update a (\<lambda>x. x\<lparr>pv_refcount := pv_refcount x - 1\<rparr>) gc = Some gc'" using g(1) by (simp add: gc_update_eq [OF y(2)])
  then have "gc_step (GC_Unlock k) gc = Some (gc', r)" using fe(2) q y(1) e by (simp add: gencache_key_unlock_def)
  moreover have "gc_is hash equal cap gc' es'" by (rule gc_isI [OF g(2)]) (use g(3,4) cap e(2) in \<open>simp_all only:\<close>)
  ultimately show ?thesis by blast
qed

lemma step_refines_cache:
  assumes "gc_is hash equal cap gc es" "cache_step equal cap op es = Some (es', r)"
  shows "\<exists>gc'. gc_step op gc = Some (gc', r) \<and> gc_is hash equal cap gc' es'"
proof (cases op)
  case (GC_Add d l k v)
  then show ?thesis using add_refines assms by simp
next
  case (GC_Lookup l k)
  then show ?thesis using lookup_refines [OF assms(1), of False l k es' r] assms(2) by (auto simp: gencache_key_lookup_def)
next
  case (GC_Refresh l k)
  then show ?thesis using lookup_refines [OF assms(1), of True l k es' r] assms(2) by (auto simp: gencache_key_lookup_refresh_def)
next
  case (GC_Remove k)
  then show ?thesis using remove_refines assms by simp
next
  case (GC_Unlock k)
  then show ?thesis using unlock_refines assms by simp
qed

lemma run_refines_cache:
  assumes "gc_is hash equal cap gc es" "cache_run equal cap ops es = Some (es', rs)"
  shows "\<exists>gc'. gc_run ops gc = Some (gc', rs) \<and> gc_is hash equal cap gc' es'"
  using assms
proof (induction ops arbitrary: gc es rs)
  case (Cons op ops)
  obtain es1 r rs1 where o: "cache_step equal cap op es = Some (es1, r)" "cache_run equal cap ops es1 = Some (es', rs1)" "rs = r # rs1"
    using Cons.prems(2) by (auto elim!: fault_elims)
  obtain g1 where g1: "gc_step op gc = Some (g1, r)" "gc_is hash equal cap g1 es1"
    using step_refines_cache [OF Cons.prems(1) o(1)] by blast
  obtain g2 where "gc_run ops g1 = Some (g2, rs1)" "gc_is hash equal cap g2 es'"
    using Cons.IH [OF g1(2) o(2)] by blast
  then show ?case using g1(1) o(3) by simp
qed auto

lemma init_is:
  assumes "gencache_init n kf vf equal hash hp = Some gc" "heap_ok hp" "hp_objs hp = Map.empty" "0 < n" "n < 536870914"
  shows "gc_is hash equal (unat n) gc []"
proof -
  obtain h where h: "hash_table_new True True (\<lambda>_. hash) (\<lambda>_. equal) () = Some h"
    "gc = \<lparr>gc_capacity = n, gc_count = 0, gc_key_free = kf, gc_item_free = vf,
       gc_hash = hash_table_register_free_functions True True (hash_table_set_user () h),
       recycle_head = null, recycle_tail = null, gc_items = hp, gc_freed = []\<rparr>"
    using assms(1) by (auto simp: gencache_init_def elim!: fault_elims)
  let ?t = "hash_table_register_free_functions True True (hash_table_set_user () h)"
  note n = new_ok [OF h(1)]
  have t: "ht_hash ?t = ht_hash h" "ht_eq ?t = ht_eq h" "ht_items ?t = ht_items h"
    by (simp_all add: hash_table_register_free_functions_def hash_table_set_user_def ht_hash_def ht_eq_def ht_items_def)
  have "ht_inv ?t = ht_inv h" unfolding ht_inv_def t
    by (simp add: hash_table_register_free_functions_def hash_table_set_user_def)
  then have "hash_ok hash equal ?t" using n t
    by (simp add: hash_ok_def) (simp add: hash_table_register_free_functions_def hash_table_set_user_def)
  then have "gc_inv hash equal gc []" using h(2) t(3) n(6) assms(2,3,5) by (simp add: gc_inv_def gc_list_def)
  moreover have "0 < unat n" using assms(4) by (simp add: word_less_nat_alt)
  ultimately show ?thesis using h(2) by (auto simp: gc_is_def)
qed

end

text \<open>
  (C9) The cache refines its specification. From a new cache for any number of entries up to 536870913, any
  sequence of additions, lookups (with or without refreshing, holding the item or not), removals and
  releases that the specification allows runs without a failed assertion and without using an invalid
  pointer; every call returns, or goes to sleep, exactly as the specification says, and the cache
  represents the same entries in the same order, never more than its capacity.
\<close>

theorem gencache_refines_lru:
  assumes "hash_keys hash equal" "gencache_init n kf vf equal hash hp = Some gc" "heap_ok hp" "hp_objs hp = Map.empty"
    "0 < n" "n < 536870914" "cache_run equal (unat n) ops [] = Some (es, rs)"
  shows "\<exists>gc'. gc_run ops gc = Some (gc', rs) \<and> gc_is hash equal (unat n) gc' es \<and> length es \<le> unat n"
proof -
  obtain gc' where g: "gc_run ops gc = Some (gc', rs)" "gc_is hash equal (unat n) gc' es"
    using hash_keys.run_refines_cache [OF assms(1) hash_keys.init_is [OF assms(1-6)] assms(7)] by blast
  then have "length es \<le> unat n" by (auto simp: gc_is_def gc_inv_def)
  then show ?thesis using g by blast
qed

lemma init_exists: "\<exists>gc. gencache_init n kf vf equal hash hp = Some gc"
proof -
  obtain t :: "('a, addr, unit) HashTable" where "hash_table_new True True (\<lambda>_. hash) (\<lambda>_. equal) () = Some t"
    using new_exists [of "\<lambda>_. hash" "\<lambda>_. equal" "()"] by blast
  then show ?thesis by (simp add: gencache_init_def)
qed

text \<open>Two entries, the older one held, so that a third entry takes the place of the younger one.\<close>

theorem gencache_refines_lru_witness:
  "\<exists>gc gc'. gencache_init 2 True True (=) (\<lambda>k :: u64. k) empty_heap = Some gc \<and>
     gc_run [GC_Add False True 1 ''a'', GC_Add True False 2 ''b'', GC_Add False False 3 ''c'', GC_Lookup False 2,
         GC_Remove 1, GC_Unlock 1, GC_Remove 1] gc =
       Some (gc', [GC_Done True, GC_Done True, GC_Done True, GC_Value None, GC_Slept, GC_Done True, GC_Done True]) \<and>
     gc_is (\<lambda>k. k) (=) 2 gc' [(3, ''c'', 0)] \<and> length [(3 :: u64, ''c'', 0 :: int)] \<le> 2"
proof -
  obtain gc :: "(u64, string) gencache" where gc: "gencache_init 2 True True (=) (\<lambda>k. k) empty_heap = Some gc"
    using init_exists by blast
  have "cache_run (=) (unat (2 :: u32)) [GC_Add False True (1 :: u64) ''a'', GC_Add True False 2 ''b'', GC_Add False False 3 ''c'',
      GC_Lookup False 2, GC_Remove 1, GC_Unlock 1, GC_Remove 1] [] =
    Some ([(3, ''c'', 0)], [GC_Done True, GC_Done True, GC_Done True, GC_Value None, GC_Slept, GC_Done True, GC_Done True])"
    by (simp add: cache_room_def hold_def holders_def)
  from gencache_refines_lru [OF word_keys gc heap_ok_empty empty_heap_objs _ _ this]
  show ?thesis using gc by auto
qed

subsection \<open>Refreshing the oldest item\<close>

text \<open>The oldest of several items has no predecessor, so it is appended without being taken out.\<close>

lemma refresh_oldest:
  assumes "gc_inv hash equal gc (a # bs)" "bs \<noteq> []"
  shows "\<exists>m. gencache_item_refresh a gc = Some (relinked m a a gc) \<and> same_payload (hp_objs (gc_items gc)) m"
proof -
  let ?m = "hp_objs (gc_items gc)"
  have l: "distinct (a # bs)" "null \<notin> set (a # bs)" "linked ?m null (a # bs) null" "recycle_head gc = a" "recycle_tail gc = last bs"
    using assms by (auto simp: gc_inv_def gc_list_def)
  obtain x where x: "?m a = Some x" "pv_prev x = null" using l(3) by (auto split: option.splits)
  obtain ws b where bs: "bs = ws @ [b]" using assms(2) by (cases bs rule: rev_cases) auto
  obtain z where z: "?m b = Some z" "pv_next z = null" using l(3) bs by (auto simp: linked_append split: option.splits)
  have ne: "b \<noteq> a" "b \<noteq> null" "recycle_tail gc = b" using l bs by auto
  let ?m' = "?m(b \<mapsto> z\<lparr>pv_next := a\<rparr>, a \<mapsto> x\<lparr>pv_next := null, pv_prev := b\<rparr>)"
  have "gencache_item_refresh a gc = Some (relinked ?m' a a gc)"
    using ne x z l(4) by (simp add: gencache_item_refresh_def gencache_recycle_add_tail_def gc_read_eq gc_update_eq)
  moreover have "same_payload ?m ?m'" using x(1) z(1) by (auto simp: same_payload_def)
  ultimately show ?thesis by blast
qed

context hash_keys
begin

lemma lost_items:
  assumes "gc_inv hash equal gc (a # bs)" "bs \<noteq> []" "\<forall>b \<in> set (a # bs). holders (gc_entry gc b) = 0"
  shows "\<exists>g1 g2 v. gencache_key_lookup_refresh (fst (gc_entry gc a)) False gc = Some (g1, Some (v, a)) \<and>
    gencache_key_remove (fst (gc_entry gc a)) g1 = Some (Return (g2, True)) \<and>
    (\<forall>b \<in> set bs. gencache_key_remove (fst (gc_entry gc b)) g2 = None)"
proof -
  let ?k = "fst (gc_entry gc a)" let ?f = "\<lambda>a. fst (gc_entry gc a)"
  have i: "hash_ok hash equal (gc_hash gc)" "mset (ht_items (gc_hash gc)) = mset (map (\<lambda>a. (?f a, a)) ([] @ a # bs))"
    "dom (hp_objs (gc_items gc)) = set (a # bs)" "distinct (a # bs)" "null \<notin> set (a # bs)"
    using assms(1) by (simp_all add: gc_inv_def gc_list_def)
  have lki: "gencache_lookup_internal ?k gc = Some (Some a)" using lookup_internal_ok [OF assms(1), of ?k] equal_refl [of ?k] by simp
  obtain m where m: "gencache_item_refresh a gc = Some (relinked m a a gc)" "same_payload (hp_objs (gc_items gc)) m"
    using refresh_oldest [OF assms(1,2)] by blast
  let ?g1 = "relinked m a a gc"
  have rd: "\<exists>x. m b = Some x \<and> payload x = gc_entry gc b \<and> pv_refcount x = 0" if b: "b \<in> set (a # bs)" for b
  proof -
    obtain x where x: "m b = Some x" using same_payload_dom [OF m(2)] i(3) b by blast
    moreover have "payload x = gc_entry gc b" using entry_relinked [OF m(2), of b a a] i(3) b x by (simp add: gc_entry_def)
    moreover have "holders (gc_entry gc b) = 0" using assms(3) b by blast
    then have "pv_refcount x = 0" using calculation(2) [symmetric] by (simp add: holders_def payload_def)
    ultimately show ?thesis by blast
  qed
  obtain x where x: "m a = Some x" "payload x = gc_entry gc a" "pv_refcount x = 0" using rd [of a] by auto
  obtain y where y: "hp_objs (gc_items gc) a = Some y" using i(3) by auto
  have lk: "gencache_key_lookup_refresh ?k False gc = Some (?g1, Some (pv_value y, a))"
    using lki y m(1)
    by (simp add: gencache_key_lookup_refresh_def gencache_key_lookup_helper_def gc_read_eq)
  obtain t' where t': "hash_table_remove ?k (gc_hash gc) = Some (t', True)" "hash_ok hash equal (t'\<lparr>ht_freed := []\<rparr>)"
    "mset (ht_items t') = mset (map (\<lambda>a. (?f a, a)) ([] @ bs))" "ht_freed t' = [Inl ?k, Inr a]"
    using hash_remove_ok [OF i(1,2) equal_refl] by (elim exE conjE)
  define fr where "fr = gc_freed gc @ (if gc_key_free gc then [Inl ?k] else []) @ (if gc_item_free gc then [Inr (pv_value x)] else [])"
  define g2 where "g2 = (relinked (m(a := None)) null null gc)\<lparr>gc_hash := t'\<lparr>ht_freed := []\<rparr>, gc_freed := fr, gc_count := gc_count gc - 1\<rparr>"
  have a0: "a \<noteq> null" using i(5) by simp
  have rr: "gencache_recycle_remove a ?g1 = Some (relinked (m(a \<mapsto> unlinked x)) null null gc)"
    using x(1) a0 by (simp add: gencache_recycle_remove_def gc_read_eq gc_update_eq)
  have "pv_refcount (unlinked x) = 0" "pv_value (unlinked x) = pv_value x" using x(3) by (simp_all add: unlinked_def)
  then have hr: "gc_hash_remove ?k (relinked (m(a \<mapsto> unlinked x)) null null gc) = Some (g2\<lparr>gc_count := gc_count gc\<rparr>, True)"
    using t'(1,4)
    by (cases gc) (simp add: gc_hash_remove_def gc_hash_done_def gencache_hash_key_free_def gencache_hash_item_free_def
      gc_read_def heap_read_def heap_delete_def relinked_def g2_def fr_def)
  have "gc_counts g2"
  proof -
    have "length (ht_items t') = length bs" using mset_eq_length [OF t'(3)] by simp
    then have "ht_entries (t'\<lparr>ht_freed := []\<rparr>) = int (length bs)" using t'(2) by (simp add: hash_ok_def ht_inv_def)
    moreover have "gc_count gc - 1 = word_of_nat (length bs)" using assms(1) by (simp add: gc_inv_def)
    ultimately show ?thesis by (simp add: gc_counts_def hash_table_num_entries_def g2_def)
  qed
  moreover have "(g2\<lparr>gc_count := gc_count gc\<rparr>)\<lparr>gc_count := gc_count (g2\<lparr>gc_count := gc_count gc\<rparr>) - 1\<rparr> = g2"
    by (simp add: g2_def)
  moreover have "gencache_lookup_internal ?k ?g1 = Some (Some a)" using lki by (simp add: gencache_lookup_internal_def)
  ultimately have rm: "gencache_key_remove ?k ?g1 = Some (Return (g2, True))"
    using x(1,3) rr hr by (simp add: gencache_key_remove_def gc_remove_item_def gc_read_eq Let_def)
  have "gencache_key_remove (?f b) g2 = None" if b: "b \<in> set bs" for b
  proof -
    have h2: "recycle_head g2 = null" "gc_hash g2 = t'\<lparr>ht_freed := []\<rparr>" "hp_objs (gc_items g2) = m(a := None)"
      by (simp_all add: g2_def relinked_def)
    have none: "gencache_recycle_remove c g2 = None" for c by (simp add: gencache_recycle_remove_def h2(1))
    have its: "mset (ht_items (t'\<lparr>ht_freed := []\<rparr>)) = mset (map (\<lambda>a. (?f a, a)) bs)" using t'(3) by simp
    have "find (\<lambda>c. equal (?f b) (?f c)) bs \<noteq> None" using b equal_refl [of "?f b"] unfolding find_None_iff by blast
    then obtain c where c: "find (\<lambda>c. equal (?f b) (?f c)) bs = Some c" by blast
    then have "c \<in> set bs" unfolding find_Some_iff using nth_mem by blast
    then have "c \<noteq> a" "c \<in> set (a # bs)" using i(4) by auto
    then obtain z where "hp_objs (gc_items g2) c = Some z" "pv_refcount z = 0"
      using rd [of c] h2(3) by auto
    then show ?thesis using table_lookup_ok [OF t'(2) its, of "?f b"] c h2(2) none
      by (simp add: gencache_key_remove_def gc_remove_item_def gencache_lookup_internal_def gc_read_eq)
  qed
  then show ?thesis using lk rm by blast
qed

end

text \<open>
  (C40) Refreshing the oldest entry of a cache loses all others from the recycle list: once the refreshed
  entry is removed, removing any other entry fails an assertion, although it is in the cache and nobody
  holds it.
\<close>

theorem gencache_refresh_oldest_breaks:
  assumes "hash_keys hash equal" "gc_is hash equal cap gc (e # es)" "es \<noteq> []" "\<forall>e' \<in> set (e # es). holders e' = 0"
  shows "\<exists>g1 g2 r. gencache_key_lookup_refresh (fst e) False gc = Some (g1, Some r) \<and>
    gencache_key_remove (fst e) g1 = Some (Return (g2, True)) \<and> (\<forall>e' \<in> set es. gencache_key_remove (fst e') g2 = None)"
proof -
  obtain a bs where xs: "gc_inv hash equal gc (a # bs)" "gc_entry gc a = e" "map (gc_entry gc) bs = es"
    using assms(2) by (auto simp: gc_is_def)
  have "bs \<noteq> []" "\<forall>b \<in> set (a # bs). holders (gc_entry gc b) = 0" using assms(3,4) xs(2,3) by auto
  from hash_keys.lost_items [OF assms(1) xs(1) this] obtain g1 g2 v where
    "gencache_key_lookup_refresh (fst e) False gc = Some (g1, Some (v, a))"
    "gencache_key_remove (fst e) g1 = Some (Return (g2, True))"
    "\<forall>b \<in> set bs. gencache_key_remove (fst (gc_entry gc b)) g2 = None"
    using xs(2) by blast
  moreover from this(3) have "\<forall>e' \<in> set (map (gc_entry gc) bs). gencache_key_remove (fst e') g2 = None"
    by (simp only: set_map ball_simps)
  then have "\<forall>e' \<in> set es. gencache_key_remove (fst e') g2 = None" unfolding xs(3) .
  ultimately show ?thesis by blast
qed

theorem gencache_refresh_oldest_breaks_witness:
  "\<exists>gc :: (u64, string) gencache. gc_is (\<lambda>k. k) (=) 4 gc [(1, ''a'', 0), (2, ''b'', 0)] \<and>
     (\<exists>g1 g2 r. gencache_key_lookup_refresh 1 False gc = Some (g1, Some r) \<and>
       gencache_key_remove 1 g1 = Some (Return (g2, True)) \<and> gencache_key_remove 2 g2 = None)"
proof -
  obtain gc :: "(u64, string) gencache" where gc: "gencache_init 4 True True (=) (\<lambda>k. k) empty_heap = Some gc"
    using init_exists by blast
  have "gc_is (\<lambda>k. k) (=) (unat (4 :: u32)) gc []"
    by (rule hash_keys.init_is [OF word_keys gc heap_ok_empty empty_heap_objs]) simp_all
  moreover have "cache_run (=) (unat (4 :: u32)) [GC_Add False False (1 :: u64) ''a'', GC_Add False False 2 ''b''] [] =
      Some ([(1, ''a'', 0), (2, ''b'', 0)], [GC_Done True, GC_Done True])"
    by (simp add: cache_room_def)
  ultimately obtain g where g: "gc_is (\<lambda>k. k) (=) 4 g [(1, ''a'', 0), (2, ''b'', 0)]"
    using hash_keys.run_refines_cache [OF word_keys] by fastforce
  from gencache_refresh_oldest_breaks [OF word_keys g] show ?thesis using g by (auto simp: holders_def)
qed

end
