(* ===== verification/Codec.thy ===== *)
theory Codec
  imports Iofsl_Prelude
begin

text \<open>
  Encoders and decoders (\<open>src/encoder\<close>). An encoder appends the representation of a value to a stream, a
  decoder takes it off a stream; what the classes have in common is the set of overloads of
  \<open>process\<close> for the basic types and wrappers, here a record of functions each (signed numbers as the words with the same bits). \<open>None\<close> is an exception
  (the buffer is too small, a length does not fit). The contract between an encoder and a decoder is a
  locale: each basic value that was encoded is decoded to itself, whatever follows it. It is interpreted
  on the raw encoder \<open>encoder::none\<close>, which copies the bytes of the host representation.
\<close>

type_synonym byte = "8 word"
type_synonym u16 = "16 word"

text \<open>A C string is its characters before the terminating zero; \<open>EncString\<close> gives it a maximal length.\<close>

abbreviation c_string :: "byte list \<Rightarrow> bool" where
  "c_string s \<equiv> 0 \<notin> set s"

record 'w Encoder =
  e_uint8 :: "byte \<Rightarrow> 'w \<Rightarrow> 'w option"
  e_uint16 :: "u16 \<Rightarrow> 'w \<Rightarrow> 'w option"
  e_uint32 :: "u32 \<Rightarrow> 'w \<Rightarrow> 'w option"
  e_uint64 :: "u64 \<Rightarrow> 'w \<Rightarrow> 'w option"
  e_int32 :: "u32 \<Rightarrow> 'w \<Rightarrow> 'w option"
  e_enum :: "u32 \<Rightarrow> 'w \<Rightarrow> 'w option"
  e_opaque :: "byte list \<Rightarrow> 'w \<Rightarrow> 'w option"
  e_string :: "byte list \<Rightarrow> nat \<Rightarrow> 'w \<Rightarrow> 'w option"

record 'r Decoder =
  d_uint8 :: "'r \<Rightarrow> (byte \<times> 'r) option"
  d_uint16 :: "'r \<Rightarrow> (u16 \<times> 'r) option"
  d_uint32 :: "'r \<Rightarrow> (u32 \<times> 'r) option"
  d_uint64 :: "'r \<Rightarrow> (u64 \<times> 'r) option"
  d_int32 :: "'r \<Rightarrow> (u32 \<times> 'r) option"
  d_enum :: "'r \<Rightarrow> (u32 \<times> 'r) option"
  d_opaque :: "nat \<Rightarrow> 'r \<Rightarrow> (byte list \<times> 'r) option"
  d_string :: "nat \<Rightarrow> 'r \<Rightarrow> (byte list \<times> 'r) option"

subsection \<open>The contract\<close>

text \<open>
  \<open>w\<close> appends some bytes, and \<open>r\<close> takes them off and returns \<open>v\<close>. \<open>outp\<close> are the bytes written to a
  stream so far, \<open>inp\<close> the bytes still to be read from one that is in order.
\<close>

definition codes ::
  "('w \<Rightarrow> byte list) \<Rightarrow> ('r \<Rightarrow> byte list option) \<Rightarrow> ('w \<Rightarrow> 'w option) \<Rightarrow> ('r \<Rightarrow> ('v \<times> 'r) option) \<Rightarrow> 'v \<Rightarrow> bool" where
  "codes outp inp w r v \<longleftrightarrow> (\<forall>f f'. w f = Some f' \<longrightarrow>
     (\<exists>e. outp f' = outp f @ e \<and> (\<forall>g rest. inp g = Some (e @ rest) \<longrightarrow> (\<exists>g'. r g = Some (v, g') \<and> inp g' = Some rest))))"

named_theorems codes_intros \<open>composing the encoding and decoding of parts\<close>

lemma codes_bind [codes_intros]:
  assumes "codes outp inp w1 r1 a" "codes outp inp w2 (k a) v"
  shows "codes outp inp (\<lambda>f. Option.bind (w1 f) w2) (\<lambda>g. Option.bind (r1 g) (\<lambda>(x, g1). k x g1)) v"
  unfolding codes_def
proof (intro allI impI)
  fix f f' assume "Option.bind (w1 f) w2 = Some f'"
  then obtain f1 where f1: "w1 f = Some f1" "w2 f1 = Some f'" by (rule bind_eq_SomeE)
  obtain e1 where e1: "outp f1 = outp f @ e1"
    "\<And>g rest. inp g = Some (e1 @ rest) \<Longrightarrow> \<exists>g'. r1 g = Some (a, g') \<and> inp g' = Some rest"
    using assms(1) f1(1) unfolding codes_def by blast
  obtain e2 where e2: "outp f' = outp f1 @ e2"
    "\<And>g rest. inp g = Some (e2 @ rest) \<Longrightarrow> \<exists>g'. k a g = Some (v, g') \<and> inp g' = Some rest"
    using assms(2) f1(2) unfolding codes_def by blast
  show "\<exists>e. outp f' = outp f @ e \<and> (\<forall>g rest. inp g = Some (e @ rest) \<longrightarrow>
      (\<exists>g'. Option.bind (r1 g) (\<lambda>(x, g1). k x g1) = Some (v, g') \<and> inp g' = Some rest))"
  proof (intro exI [of _ "e1 @ e2"] conjI allI impI)
    show "outp f' = outp f @ e1 @ e2" using e1(1) e2(1) by simp
    fix g rest assume "inp g = Some ((e1 @ e2) @ rest)"
    then obtain g1 where g1: "r1 g = Some (a, g1)" "inp g1 = Some (e2 @ rest)" using e1(2) [of g "e2 @ rest"] by auto
    then show "\<exists>g'. Option.bind (r1 g) (\<lambda>(x, g1). k x g1) = Some (v, g') \<and> inp g' = Some rest" using e2(2) by simp
  qed
qed

lemma codes_last [codes_intros]:
  assumes "codes outp inp w r a"
  shows "codes outp inp w (\<lambda>g. Option.bind (r g) (\<lambda>(x, g1). Some (h x, g1))) (h a)"
  unfolding codes_def
proof (intro allI impI)
  fix f f' assume "w f = Some f'"
  then obtain e where e: "outp f' = outp f @ e"
    "\<And>g rest. inp g = Some (e @ rest) \<Longrightarrow> \<exists>g'. r g = Some (a, g') \<and> inp g' = Some rest"
    using assms unfolding codes_def by blast
  show "\<exists>e. outp f' = outp f @ e \<and> (\<forall>g rest. inp g = Some (e @ rest) \<longrightarrow>
      (\<exists>g'. Option.bind (r g) (\<lambda>(x, g1). Some (h x, g1)) = Some (h a, g') \<and> inp g' = Some rest))"
  proof (intro exI [of _ e] conjI allI impI e(1))
    fix g rest assume "inp g = Some (e @ rest)"
    then obtain g' where "r g = Some (a, g')" "inp g' = Some rest" using e(2) by blast
    then show "\<exists>g'. Option.bind (r g) (\<lambda>(x, g1). Some (h x, g1)) = Some (h a, g') \<and> inp g' = Some rest" by simp
  qed
qed

lemma codes_nil: "codes outp inp Some (\<lambda>g. Some (v, g)) v"
  unfolding codes_def by (intro allI impI exI [of _ "[]"]) auto

text \<open>From an empty stream: reading back all that was written gives the value and leaves nothing.\<close>

lemma codes_all:
  assumes "codes outp inp w r v" "w f = Some f'" "outp f = []" "inp g = Some (outp f')"
  shows "\<exists>g'. r g = Some (v, g') \<and> inp g' = Some []"
  using assms unfolding codes_def by fastforce

locale codec =
  fixes E :: "('w, 'e) Encoder_scheme" and D :: "('r, 'd) Decoder_scheme" and outp :: "'w \<Rightarrow> byte list" and inp :: "'r \<Rightarrow> byte list option"
  assumes uint8: "codes outp inp (e_uint8 E b) (d_uint8 D) b"
    and uint16: "codes outp inp (e_uint16 E h) (d_uint16 D) h"
    and uint32: "codes outp inp (e_uint32 E n) (d_uint32 D) n"
    and uint64: "codes outp inp (e_uint64 E l) (d_uint64 D) l"
    and int32: "codes outp inp (e_int32 E n) (d_int32 D) n"
    and enum: "codes outp inp (e_enum E n) (d_enum D) n"
    and opaque: "length bs < 2 ^ 32 \<Longrightarrow> codes outp inp (e_opaque E bs) (d_opaque D (length bs)) bs"
    and string: "c_string s \<Longrightarrow> length s \<le> m \<Longrightarrow> length s < 2 ^ 32 \<Longrightarrow> codes outp inp (e_string E s m) (d_string D m) s"

subsection \<open>Strings with a length, and arrays\<close>

text \<open>
  \<open>EncoderString\<close> (\<open>src/encoder/EncoderString.hh\<close>): any bytes, with their number in front, which must be
  within the bounds of the type. The decoder compares with the bounds as unsigned and signed 64-bit
  numbers, the encoder as signed 32-bit ones.
\<close>

definition w_EncoderString :: "('w, 'e) Encoder_scheme \<Rightarrow> nat \<Rightarrow> nat \<Rightarrow> byte list \<Rightarrow> 'w \<Rightarrow> 'w option" where
  "w_EncoderString E minsize maxsize s f = do {
     let len = (of_nat (length s) :: u32);
     assert_that (sint (of_nat minsize :: u32) \<le> sint len \<and> unat len \<le> maxsize);
     f1 \<leftarrow> e_uint32 E len f;
     e_opaque E (take (unat len) s) f1
   }"

definition r_EncoderString :: "('r, 'd) Decoder_scheme \<Rightarrow> nat \<Rightarrow> nat \<Rightarrow> 'r \<Rightarrow> (byte list \<times> 'r) option" where
  "r_EncoderString D minsize maxsize g = do {
     (len, g1) \<leftarrow> d_uint32 D g;
     assert_that (minsize \<le> unat len \<and> unat len \<le> maxsize);
     d_opaque D (unat len) g1
   }"

text \<open>The elements of an array, one after the other.\<close>

fun w_elems :: "('a \<Rightarrow> 'w \<Rightarrow> 'w option) \<Rightarrow> 'a list \<Rightarrow> 'w \<Rightarrow> 'w option" where
  "w_elems wr [] f = Some f"
| "w_elems wr (x # xs) f = do { f1 \<leftarrow> wr x f; w_elems wr xs f1 }"

fun r_elems :: "('r \<Rightarrow> ('a \<times> 'r) option) \<Rightarrow> nat \<Rightarrow> 'r \<Rightarrow> ('a list \<times> 'r) option" where
  "r_elems rd 0 g = Some ([], g)"
| "r_elems rd (Suc n) g = do { (x, g1) \<leftarrow> rd g; (xs, g2) \<leftarrow> r_elems rd n g1; Some (x # xs, g2) }"

text \<open>The array overloads of the raw encoder; the decoder refuses more elements than there is room for.\<close>

definition w_RawArray :: "('w, 'e) Encoder_scheme \<Rightarrow> ('a \<Rightarrow> 'w \<Rightarrow> 'w option) \<Rightarrow> 'a list \<Rightarrow> 'w \<Rightarrow> 'w option" where
  "w_RawArray E wr xs f = do {
     let n = (of_nat (length xs) :: u32);
     assert_that (unat n = length xs);
     f1 \<leftarrow> e_uint32 E n f;
     w_elems wr xs f1
   }"

definition r_RawArray :: "('r, 'd) Decoder_scheme \<Rightarrow> ('r \<Rightarrow> ('a \<times> 'r) option) \<Rightarrow> nat \<Rightarrow> 'r \<Rightarrow> ('a list \<times> 'r) option" where
  "r_RawArray D rd maxcount g = do {
     (n, g1) \<leftarrow> d_uint32 D g;
     assert_that (unat n \<le> maxcount);
     r_elems rd (unat n) g1
   }"

lemma codes_elems:
  assumes "\<And>x. x \<in> set xs \<Longrightarrow> codes outp inp (wr x) rd x"
  shows "codes outp inp (w_elems wr xs) (r_elems rd (length xs)) xs"
  using assms
proof (induction xs)
  case Nil
  have "w_elems wr [] = Some" by (simp add: fun_eq_iff)
  moreover have "r_elems rd (length []) = (\<lambda>g. Some ([], g))" by (simp add: fun_eq_iff)
  ultimately show ?case using codes_nil [of outp inp "[]"] by simp
next
  case (Cons x xs)
  have "codes outp inp (\<lambda>f. Option.bind (wr x f) (w_elems wr xs))
      (\<lambda>g. Option.bind (rd g) (\<lambda>(y, g1). Option.bind (r_elems rd (length xs) g1) (\<lambda>(ys, g2). Some (y # ys, g2)))) (x # xs)"
    using Cons by (intro codes_bind [where a = x] codes_last [where h = "(#) x"]) auto
  moreover have "w_elems wr (x # xs) = (\<lambda>f. Option.bind (wr x f) (w_elems wr xs))" by (simp add: fun_eq_iff)
  moreover have "r_elems rd (length (x # xs)) =
      (\<lambda>g. Option.bind (rd g) (\<lambda>(y, g1). Option.bind (r_elems rd (length xs) g1) (\<lambda>(ys, g2). Some (y # ys, g2))))"
    by (simp add: fun_eq_iff)
  ultimately show ?case by simp
qed

lemma sint_small: "n < 2 ^ 31 \<Longrightarrow> sint (of_nat n :: u32) = int n"
  by (simp add: signed_of_nat signed_take_bit_int_eq_self)

context codec
begin

lemma raw_array:
  assumes "\<And>x. x \<in> set xs \<Longrightarrow> codes outp inp (wr x) rd x" "outp f = []" "w_RawArray E wr xs f = Some f'" "inp g = Some (outp f')"
  shows "if length xs \<le> maxcount then \<exists>g'. r_RawArray D rd maxcount g = Some (xs, g') \<and> inp g' = Some []
    else r_RawArray D rd maxcount g = None"
proof -
  let ?n = "of_nat (length xs) :: u32"
  have n: "unat ?n = length xs" and w: "Option.bind (e_uint32 E ?n f) (w_elems wr xs) = Some f'"
    using assms(3) by (auto simp: w_RawArray_def Let_def elim!: fault_elims)
  have c: "codes outp inp (\<lambda>f. Option.bind (e_uint32 E ?n f) (w_elems wr xs))
      (\<lambda>g. Option.bind (d_uint32 D g) (\<lambda>(k, g1). Option.bind (r_elems rd (unat k) g1) (\<lambda>(ys, g2). Some ((k, ys), g2)))) (?n, xs)"
    by (rule codes_bind [OF uint32]) (use codes_last [OF codes_elems [OF assms(1)], where h = "Pair ?n"] n in simp)
  obtain g' where g': "Option.bind (d_uint32 D g) (\<lambda>(k, g1). Option.bind (r_elems rd (unat k) g1) (\<lambda>(ys, g2). Some ((k, ys), g2))) =
      Some ((?n, xs), g')" "inp g' = Some []"
    using codes_all [OF c w assms(2,4)] by blast
  then obtain g1 where "d_uint32 D g = Some (?n, g1)" "r_elems rd (unat ?n) g1 = Some (xs, g')" by (auto elim!: fault_elims)
  then show ?thesis using g'(2) n by (simp add: r_RawArray_def)
qed

lemmas prims = uint8 uint16 uint32 uint64 int32 enum opaque string

lemma encoder_string:
  assumes "length s < 2 ^ 31" "minsize < 2 ^ 31"
  shows "codes outp inp (w_EncoderString E minsize maxsize s) (r_EncoderString D minsize maxsize) s"
  unfolding codes_def
proof (intro allI impI)
  let ?len = "of_nat (length s) :: u32"
  have lt: "length s < 2 ^ 32" using assms(1) by simp
  have len: "unat ?len = length s" using assms(1) by (simp add: unat_of_nat take_bit_nat_eq_self)
  have both: "codes outp inp (\<lambda>f. Option.bind (e_uint32 E ?len f) (e_opaque E s))
      (\<lambda>g. Option.bind (d_uint32 D g) (\<lambda>(n, g1). d_opaque D (unat n) g1)) s"
    using opaque [OF lt] len by (intro codes_bind [where a = ?len] uint32) simp
  fix f f' assume w: "w_EncoderString E minsize maxsize s f = Some f'"
  then have ok: "minsize \<le> length s" "length s \<le> maxsize"
    and w2: "Option.bind (e_uint32 E ?len f) (e_opaque E s) = Some f'"
    using sint_small [OF assms(1)] sint_small [OF assms(2)] len by (auto simp: w_EncoderString_def Let_def elim!: fault_elims)
  obtain e where e: "outp f' = outp f @ e" "\<And>g rest. inp g = Some (e @ rest) \<Longrightarrow>
      \<exists>g'. Option.bind (d_uint32 D g) (\<lambda>(n, g1). d_opaque D (unat n) g1) = Some (s, g') \<and> inp g' = Some rest"
    using both w2 unfolding codes_def by blast
  obtain f1 e1 where f1: "outp f1 = outp f @ e1" "e_uint32 E ?len f = Some f1"
    and u: "\<And>g rest. inp g = Some (e1 @ rest) \<Longrightarrow> \<exists>g'. d_uint32 D g = Some (?len, g') \<and> inp g' = Some rest"
    using w2 uint32 [of ?len] unfolding codes_def by (elim fault_elims) blast
  have pre: "\<exists>e2. e = e1 @ e2"
  proof -
    have "e_opaque E s f1 = Some f'" using w2 f1(2) by simp
    then obtain e2 where "outp f' = outp f1 @ e2" using opaque [OF lt] unfolding codes_def by blast
    then show ?thesis using e(1) f1(1) by simp
  qed
  show "\<exists>e. outp f' = outp f @ e \<and> (\<forall>g rest. inp g = Some (e @ rest) \<longrightarrow>
      (\<exists>g'. r_EncoderString D minsize maxsize g = Some (s, g') \<and> inp g' = Some rest))"
  proof (intro exI [of _ e] conjI allI impI e(1))
    fix g rest assume g: "inp g = Some (e @ rest)"
    obtain g1 where g1: "d_uint32 D g = Some (?len, g1)" using u g pre by fastforce
    then show "\<exists>g'. r_EncoderString D minsize maxsize g = Some (s, g') \<and> inp g' = Some rest"
      using e(2) [OF g] ok len by (simp add: r_EncoderString_def)
  qed
qed

end

subsection \<open>Host representation\<close>

text \<open>The bytes of an integer of \<open>n\<close> bytes in memory, on a host of either byte order.\<close>

fun le_bytes :: "nat \<Rightarrow> int \<Rightarrow> byte list" where
  "le_bytes 0 v = []"
| "le_bytes (Suc n) v = word_of_int (v mod 256) # le_bytes n (v div 256)"

fun le_value :: "byte list \<Rightarrow> int" where
  "le_value [] = 0"
| "le_value (b # bs) = uint b + 256 * le_value bs"

definition host_bytes :: "bool \<Rightarrow> nat \<Rightarrow> int \<Rightarrow> byte list" where
  "host_bytes big n v = (if big then rev (le_bytes n v) else le_bytes n v)"

definition host_value :: "bool \<Rightarrow> byte list \<Rightarrow> int" where
  "host_value big bs = le_value (if big then rev bs else bs)"

lemma length_le_bytes [simp]: "length (le_bytes n v) = n"
  by (induction n arbitrary: v) auto

lemma le_value_bytes: "le_value (le_bytes n v) = v mod 256 ^ n"
proof (induction n arbitrary: v)
  case (Suc n)
  have "uint (word_of_int (v mod 256) :: byte) = v mod 256"
    by (simp add: uint_word_of_int)
  moreover have "v mod (256 * 256 ^ n) = 256 * (v div 256 mod 256 ^ n) + v mod 256"
    by (rule zmod_zmult2_eq) simp
  ultimately show ?case using Suc by simp
qed simp

lemma length_host_bytes [simp]: "length (host_bytes big n v) = n"
  by (simp add: host_bytes_def)

lemma host_value_bytes: "host_value big (host_bytes big n v) = v mod 256 ^ n"
  by (simp add: host_bytes_def host_value_def le_value_bytes)

subsection \<open>The raw encoder\<close>

text \<open>\<open>encoder::none::Writer\<close> and \<open>Reader\<close>: a buffer, its size and a position.\<close>

record Writer =
  nw_mem :: "byte list"
  nw_maxbytes :: nat
  nw_pos :: nat

definition new_Writer :: "byte list \<Rightarrow> nat \<Rightarrow> Writer" where
  "new_Writer mem maxmem = \<lparr>nw_mem = mem, nw_maxbytes = maxmem, nw_pos = 0\<rparr>"

definition nw_rewind :: "nat \<Rightarrow> Writer \<Rightarrow> Writer option" where
  "nw_rewind newpos f = do { assert_that (newpos < nw_maxbytes f); Some (f\<lparr>nw_pos := newpos\<rparr>) }"

definition nw_put :: "byte list \<Rightarrow> Writer \<Rightarrow> Writer option" where
  "nw_put bs f = do {
     assert_that (nw_pos f + length bs \<le> nw_maxbytes f);
     Some (f\<lparr>nw_mem := take (nw_pos f) (nw_mem f) @ bs @ drop (nw_pos f + length bs) (nw_mem f),
       nw_pos := nw_pos f + length bs\<rparr>)
   }"

record Reader =
  nr_mem :: "byte list"
  nr_maxbytes :: nat
  nr_pos :: nat

definition new_Reader :: "byte list \<Rightarrow> nat \<Rightarrow> Reader" where
  "new_Reader mem maxmem = \<lparr>nr_mem = mem, nr_maxbytes = maxmem, nr_pos = 0\<rparr>"

definition nr_rewind :: "nat \<Rightarrow> Reader \<Rightarrow> Reader option" where
  "nr_rewind newpos g = do { assert_that (newpos < nr_maxbytes g); Some (g\<lparr>nr_pos := newpos\<rparr>) }"

definition nr_get :: "nat \<Rightarrow> Reader \<Rightarrow> (byte list \<times> Reader) option" where
  "nr_get n g = do {
     assert_that (nr_pos g + n \<le> nr_maxbytes g);
     Some (take n (drop (nr_pos g) (nr_mem g)), g\<lparr>nr_pos := nr_pos g + n\<rparr>)
   }"

text \<open>The overloads of \<open>process\<close>; the simple types copy their host representation.\<close>

definition none_Encoder :: "bool \<Rightarrow> Writer Encoder" where
  "none_Encoder big =
     \<lparr>e_uint8 = (\<lambda>v. nw_put (host_bytes big 1 (uint v))),
      e_uint16 = (\<lambda>v. nw_put (host_bytes big 2 (uint v))),
      e_uint32 = (\<lambda>v. nw_put (host_bytes big 4 (uint v))),
      e_uint64 = (\<lambda>v. nw_put (host_bytes big 8 (uint v))),
      e_int32 = (\<lambda>v. nw_put (host_bytes big 4 (uint v))),
      e_enum = (\<lambda>v. nw_put (host_bytes big 4 (uint v))),
      e_opaque = nw_put,
      e_string = (\<lambda>s m f. do {
        let len = (of_nat (length s) :: u32);
        assert_that (unat len \<le> m);
        f1 \<leftarrow> nw_put (host_bytes big 4 (uint len)) f;
        nw_put (take (unat len) s) f1 })\<rparr>"

definition nr_simple :: "bool \<Rightarrow> nat \<Rightarrow> (int \<Rightarrow> 'a) \<Rightarrow> Reader \<Rightarrow> ('a \<times> Reader) option" where
  "nr_simple big n conv g = do { (bs, g1) \<leftarrow> nr_get n g; Some (conv (host_value big bs), g1) }"

definition none_Decoder :: "bool \<Rightarrow> Reader Decoder" where
  "none_Decoder big =
     \<lparr>d_uint8 = nr_simple big 1 word_of_int,
      d_uint16 = nr_simple big 2 word_of_int,
      d_uint32 = nr_simple big 4 word_of_int,
      d_uint64 = nr_simple big 8 word_of_int,
      d_int32 = nr_simple big 4 word_of_int,
      d_enum = nr_simple big 4 word_of_int,
      d_opaque = nr_get,
      d_string = (\<lambda>m g. do {
        (len, g1) \<leftarrow> nr_simple big 4 (\<lambda>v. word_of_int v :: u32) g;
        assert_that (unat len \<le> m);
        (bs, g2) \<leftarrow> nr_get (unat len) g1;
        Some (takeWhile (\<lambda>b. b \<noteq> 0) bs, g2) })\<rparr>"

definition nw_out :: "Writer \<Rightarrow> byte list" where
  "nw_out f = take (nw_pos f) (nw_mem f)"

definition nr_inp :: "Reader \<Rightarrow> byte list option" where
  "nr_inp g = (if nr_pos g \<le> nr_maxbytes g \<and> nr_maxbytes g \<le> length (nr_mem g)
     then Some (drop (nr_pos g) (take (nr_maxbytes g) (nr_mem g))) else None)"

lemma codes_put: "codes nw_out nr_inp (nw_put bs) (nr_get (length bs)) bs"
  unfolding codes_def
proof (intro allI impI)
  fix f f' assume "nw_put bs f = Some f'"
  then have f': "f' = f\<lparr>nw_mem := take (nw_pos f) (nw_mem f) @ bs @ drop (nw_pos f + length bs) (nw_mem f),
      nw_pos := nw_pos f + length bs\<rparr>"
    by (auto simp: nw_put_def elim!: fault_elims)
  show "\<exists>e. nw_out f' = nw_out f @ e \<and>
      (\<forall>g rest. nr_inp g = Some (e @ rest) \<longrightarrow> (\<exists>g'. nr_get (length bs) g = Some (bs, g') \<and> nr_inp g' = Some rest))"
  proof (intro exI [of _ bs] conjI allI impI)
    show "nw_out f' = nw_out f @ bs" by (auto simp: f' nw_out_def)
    fix g rest assume "nr_inp g = Some (bs @ rest)"
    then have g: "nr_pos g \<le> nr_maxbytes g" "nr_maxbytes g \<le> length (nr_mem g)"
      "drop (nr_pos g) (take (nr_maxbytes g) (nr_mem g)) = bs @ rest" by (auto simp: nr_inp_def split: if_splits)
    have len: "nr_pos g + length bs \<le> nr_maxbytes g" using arg_cong [OF g(3), of length] g(1,2) by simp
    have "take (length bs) (drop (nr_pos g) (nr_mem g)) = take (length bs) (drop (nr_pos g) (take (nr_maxbytes g) (nr_mem g)))"
      using len by (simp add: drop_take min_def)
    also have "\<dots> = bs" using g(3) by simp
    finally have b: "take (length bs) (drop (nr_pos g) (nr_mem g)) = bs" .
    have "drop (nr_pos g + length bs) (take (nr_maxbytes g) (nr_mem g)) = drop (length bs) (bs @ rest)"
      using arg_cong [OF g(3), of "drop (length bs)"] by (simp add: add.commute)
    then show "\<exists>g'. nr_get (length bs) g = Some (bs, g') \<and> nr_inp g' = Some rest"
      using len g(2) b by (simp add: nr_get_def nr_inp_def)
  qed
qed

lemma codes_simple:
  assumes "\<And>i. conv (i mod 256 ^ n) = conv i"
  shows "codes nw_out nr_inp (nw_put (host_bytes big n v)) (nr_simple big n conv) (conv v)"
proof -
  have "codes nw_out nr_inp (nw_put (host_bytes big n v))
      (\<lambda>g. Option.bind (nr_get n g) (\<lambda>(bs, g1). Some (conv (host_value big bs), g1))) (conv (host_value big (host_bytes big n v)))"
    using codes_put [of "host_bytes big n v"] by (intro codes_last [where h = "\<lambda>bs. conv (host_value big bs)"]) simp
  moreover have "nr_simple big n conv = (\<lambda>g. Option.bind (nr_get n g) (\<lambda>(bs, g1). Some (conv (host_value big bs), g1)))"
    by (simp add: nr_simple_def fun_eq_iff)
  ultimately show ?thesis using assms by (simp add: host_value_bytes)
qed

lemma word_of_int_bytes:
  assumes "(256 :: int) ^ n = 2 ^ LENGTH('a)"
  shows "(word_of_int (i mod 256 ^ n) :: 'a :: len word) = word_of_int i"
  by (simp add: assms word_of_int_eq_iff take_bit_eq_mod)

lemma codes_word:
  assumes "(256 :: int) ^ n = 2 ^ LENGTH('a)"
  shows "codes nw_out nr_inp (nw_put (host_bytes big n (uint v))) (nr_simple big n word_of_int) (v :: 'a :: len word)"
  using codes_simple [of "word_of_int :: int \<Rightarrow> 'a word" n big "uint v"] word_of_int_bytes [OF assms] by simp

lemma none_string:
  assumes "c_string s" "length s \<le> m" "length s < 2 ^ 32"
  shows "codes nw_out nr_inp (e_string (none_Encoder big) s m) (d_string (none_Decoder big) m) s"
proof -
  let ?len = "of_nat (length s) :: u32"
  have len: "unat ?len = length s" using assms(3) by (simp add: unat_of_nat take_bit_nat_eq_self)
  have s: "takeWhile (\<lambda>b. b \<noteq> 0) s = s" using assms(1) by (induction s) auto
  have l: "codes nw_out nr_inp (nw_put (host_bytes big 4 (uint ?len))) (nr_simple big 4 (\<lambda>v. word_of_int v :: u32)) ?len"
    using codes_word [of 4 big ?len] by simp
  have b: "codes nw_out nr_inp (nw_put s) (\<lambda>g. Option.bind (nr_get (length s) g) (\<lambda>(bs, g2). Some (takeWhile (\<lambda>b. b \<noteq> 0) bs, g2))) s"
    using codes_last [OF codes_put [of s], of "takeWhile (\<lambda>b. b \<noteq> 0)"] s by simp
  let ?k = "\<lambda>n g1. Option.bind (assert_that (unat n \<le> m)) (\<lambda>_. Option.bind (nr_get (unat n) g1)
      (\<lambda>(bs, g2). Some (takeWhile (\<lambda>b. b \<noteq> 0) bs, g2)))"
  have "codes nw_out nr_inp (\<lambda>f. Option.bind (nw_put (host_bytes big 4 (uint ?len)) f) (nw_put s))
      (\<lambda>g. Option.bind (nr_simple big 4 (\<lambda>v. word_of_int v :: u32) g) (\<lambda>(n, g1). ?k n g1)) s"
    by (rule codes_bind [OF l]) (use b len assms(2) in simp)
  moreover have "e_string (none_Encoder big) s m = (\<lambda>f. Option.bind (nw_put (host_bytes big 4 (uint ?len)) f) (nw_put s))"
    using len assms(2) by (simp add: none_Encoder_def Let_def)
  ultimately show ?thesis by (simp add: none_Decoder_def)
qed

interpretation raw: codec "none_Encoder big" "none_Decoder big" nw_out nr_inp for big
proof
  show "codes nw_out nr_inp (e_string (none_Encoder big) s m) (d_string (none_Decoder big) m) s"
    if "c_string s" "length s \<le> m" "length s < 2 ^ 32" for s m
    using that by (rule none_string)
qed (simp_all add: none_Encoder_def none_Decoder_def codes_word codes_put)

text \<open>A writer stays inside its buffer, and what it has written can be read.\<close>

definition nw_ok :: "Writer \<Rightarrow> bool" where
  "nw_ok f \<longleftrightarrow> nw_pos f \<le> nw_maxbytes f \<and> nw_maxbytes f = length (nw_mem f)"

lemma nw_put_ok: "nw_put bs f = Some f' \<Longrightarrow> nw_ok f \<Longrightarrow> nw_ok f'"
  by (auto simp: nw_put_def nw_ok_def elim!: fault_elims)

lemma read_what_was_written: "nw_ok f \<Longrightarrow> nr_inp (new_Reader (nw_mem f) (nw_pos f)) = Some (nw_out f)"
  by (simp add: nw_ok_def nr_inp_def new_Reader_def nw_out_def)

lemma nw_string_ok: "w_EncoderString (none_Encoder big) minsize maxsize s f = Some f' \<Longrightarrow> nw_ok f \<Longrightarrow> nw_ok f'"
  by (auto simp: w_EncoderString_def none_Encoder_def Let_def elim!: fault_elims intro: nw_put_ok)

text \<open>
  What the raw encoder writes the raw decoder reads: a length-bounded string written to a buffer and
  read back from it is the same string, nothing is left over, and the string obeys the bounds of its type.
\<close>

lemma encoder_string_roundtrip:
  assumes "length s < 2 ^ 31" "minsize < 2 ^ 31"
    "w_EncoderString (none_Encoder big) minsize maxsize s (new_Writer mem (length mem)) = Some f"
  shows "minsize \<le> length s \<and> length s \<le> maxsize \<and>
    (\<exists>g. r_EncoderString (none_Decoder big) minsize maxsize (new_Reader (nw_mem f) (nw_pos f)) = Some (s, g) \<and> nr_inp g = Some [])"
proof -
  have len: "unat (of_nat (length s) :: u32) = length s" using assms(1) by (simp add: unat_of_nat take_bit_nat_eq_self)
  have ok: "nw_ok f" using nw_string_ok [OF assms(3)] by (simp add: nw_ok_def new_Writer_def)
  have "nw_out (new_Writer mem (length mem)) = []" by (simp add: nw_out_def new_Writer_def)
  then obtain g where g: "r_EncoderString (none_Decoder big) minsize maxsize (new_Reader (nw_mem f) (nw_pos f)) = Some (s, g)"
    "nr_inp g = Some []"
    using codes_all [OF raw.encoder_string [OF assms(1,2)] assms(3) _ read_what_was_written [OF ok]] by blast
  have "minsize \<le> length s \<and> length s \<le> maxsize"
    using assms(3) len sint_small [OF assms(1)] sint_small [OF assms(2)]
    by (auto simp: w_EncoderString_def Let_def elim!: fault_elims)
  then show ?thesis using g by auto
qed

lemma encoder_string_roundtrip_witness:
  "\<exists>f g. w_EncoderString (none_Encoder True) 1 5 [104, 105] (new_Writer (replicate 8 0) (length (replicate 8 (0 :: byte)))) = Some f \<and>
    r_EncoderString (none_Decoder True) 1 5 (new_Reader (nw_mem f) (nw_pos f)) = Some ([104, 105], g) \<and>
    nw_mem f = [0, 0, 0, 2, 104, 105, 0, 0]"
proof -
  have "map_option nw_mem (w_EncoderString (none_Encoder True) 1 5 [104, 105] (new_Writer (replicate 8 0) (length (replicate 8 (0 :: byte))))) =
      Some [0, 0, 0, 2, 104, 105, 0, 0]" by code_simp
  then obtain f where f: "w_EncoderString (none_Encoder True) 1 5 [104, 105] (new_Writer (replicate 8 0) (length (replicate 8 (0 :: byte)))) = Some f"
    "nw_mem f = [0, 0, 0, 2, 104, 105, 0, 0]" by auto
  then show ?thesis using encoder_string_roundtrip [OF _ _ f(1)] by auto
qed

text \<open>
  An array written by the raw encoder is read back element by element by a decoder that has room for
  it, and refused by one that has not, for elements of any type that round-trips.
\<close>

lemma raw_array_roundtrip:
  assumes "\<And>x. x \<in> set xs \<Longrightarrow> codes nw_out nr_inp (wr x) rd x"
    "w_RawArray (none_Encoder big) wr xs f = Some f'" "nw_pos f = 0" "nw_ok f'"
  shows "if length xs \<le> maxcount
    then \<exists>g. r_RawArray (none_Decoder big) rd maxcount (new_Reader (nw_mem f') (nw_pos f')) = Some (xs, g) \<and> nr_inp g = Some []
    else r_RawArray (none_Decoder big) rd maxcount (new_Reader (nw_mem f') (nw_pos f')) = None"
  by (rule raw.raw_array [OF assms(1) _ assms(2) read_what_was_written [OF assms(4)]]) (simp_all add: nw_out_def assms(3))

lemma raw_array_roundtrip_witness:
  "\<exists>f. w_RawArray (none_Encoder False) (e_uint16 (none_Encoder False)) [1, 515] (new_Writer (replicate 9 0) 9) = Some f \<and>
    nw_mem f = [2, 0, 0, 0, 1, 0, 3, 2, 0] \<and>
    (\<exists>g. r_RawArray (none_Decoder False) (d_uint16 (none_Decoder False)) 2 (new_Reader (nw_mem f) (nw_pos f)) = Some ([1, 515], g)) \<and>
    r_RawArray (none_Decoder False) (d_uint16 (none_Decoder False)) 1 (new_Reader (nw_mem f) (nw_pos f)) = None"
proof -
  let ?w = "w_RawArray (none_Encoder False) (e_uint16 (none_Encoder False)) [1, 515] (new_Writer (replicate 9 0) 9)"
  have "map_option (\<lambda>f. (nw_mem f, nw_ok f)) ?w = Some ([2, 0, 0, 0, 1, 0, 3, 2, 0], True)" by code_simp
  then obtain f where f: "?w = Some f" "nw_mem f = [2, 0, 0, 0, 1, 0, 3, 2, 0]" "nw_ok f" by auto
  have "nw_pos (new_Writer (replicate 9 0) 9) = 0" by (simp add: new_Writer_def)
  note rt = raw_array_roundtrip [OF raw.uint16 f(1) this f(3)]
  show ?thesis using rt [of 2] rt [of 1] f(1,2) by auto
qed

end
