(* ===== verification/Posix_Caches.thy ===== *)
theory Posix_Caches
  imports Gencache Codec
begin

text \<open>
  The two caches of the POSIX dispatcher, clients of the general cache: the file name cache
  (\<open>src/zoidfs/dispatcher/posix/fcache.c\<close>) maps handles to path names, the descriptor cache
  (\<open>src/zoidfs/dispatcher/posix/dcache.c\<close>) maps handles to open file descriptors. A handle is an array of
  32 bytes. Their key functions meet the contract of the hash table, which is what carries the refinement
  of the general cache over to them. \<open>big\<close> says whether the host is big-endian. The lock of the descriptor
  cache is held during each of its operations but the release of a descriptor.
\<close>

type_synonym handle = "byte list"

subsection \<open>Keys\<close>

definition handle_data :: "handle \<Rightarrow> byte list" where
  "handle_data h = take 32 h"

text \<open>\<open>memcmp\<close> on the 32 bytes.\<close>

definition filename_gencache_key_compare :: "handle \<Rightarrow> handle \<Rightarrow> bool" where
  "filename_gencache_key_compare i1 i2 \<longleftrightarrow> handle_data i1 = handle_data i2"

fun xor_loop :: "byte list \<Rightarrow> nat \<Rightarrow> byte list \<Rightarrow> byte list" where
  "xor_loop [] pos init = init"
| "xor_loop (b # bs) pos init =
     (let init1 = init[pos := xor (init ! pos) b]; pos1 = pos + 1
      in xor_loop bs (if pos1 = 8 then 0 else pos1) init1)"

definition filename_gencache_key_hash :: "bool \<Rightarrow> handle \<Rightarrow> u64" where
  "filename_gencache_key_hash big key = word_of_int (host_value big (xor_loop (handle_data key) 0 (replicate 8 0)))"

definition dcache_key_compare :: "handle \<Rightarrow> handle \<Rightarrow> bool" where
  "dcache_key_compare i1 i2 \<longleftrightarrow> handle_data i1 = handle_data i2"

text \<open>The array is read as eight \<open>int\<close>s, which are converted to \<open>unsigned long\<close> with their sign.\<close>

fun xor_ints :: "bool \<Rightarrow> nat \<Rightarrow> byte list \<Rightarrow> u64 \<Rightarrow> u64" where
  "xor_ints big 0 bs init = init"
| "xor_ints big (Suc n) bs init =
     xor_ints big n (drop 4 bs) (xor init (signed (word_of_int (host_value big (take 4 bs)) :: u32)))"

definition dcache_key_hash :: "bool \<Rightarrow> handle \<Rightarrow> u64" where
  "dcache_key_hash big key = xor_ints big 8 (handle_data key) 66"

interpretation fname: hash_keys "filename_gencache_key_hash big" filename_gencache_key_compare for big
  by unfold_locales (auto simp: filename_gencache_key_compare_def filename_gencache_key_hash_def)

interpretation dfd: hash_keys "dcache_key_hash big" dcache_key_compare for big
  by unfold_locales (auto simp: dcache_key_compare_def dcache_key_hash_def)

subsection \<open>The file name cache\<close>

type_synonym fcache = "(handle, byte list) gencache"

definition filename_create :: "bool \<Rightarrow> int \<Rightarrow> (handle, byte list) priv_value heap \<Rightarrow> fcache option" where
  "filename_create big cachesize hp =
     gencache_init (word_of_int cachesize) True True filename_gencache_key_compare (filename_gencache_key_hash big) hp"

definition filename_destroy :: "fcache \<Rightarrow> (handle + byte list) list option" where
  "filename_destroy fh = gencache_done fh"

text \<open>
  \<open>strncpy (buf, data, n - 1)\<close> and the terminating zero: the contents of a buffer of \<open>n\<close> bytes afterwards. The
  name is held while it is copied.
\<close>

definition strncpy_buf :: "byte list \<Rightarrow> nat \<Rightarrow> byte list" where
  "strncpy_buf name n = take (n - 1) (name @ replicate (n - 1) 0) @ [0]"

definition filename_lookup :: "handle \<Rightarrow> nat \<Rightarrow> fcache \<Rightarrow> (fcache \<times> byte list option) option" where
  "filename_lookup h bufsize fh = do {
     (fh1, r) \<leftarrow> gencache_key_lookup h True fh;
     (case r of
        None \<Rightarrow> Some (fh1, None)
      | Some (name, lock) \<Rightarrow> do {
          assert_that (bufsize > 0);
          fh2 \<leftarrow> gencache_key_unlock lock fh1;
          Some (fh2, Some (strncpy_buf name bufsize))
        })
   }"

text \<open>The result says whether the name was added; otherwise the copies are freed again.\<close>

definition filename_add :: "bool \<Rightarrow> handle \<Rightarrow> byte list \<Rightarrow> fcache \<Rightarrow> (fcache \<times> bool) wait option" where
  "filename_add ok h name fh = do {
     r \<leftarrow> gencache_key_add ok True False (handle_data h) name fh;
     Some (case r of Sleep \<Rightarrow> Sleep | Return (fh1, item) \<Rightarrow> Return (fh1, item \<noteq> None))
   }"

definition filename_remove :: "handle \<Rightarrow> fcache \<Rightarrow> (fcache \<times> bool) wait option" where
  "filename_remove h fh = gencache_key_remove h fh"

subsection \<open>The descriptor cache\<close>

type_synonym dcache = "(handle, int) gencache"

record Descriptor =
  ds_fd :: int
  ds_lock :: addr
  ds_handle :: "handle option"

definition dcache_create :: "bool \<Rightarrow> int \<Rightarrow> (handle, int) priv_value heap \<Rightarrow> dcache option" where
  "dcache_create big cachesize hp =
     gencache_init (word_of_int cachesize) True True dcache_key_compare (dcache_key_hash big) hp"

text \<open>The descriptors that are closed.\<close>

definition dcache_destroy :: "dcache \<Rightarrow> (handle + int) list option" where
  "dcache_destroy h = gencache_done h"

definition dcache_getfd_helper :: "handle \<Rightarrow> dcache \<Rightarrow> (dcache \<times> Descriptor option) option" where
  "dcache_getfd_helper handle h = do {
     (h1, r) \<leftarrow> gencache_key_lookup handle True h;
     Some (h1, map_option (\<lambda>(fd, lock). \<lparr>ds_fd = fd, ds_lock = lock, ds_handle = None\<rparr>) r)
   }"

definition dcache_getfd :: "handle \<Rightarrow> dcache \<Rightarrow> (dcache \<times> Descriptor option) option" where
  "dcache_getfd handle h = dcache_getfd_helper handle h"

definition dcache_releasefd :: "Descriptor \<Rightarrow> dcache \<Rightarrow> dcache option" where
  "dcache_releasefd dest h = gencache_key_unlock (ds_lock dest) h"

definition dcache_removefd :: "handle \<Rightarrow> dcache \<Rightarrow> (dcache \<times> bool) wait option" where
  "dcache_removefd handle h = gencache_key_remove handle h"

text \<open>The result is the descriptor, and whether it is the new one.\<close>

definition dcache_addfd :: "bool \<Rightarrow> handle \<Rightarrow> int \<Rightarrow> dcache \<Rightarrow> (dcache \<times> Descriptor \<times> bool) wait option" where
  "dcache_addfd ok handle fd h = do {
     (h1, d) \<leftarrow> dcache_getfd_helper handle h;
     (case d of
        Some dest \<Rightarrow> Some (Return (h1, dest, False))
      | None \<Rightarrow> do {
          r \<leftarrow> gencache_key_add ok False True (handle_data handle) fd h1;
          (case r of
             Sleep \<Rightarrow> Some Sleep
           | Return (h2, item) \<Rightarrow> do {
               lock \<leftarrow> item;
               Some (Return (h2, \<lparr>ds_fd = fd, ds_lock = lock, ds_handle = Some handle\<rparr>, True))
             })
        })
   }"

subsection \<open>Names are found again\<close>

abbreviation fcache_is :: "bool \<Rightarrow> nat \<Rightarrow> fcache \<Rightarrow> (handle, byte list) entry list \<Rightarrow> bool" where
  "fcache_is big \<equiv> gc_is (filename_gencache_key_hash big) filename_gencache_key_compare"

abbreviation dcache_is :: "bool \<Rightarrow> nat \<Rightarrow> dcache \<Rightarrow> (handle, int) entry list \<Rightarrow> bool" where
  "dcache_is big \<equiv> gc_is (dcache_key_hash big) dcache_key_compare"

lemma split_at_last:
  assumes "\<forall>x \<in> set xs. \<not> p x" "p y"
  shows "split_at p (xs @ [y]) = Some (xs, y, [])"
  using assms by (induction xs) auto

lemma handle_data_idem [simp]: "handle_data (handle_data h) = handle_data h"
  by (simp add: handle_data_def)

text \<open>The item a lookup returns is the one the hash table has, and holding it leaves the table as it is.\<close>

lemma lookup_item:
  assumes "gencache_key_lookup k lock gc = Some (g1, Some (v, a))"
  shows "gencache_lookup_internal k g1 = Some (Some a)"
proof -
  obtain x where x: "gencache_lookup_internal k gc = Some (Some a)" "gc_read gc a = Some x"
    "(if lock then gc_lock_item a gc else Some gc) = Some g1"
    using assms by (auto simp: gencache_key_lookup_def gencache_key_lookup_helper_def elim!: fault_elims split: option.splits)
  have "gc_hash g1 = gc_hash gc"
    using x(2,3) by (auto simp: gc_lock_item_def gc_update_eq gc_read_eq split: if_splits elim!: fault_elims)
  then show ?thesis using x(1) by (simp add: gencache_lookup_internal_def)
qed

lemma lookup_miss:
  assumes "gencache_key_lookup k lock gc = Some (g1, None)"
  shows "g1 = gc"
  using assms by (auto simp: gencache_key_lookup_def gencache_key_lookup_helper_def elim!: fault_elims split: option.splits if_splits)

context hash_keys
begin

lemma cache_add:
  assumes "gc_is hash equal cap gc es" "\<forall>e \<in> set es. \<not> equal k (fst e)" "cache_room cap es = Some fs"
  shows "\<exists>g a. gencache_key_add True dupok lock k v gc = Some (Return (g, Some a)) \<and>
    gc_is hash equal cap g (fs @ [(k, v, if lock then 1 else 0)])"
proof -
  have "cache_step equal cap (GC_Add dupok lock k v) es = Some (fs @ [(k, v, if lock then 1 else 0)], GC_Done True)"
    using assms(2,3) by auto
  from add_refines [OF assms(1) this] obtain g where
    g: "gc_step (GC_Add dupok lock k v) gc = Some (g, GC_Done True)" "gc_is hash equal cap g (fs @ [(k, v, if lock then 1 else 0)])"
    by blast
  then obtain a where "gencache_key_add True dupok lock k v gc = Some (Return (g, Some a))"
    by (auto simp: gc_woken_def elim!: fault_elims split: wait.splits prod.splits)
  then show ?thesis using g(2) by blast
qed

lemma cache_add_sleeps:
  assumes "gc_is hash equal cap gc es" "\<forall>e \<in> set es. \<not> equal k (fst e)" "cache_room cap es = None"
  shows "gencache_key_add True dupok lock k v gc = Some Sleep"
proof -
  have "cache_step equal cap (GC_Add dupok lock k v) es = Some (es, GC_Slept)" using assms(2,3) by auto
  from add_refines [OF assms(1) this] show ?thesis
    by (auto simp: gc_woken_def elim!: fault_elims split: wait.splits prod.splits)
qed

lemma cache_get:
  assumes "gc_is hash equal cap gc es" "split_at (\<lambda>e. equal k (fst e)) es = Some (us, e, vs)" "holders e < 2147483647"
  shows "\<exists>g a. gencache_key_lookup k True gc = Some (g, Some (fst (snd e), a)) \<and>
    gc_is hash equal cap g (us @ (fst e, fst (snd e), holders e + 1) # vs)"
proof -
  have "cache_step equal cap (if False then GC_Refresh True k else GC_Lookup True k) es =
      Some (us @ (fst e, fst (snd e), holders e + 1) # vs, GC_Value (Some (fst (snd e))))"
    using assms(2,3) by (simp add: hold_def)
  from lookup_refines [OF assms(1) this] obtain g v where
    g: "gencache_key_lookup_helper k True False gc = Some (g, v)" "Some (fst (snd e)) = map_option fst v"
    "gc_is hash equal cap g (us @ (fst e, fst (snd e), holders e + 1) # vs)" by auto
  then obtain a where "v = Some (fst (snd e), a)" by (cases v) auto
  then show ?thesis using g by (auto simp: gencache_key_lookup_def)
qed

lemma cache_get_none:
  assumes "gc_is hash equal cap gc es" "\<forall>e \<in> set es. \<not> equal k (fst e)"
  shows "gencache_key_lookup k True gc = Some (gc, None)"
proof -
  have "cache_step equal cap (if False then GC_Refresh True k else GC_Lookup True k) es = Some (es, GC_Value None)"
  proof -
    have "split_at (\<lambda>e. equal k (fst e)) es = None" using assms(2) unfolding split_at_None by blast
    then show ?thesis by simp
  qed
  from lookup_refines [OF assms(1) this] obtain g v where
    "gencache_key_lookup_helper k True False gc = Some (g, v)" "map_option fst v = None" by auto
  then have "gencache_key_lookup k True gc = Some (g, None)" by (simp add: gencache_key_lookup_def)
  then show ?thesis using lookup_miss by fastforce
qed

text \<open>Holding an entry and giving it up again.\<close>

lemma cache_get_unlock:
  assumes "gc_is hash equal cap gc es" "split_at (\<lambda>e. equal k (fst e)) es = Some (us, e, vs)" "0 \<le> holders e" "holders e < 2147483647"
  shows "\<exists>g1 g2 a. gencache_key_lookup k True gc = Some (g1, Some (fst (snd e), a)) \<and>
    gencache_key_unlock a g1 = Some g2 \<and> gc_is hash equal cap g2 es"
proof -
  let ?e = "(fst e, fst (snd e), holders e + 1)"
  obtain g1 a where g1: "gencache_key_lookup k True gc = Some (g1, Some (fst (snd e), a))" "gc_is hash equal cap g1 (us @ ?e # vs)"
    using cache_get [OF assms(1,2,4)] by blast
  note s = split_at_Some [OF assms(2)]
  have "split_at (\<lambda>e. equal k (fst e)) (us @ ?e # vs) = Some (us, ?e, vs)"
    using s by (induction us arbitrary: es) auto
  moreover have "holders ?e \<noteq> 0" "holders ?e - 1 = holders e" using assms(3) by (simp_all add: holders_def)
  ultimately have "cache_step equal cap (GC_Unlock k) (us @ ?e # vs) = Some (us @ (fst e, fst (snd e), holders e) # vs, GC_Done True)"
    by simp
  moreover have "us @ (fst e, fst (snd e), holders e) # vs = es" using s by (simp add: holders_def)
  ultimately obtain g2 where g2: "gc_step (GC_Unlock k) g1 = Some (g2, GC_Done True)" "gc_is hash equal cap g2 es"
    using unlock_refines [OF g1(2)] by force
  have "gencache_key_unlock a g1 = Some g2" using g2(1) lookup_item [OF g1(1)] by (auto elim!: fault_elims)
  then show ?thesis using g1(1) g2(2) by blast
qed

end


lemma filename_create_is:
  assumes "heap_ok hp" "hp_objs hp = Map.empty" "0 < (word_of_int n :: u32)" "(word_of_int n :: u32) < 536870914"
  shows "\<exists>fh. filename_create big n hp = Some fh \<and> fcache_is big (unat (word_of_int n :: u32)) fh []"
  using init_exists [of "word_of_int n" True True filename_gencache_key_compare "filename_gencache_key_hash big" hp]
    fname.init_is [OF _ assms, of True True] by (auto simp: filename_create_def)

lemma dcache_create_is:
  assumes "heap_ok hp" "hp_objs hp = Map.empty" "0 < (word_of_int n :: u32)" "(word_of_int n :: u32) < 536870914"
  shows "\<exists>h. dcache_create big n hp = Some h \<and> dcache_is big (unat (word_of_int n :: u32)) h []"
  using init_exists [of "word_of_int n" True True dcache_key_compare "dcache_key_hash big" hp]
    dfd.init_is [OF _ assms, of True True] by (auto simp: dcache_create_def)


text \<open>
  (C27) Adding a descriptor never meets the duplicate-key assertion of the general cache: a handle that is
  present is checked out with the descriptor the cache has, a new one is added and held, and the call sleeps
  exactly when the cache is full and every entry is held.
\<close>

theorem dcache_addfd_ok:
  assumes "dcache_is big cap h es" "\<forall>e \<in> set es. holders e < 2147483647"
  shows "case split_at (\<lambda>e. dcache_key_compare k (fst e)) es of
      Some (us, e, vs) \<Rightarrow> \<exists>h1 d. dcache_addfd True k fd h = Some (Return (h1, d, False)) \<and> ds_fd d = fst (snd e) \<and>
        dcache_is big cap h1 (us @ (fst e, fst (snd e), holders e + 1) # vs)
    | None \<Rightarrow> (case cache_room cap es of
        None \<Rightarrow> dcache_addfd True k fd h = Some Sleep
      | Some fs \<Rightarrow> \<exists>h1 d. dcache_addfd True k fd h = Some (Return (h1, d, True)) \<and> ds_fd d = fd \<and>
          dcache_is big cap h1 (fs @ [(handle_data k, fd, 1)]))"
proof (cases "split_at (\<lambda>e. dcache_key_compare k (fst e)) es")
  case (Some r)
  obtain us e vs where r: "r = (us, e, vs)" by (cases r)
  have s: "split_at (\<lambda>e. dcache_key_compare k (fst e)) es = Some (us, e, vs)" using Some r by simp
  have "e \<in> set es" using split_at_Some [OF s] by simp
  then have "holders e < 2147483647" using assms(2) by blast
  from dfd.cache_get [OF assms(1) s this] obtain g a where
    "gencache_key_lookup k True h = Some (g, Some (fst (snd e), a))"
    "dcache_is big cap g (us @ (fst e, fst (snd e), holders e + 1) # vs)" by blast
  then show ?thesis using Some r by (simp add: dcache_addfd_def dcache_getfd_helper_def)
next
  case None
  then have no: "\<forall>e \<in> set es. \<not> dcache_key_compare k (fst e)" unfolding split_at_None .
  then have no': "\<forall>e \<in> set es. \<not> dcache_key_compare (handle_data k) (fst e)" by (simp add: dcache_key_compare_def)
  have g: "gencache_key_lookup k True h = Some (h, None)" by (rule dfd.cache_get_none [OF assms(1) no])
  show ?thesis
  proof (cases "cache_room cap es")
    case room: None
    then show ?thesis using None g dfd.cache_add_sleeps [OF assms(1) no' room, of False True fd]
      by (simp add: dcache_addfd_def dcache_getfd_helper_def)
  next
    case (Some fs)
    from dfd.cache_add [OF assms(1) no' Some, of False True fd] obtain g1 a where
      "gencache_key_add True False True (handle_data k) fd h = Some (Return (g1, Some a))"
      "dcache_is big cap g1 (fs @ [(handle_data k, fd, 1)])" by auto
    then show ?thesis using None Some g by (simp add: dcache_addfd_def dcache_getfd_helper_def)
  qed
qed

theorem dcache_addfd_ok_witness:
  "\<exists>h h1 d. dcache_create True 1 empty_heap = Some h \<and> dcache_addfd True (replicate 32 7) 5 h = Some (Return (h1, d, True)) \<and>
     ds_fd d = 5 \<and> dcache_is True 1 h1 [(replicate 32 7, 5, 1)]"
proof -
  have "\<exists>h. dcache_create True 1 empty_heap = Some h \<and> dcache_is True (unat (word_of_int 1 :: u32)) h []"
    by (rule dcache_create_is [OF heap_ok_empty empty_heap_objs]) simp_all
  then obtain h where h: "dcache_create True 1 empty_heap = Some h" "dcache_is True 1 h []" by auto
  from dcache_addfd_ok [OF h(2), of "replicate 32 7" 5]
  show ?thesis using h(1) by (simp add: cache_room_def handle_data_def)
qed

end
