(* ===== verification/Xdr.thy ===== *)
theory Xdr
  imports Codec
begin

text \<open>
  The XDR encoding of the ZoidFS protocol, in its two implementations: the server's templates
  (\<open>src/encoder/xdr\<close>, \<open>src/zoidfs/util/zoidfs-xdr.hh\<close>, \<open>src/zoidfs/util/FileSpecHelper.hh\<close>) and the
  client's C routines (\<open>src/zoidfs/client/zoidfs_xdr.c\<close>). The primitives \<open>xdr_uint32_t\<close>, \<open>xdr_opaque\<close>,
  \<open>xdr_string\<close>, ... are those of the system's XDR library: they are a parameter here, a record of
  functions on streams, with what the XDR standard (RFC 4506) says about them as a locale. The locale is
  interpreted on a memory stream that follows the standard.
\<close>

subsection \<open>The XDR library\<close>

record 'x xdr_enc = "'x Encoder" +
  e_u_int :: "u32 \<Rightarrow> 'x \<Rightarrow> 'x option"

record 'x xdr_dec = "'x Decoder" +
  d_u_int :: "'x \<Rightarrow> (u32 \<times> 'x) option"

definition roundup4 :: "nat \<Rightarrow> nat" where
  "roundup4 n = (n + 3) div 4 * 4"

text \<open>\<open>w\<close> writes \<open>n\<close> bytes, and fails exactly when there is no room for them.\<close>

definition puts :: "('x \<Rightarrow> byte list) \<Rightarrow> ('x \<Rightarrow> nat) \<Rightarrow> nat \<Rightarrow> ('x \<Rightarrow> 'x option) \<Rightarrow> bool" where
  "puts outp room n w \<longleftrightarrow> (\<forall>f. if n \<le> room f
     then \<exists>f'. w f = Some f' \<and> room f' = room f - n \<and> length (outp f') = length (outp f) + n else w f = None)"

text \<open>
  What the standard and the manual page of the library promise. Every item takes a multiple of four
  bytes, numbers of up to 32 bits four and of 64 bits eight; opaque data is padded; a string is its
  length and its padded characters, and neither written nor read when it is longer than the given
  maximum. An enumeration is represented as an \<open>int\<close>.
\<close>

locale xdr_library = codec E D outp inp
  for E :: "'w xdr_enc" and D :: "'r xdr_dec" and outp :: "'w \<Rightarrow> byte list" and inp :: "'r \<Rightarrow> byte list option" +
  fixes room :: "'w \<Rightarrow> nat"
  assumes put_uint8: "puts outp room 4 (e_uint8 E b)"
    and put_uint16: "puts outp room 4 (e_uint16 E h)"
    and put_uint32: "puts outp room 4 (e_uint32 E n)"
    and put_uint64: "puts outp room 8 (e_uint64 E l)"
    and put_int32: "puts outp room 4 (e_int32 E n)"
    and put_enum: "puts outp room 4 (e_enum E n)"
    and put_opaque: "length bs < 2 ^ 32 \<Longrightarrow> puts outp room (roundup4 (length bs)) (e_opaque E bs)"
    and put_string: "length s \<le> m \<Longrightarrow> length s < 2 ^ 32 \<Longrightarrow> puts outp room (4 + roundup4 (length s)) (e_string E s m)"
    and string_max: "m < length s \<Longrightarrow> e_string E s m f = None"
    and u_int: "e_u_int E n = e_enum E n" "d_u_int D = d_enum D"
    and get_opaque: "d_opaque D k g = Some (bs, g') \<Longrightarrow> length bs = k"
    and get_string: "d_string D m g = Some (s, g') \<Longrightarrow> length s \<le> m \<and> c_string s"

subsection \<open>The reader, the writer and the size processor\<close>

text \<open>
  \<open>XDRWriter\<close> and \<open>XDRReader\<close>: the overloads of \<open>process\<close> call the library, and \<open>check\<close> turns its failure
  into an exception.
\<close>

definition XDRWriter :: "'w xdr_enc \<Rightarrow> 'w Encoder" where
  "XDRWriter E =
     \<lparr>e_uint8 = e_uint8 E, e_uint16 = e_uint16 E, e_uint32 = e_uint32 E, e_uint64 = e_uint64 E, e_int32 = e_int32 E,
      e_enum = e_enum E, e_opaque = e_opaque E, e_string = e_string E\<rparr>"

definition XDRReader :: "'r xdr_dec \<Rightarrow> 'r Decoder" where
  "XDRReader D =
     \<lparr>d_uint8 = d_uint8 D, d_uint16 = d_uint16 D, d_uint32 = d_uint32 D, d_uint64 = d_uint64 D, d_int32 = d_int32 D,
      d_enum = d_enum D, d_opaque = d_opaque D, d_string = d_string D\<rparr>"

text \<open>The array overloads. The writer compares the number of elements with the room, the reader does not.\<close>

definition w_VarArray :: "('w, 'e) Encoder_scheme \<Rightarrow> ('a \<Rightarrow> 'w \<Rightarrow> 'w option) \<Rightarrow> 'a list \<Rightarrow> nat \<Rightarrow> 'w \<Rightarrow> 'w option" where
  "w_VarArray E wr xs maxcount f = do {
     let count = (of_nat (length xs) :: u32);
     f1 \<leftarrow> e_uint32 E count f;
     assert_that (unat count \<le> maxcount);
     w_elems wr (take (unat count) xs) f1
   }"

definition r_VarArray :: "('r, 'd) Decoder_scheme \<Rightarrow> ('r \<Rightarrow> ('a \<times> 'r) option) \<Rightarrow> 'r \<Rightarrow> ('a list \<times> 'r) option" where
  "r_VarArray D rd g = do { (count, g1) \<leftarrow> d_uint32 D g; r_elems rd (unat count) g1 }"

text \<open>\<open>Size\<close> (\<open>src/encoder/Size.hh\<close>): the size of a value and the maximum for values of its type.\<close>

record Size =
  sz_actual_valid :: bool
  sz_actual :: nat
  sz_max :: nat

definition new_Size :: Size where
  "new_Size = \<lparr>sz_actual_valid = True, sz_actual = 0, sz_max = 0\<rparr>"

definition incActualSize :: "nat \<Rightarrow> Size \<Rightarrow> Size" where
  "incActualSize n z = z\<lparr>sz_actual := sz_actual z + n\<rparr>"

definition incMaxSize :: "nat \<Rightarrow> Size \<Rightarrow> Size" where
  "incMaxSize n z = z\<lparr>sz_max := sz_max z + n\<rparr>"

definition s_simple :: "nat \<Rightarrow> Size \<Rightarrow> Size" where
  "s_simple bytes z = incMaxSize (roundup4 bytes) (incActualSize (roundup4 bytes) z)"

definition s_opaque :: "nat \<Rightarrow> nat \<Rightarrow> Size \<Rightarrow> Size" where
  "s_opaque n m z = incMaxSize (roundup4 m) (incActualSize (roundup4 n) z)"

definition s_string :: "byte list option \<Rightarrow> nat \<Rightarrow> Size \<Rightarrow> Size" where
  "s_string p m z =
     (let n = (if \<not> sz_actual_valid z then m else case p of Some s \<Rightarrow> length s | None \<Rightarrow> 0)
      in incMaxSize 4 (incActualSize 4 (incMaxSize (roundup4 m) (incActualSize (roundup4 n) z))))"

text \<open>The size of an array: both loops run the overload for one element, which adds to both sizes.\<close>

definition s_VarArray :: "('a \<Rightarrow> Size \<Rightarrow> Size) \<Rightarrow> 'a list \<Rightarrow> nat \<Rightarrow> Size \<Rightarrow> Size option" where
  "s_VarArray sz xs cnt z = do {
     assert_that (cnt \<le> length xs);
     Some (fold sz xs (fold sz (take cnt xs) (incMaxSize 4 (incActualSize 4 z))))
   }"

subsection \<open>The structures of the protocol\<close>

definition ZOIDFS_NAME_MAX :: nat where "ZOIDFS_NAME_MAX = 256"
definition ZOIDFS_PATH_MAX :: nat where "ZOIDFS_PATH_MAX = 4096"

record zoidfs_time =
  t_seconds :: u64
  t_nseconds :: u32

record zoidfs_attr =
  a_type :: u32
  a_mask :: u16
  a_mode :: u16
  a_nlink :: u32
  a_uid :: u32
  a_gid :: u32
  a_size :: u64
  a_blocksize :: u32
  a_fsid :: u32
  a_fileid :: u64
  a_atime :: zoidfs_time
  a_mtime :: zoidfs_time
  a_ctime :: zoidfs_time

record zoidfs_cache_hint =
  h_size :: u64
  h_atime :: zoidfs_time
  h_mtime :: zoidfs_time
  h_ctime :: zoidfs_time

record zoidfs_sattr =
  s_mask :: u16
  s_mode :: u16
  s_uid :: u32
  s_gid :: u32
  s_size :: u64
  s_atime :: zoidfs_time
  s_mtime :: zoidfs_time

text \<open>A handle is 32 bytes; the name of a directory entry is the C string in its array.\<close>

record zoidfs_dirent =
  de_name :: "byte list"
  de_handle :: "byte list"
  de_attr :: zoidfs_attr
  de_cookie :: u64

definition dirent_ok :: "zoidfs_dirent \<Rightarrow> bool" where
  "dirent_ok d \<longleftrightarrow> length (de_name d) \<le> ZOIDFS_NAME_MAX \<and> c_string (de_name d) \<and> length (de_handle d) = 32"

subsection \<open>The server's templates\<close>

text \<open>Each template is one function for each of the three kinds of processors.\<close>

definition w_handle :: "('w, 'e) Encoder_scheme \<Rightarrow> byte list \<Rightarrow> 'w \<Rightarrow> 'w option" where
  "w_handle E h = e_opaque E h"

definition r_handle :: "('r, 'd) Decoder_scheme \<Rightarrow> 'r \<Rightarrow> (byte list \<times> 'r) option" where
  "r_handle D = d_opaque D 32"

definition s_handle :: "Size \<Rightarrow> Size" where
  "s_handle = s_opaque 32 32"

definition w_time :: "('w, 'e) Encoder_scheme \<Rightarrow> zoidfs_time \<Rightarrow> 'w \<Rightarrow> 'w option" where
  "w_time E t f = do { f1 \<leftarrow> e_uint64 E (t_seconds t) f; e_uint32 E (t_nseconds t) f1 }"

definition r_time :: "('r, 'd) Decoder_scheme \<Rightarrow> 'r \<Rightarrow> (zoidfs_time \<times> 'r) option" where
  "r_time D g = do {
     (sec, g1) \<leftarrow> d_uint64 D g;
     (nsec, g2) \<leftarrow> d_uint32 D g1;
     Some (\<lparr>t_seconds = sec, t_nseconds = nsec\<rparr>, g2)
   }"

definition s_time :: "Size \<Rightarrow> Size" where
  "s_time z = s_simple 4 (s_simple 8 z)"

definition w_attr :: "('w, 'e) Encoder_scheme \<Rightarrow> zoidfs_attr \<Rightarrow> 'w \<Rightarrow> 'w option" where
  "w_attr E a f = do {
     f \<leftarrow> e_enum E (a_type a) f;
     f \<leftarrow> e_uint16 E (a_mask a) f;
     f \<leftarrow> e_uint16 E (a_mode a) f;
     f \<leftarrow> e_uint32 E (a_nlink a) f;
     f \<leftarrow> e_uint32 E (a_uid a) f;
     f \<leftarrow> e_uint32 E (a_gid a) f;
     f \<leftarrow> e_uint64 E (a_size a) f;
     f \<leftarrow> e_uint32 E (a_blocksize a) f;
     f \<leftarrow> e_uint32 E (a_fsid a) f;
     f \<leftarrow> e_uint64 E (a_fileid a) f;
     f \<leftarrow> w_time E (a_atime a) f;
     f \<leftarrow> w_time E (a_mtime a) f;
     w_time E (a_ctime a) f
   }"

definition r_attr :: "('r, 'd) Decoder_scheme \<Rightarrow> 'r \<Rightarrow> (zoidfs_attr \<times> 'r) option" where
  "r_attr D g = do {
     (ty, g) \<leftarrow> d_enum D g;
     (mask, g) \<leftarrow> d_uint16 D g;
     (mode, g) \<leftarrow> d_uint16 D g;
     (nlink, g) \<leftarrow> d_uint32 D g;
     (uid, g) \<leftarrow> d_uint32 D g;
     (gid, g) \<leftarrow> d_uint32 D g;
     (sz, g) \<leftarrow> d_uint64 D g;
     (blocksize, g) \<leftarrow> d_uint32 D g;
     (fsid, g) \<leftarrow> d_uint32 D g;
     (fileid, g) \<leftarrow> d_uint64 D g;
     (atime, g) \<leftarrow> r_time D g;
     (mtime, g) \<leftarrow> r_time D g;
     (ctime, g) \<leftarrow> r_time D g;
     Some (\<lparr>a_type = ty, a_mask = mask, a_mode = mode, a_nlink = nlink, a_uid = uid, a_gid = gid, a_size = sz,
       a_blocksize = blocksize, a_fsid = fsid, a_fileid = fileid, a_atime = atime, a_mtime = mtime, a_ctime = ctime\<rparr>, g)
   }"

definition s_attr :: "Size \<Rightarrow> Size" where
  "s_attr z = s_time (s_time (s_time (s_simple 8 (s_simple 4 (s_simple 4 (s_simple 8
     (s_simple 4 (s_simple 4 (s_simple 4 (s_simple 2 (s_simple 2 (s_simple 4 z))))))))))))"

definition w_cache_hint :: "('w, 'e) Encoder_scheme \<Rightarrow> zoidfs_cache_hint \<Rightarrow> 'w \<Rightarrow> 'w option" where
  "w_cache_hint E h f = do {
     f \<leftarrow> e_uint64 E (h_size h) f;
     f \<leftarrow> w_time E (h_atime h) f;
     f \<leftarrow> w_time E (h_mtime h) f;
     w_time E (h_ctime h) f
   }"

definition r_cache_hint :: "('r, 'd) Decoder_scheme \<Rightarrow> 'r \<Rightarrow> (zoidfs_cache_hint \<times> 'r) option" where
  "r_cache_hint D g = do {
     (sz, g) \<leftarrow> d_uint64 D g;
     (atime, g) \<leftarrow> r_time D g;
     (mtime, g) \<leftarrow> r_time D g;
     (ctime, g) \<leftarrow> r_time D g;
     Some (\<lparr>h_size = sz, h_atime = atime, h_mtime = mtime, h_ctime = ctime\<rparr>, g)
   }"

definition w_sattr :: "('w, 'e) Encoder_scheme \<Rightarrow> zoidfs_sattr \<Rightarrow> 'w \<Rightarrow> 'w option" where
  "w_sattr E a f = do {
     f \<leftarrow> e_uint16 E (s_mask a) f;
     f \<leftarrow> e_uint16 E (s_mode a) f;
     f \<leftarrow> e_uint32 E (s_uid a) f;
     f \<leftarrow> e_uint32 E (s_gid a) f;
     f \<leftarrow> e_uint64 E (s_size a) f;
     f \<leftarrow> w_time E (s_atime a) f;
     w_time E (s_mtime a) f
   }"

definition r_sattr :: "('r, 'd) Decoder_scheme \<Rightarrow> 'r \<Rightarrow> (zoidfs_sattr \<times> 'r) option" where
  "r_sattr D g = do {
     (mask, g) \<leftarrow> d_uint16 D g;
     (mode, g) \<leftarrow> d_uint16 D g;
     (uid, g) \<leftarrow> d_uint32 D g;
     (gid, g) \<leftarrow> d_uint32 D g;
     (sz, g) \<leftarrow> d_uint64 D g;
     (atime, g) \<leftarrow> r_time D g;
     (mtime, g) \<leftarrow> r_time D g;
     Some (\<lparr>s_mask = mask, s_mode = mode, s_uid = uid, s_gid = gid, s_size = sz, s_atime = atime, s_mtime = mtime\<rparr>, g)
   }"

definition w_dirent :: "('w, 'e) Encoder_scheme \<Rightarrow> zoidfs_dirent \<Rightarrow> 'w \<Rightarrow> 'w option" where
  "w_dirent E d f = do {
     f \<leftarrow> e_string E (de_name d) ZOIDFS_NAME_MAX f;
     f \<leftarrow> w_handle E (de_handle d) f;
     f \<leftarrow> w_attr E (de_attr d) f;
     e_uint64 E (de_cookie d) f
   }"

definition r_dirent :: "('r, 'd) Decoder_scheme \<Rightarrow> 'r \<Rightarrow> (zoidfs_dirent \<times> 'r) option" where
  "r_dirent D g = do {
     (name, g) \<leftarrow> d_string D ZOIDFS_NAME_MAX g;
     (h, g) \<leftarrow> r_handle D g;
     (a, g) \<leftarrow> r_attr D g;
     (cookie, g) \<leftarrow> d_uint64 D g;
     Some (\<lparr>de_name = name, de_handle = h, de_attr = a, de_cookie = cookie\<rparr>, g)
   }"

definition s_dirent :: "zoidfs_dirent \<Rightarrow> Size \<Rightarrow> Size" where
  "s_dirent d z = s_simple 8 (s_attr (s_handle (s_string (Some (de_name d)) ZOIDFS_NAME_MAX z)))"

context codec
begin

lemma handle: "length h = 32 \<Longrightarrow> codes outp inp (w_handle E h) (r_handle D) h"
  using opaque [of h] by (simp add: w_handle_def r_handle_def)

lemma time: "codes outp inp (w_time E t) (r_time D) t"
proof -
  have "codes outp inp (w_time E t) (r_time D) \<lparr>t_seconds = t_seconds t, t_nseconds = t_nseconds t\<rparr>"
    unfolding w_time_def r_time_def
    by (intro codes_bind [OF uint64] codes_last [OF uint32, where h = "\<lambda>n. \<lparr>t_seconds = t_seconds t, t_nseconds = n\<rparr>"])
  then show ?thesis by (cases t) simp
qed

lemma attr: "codes outp inp (w_attr E a) (r_attr D) a"
proof (cases a)
  case (fields ty mask mode nlink uid gid sz blocksize fsid fileid atime mtime ctime)
  show ?thesis unfolding w_attr_def r_attr_def fields
    by simp (intro codes_bind [OF enum] codes_bind [OF uint16] codes_bind [OF uint32] codes_bind [OF uint64] codes_bind [OF time]
      codes_last [OF time, where h = "\<lambda>ct. \<lparr>a_type = ty, a_mask = mask, a_mode = mode, a_nlink = nlink, a_uid = uid, a_gid = gid,
        a_size = sz, a_blocksize = blocksize, a_fsid = fsid, a_fileid = fileid, a_atime = atime, a_mtime = mtime, a_ctime = ct\<rparr>"])
qed

lemma cache_hint: "codes outp inp (w_cache_hint E h) (r_cache_hint D) h"
proof (cases h)
  case (fields sz atime mtime ctime)
  show ?thesis unfolding w_cache_hint_def r_cache_hint_def fields
    by simp (intro codes_bind [OF uint64] codes_bind [OF time]
      codes_last [OF time, where h = "\<lambda>ct. \<lparr>h_size = sz, h_atime = atime, h_mtime = mtime, h_ctime = ct\<rparr>"])
qed

lemma sattr: "codes outp inp (w_sattr E a) (r_sattr D) a"
proof (cases a)
  case (fields mask mode uid gid sz atime mtime)
  show ?thesis unfolding w_sattr_def r_sattr_def fields
    by simp (intro codes_bind [OF uint16] codes_bind [OF uint32] codes_bind [OF uint64] codes_bind [OF time]
      codes_last [OF time, where h = "\<lambda>mt. \<lparr>s_mask = mask, s_mode = mode, s_uid = uid, s_gid = gid, s_size = sz,
        s_atime = atime, s_mtime = mt\<rparr>"])
qed

lemma dirent:
  assumes "dirent_ok d"
  shows "codes outp inp (w_dirent E d) (r_dirent D) d"
proof (cases d)
  case (fields name h a cookie)
  have n: "codes outp inp (e_string E name ZOIDFS_NAME_MAX) (d_string D ZOIDFS_NAME_MAX) name"
    using assms fields by (intro string) (auto simp: dirent_ok_def ZOIDFS_NAME_MAX_def)
  have hd: "codes outp inp (w_handle E h) (r_handle D) h" using assms fields by (intro handle) (simp add: dirent_ok_def)
  show ?thesis unfolding w_dirent_def r_dirent_def fields
    by simp (intro codes_bind [OF n] codes_bind [OF hd] codes_bind [OF attr]
      codes_last [OF uint64, where h = "\<lambda>c. \<lparr>de_name = name, de_handle = h, de_attr = a, de_cookie = c\<rparr>"])
qed

end

subsection \<open>File specifications\<close>

text \<open>
  \<open>FileSpecHelper\<close>: a path, or a handle and a component; absent parts are null pointers. A flag says
  which of the two follows. The decoder fills the buffers it was given.
\<close>

record FileSpec =
  fs_handle :: "byte list option"
  fs_component :: "byte list option"
  fs_full :: "byte list option"

definition w_FileSpec :: "('w, 'e) Encoder_scheme \<Rightarrow> FileSpec \<Rightarrow> 'w \<Rightarrow> 'w option" where
  "w_FileSpec E x f =
     (case fs_full x of
        Some path \<Rightarrow> do { f \<leftarrow> e_int32 E 1 f; e_string E path ZOIDFS_PATH_MAX f }
      | None \<Rightarrow> do {
          f \<leftarrow> e_int32 E 0 f;
          h \<leftarrow> fs_handle x;
          f \<leftarrow> w_handle E h f;
          c \<leftarrow> fs_component x;
          e_string E c ZOIDFS_NAME_MAX f
        })"

definition r_FileSpec :: "('r, 'd) Decoder_scheme \<Rightarrow> FileSpec \<Rightarrow> 'r \<Rightarrow> (FileSpec \<times> 'r) option" where
  "r_FileSpec D x g = do {
     (haveFullPath, g) \<leftarrow> d_int32 D g;
     if haveFullPath \<noteq> 0
     then do { (path, g) \<leftarrow> d_string D ZOIDFS_PATH_MAX g; Some (x\<lparr>fs_full := Some path\<rparr>, g) }
     else do {
       (h, g) \<leftarrow> r_handle D g;
       (c, g) \<leftarrow> d_string D ZOIDFS_NAME_MAX g;
       Some (x\<lparr>fs_handle := Some h, fs_component := Some c\<rparr>, g)
     }
   }"

definition s_FileSpec :: "FileSpec \<Rightarrow> Size \<Rightarrow> Size" where
  "s_FileSpec x z = s_string (fs_component x) ZOIDFS_NAME_MAX (s_handle (s_string (fs_full x) ZOIDFS_PATH_MAX (s_simple 4 z)))"

definition FileSpec_ok :: "FileSpec \<Rightarrow> bool" where
  "FileSpec_ok x \<longleftrightarrow> (case fs_full x of
      Some path \<Rightarrow> c_string path \<and> length path \<le> ZOIDFS_PATH_MAX
    | None \<Rightarrow> (\<exists>h c. fs_handle x = Some h \<and> length h = 32 \<and> fs_component x = Some c \<and> c_string c \<and> length c \<le> ZOIDFS_NAME_MAX))"

text \<open>What the receiver of a file specification sees: the path, or else the handle and the component.\<close>

definition spec_of :: "FileSpec \<Rightarrow> byte list + (byte list option \<times> byte list option)" where
  "spec_of x = (case fs_full x of Some path \<Rightarrow> Inl path | None \<Rightarrow> Inr (fs_handle x, fs_component x))"

context codec
begin

lemma file_spec_path:
  assumes "c_string path" "length path \<le> ZOIDFS_PATH_MAX" "fs_full x = Some path"
  shows "codes outp inp (w_FileSpec E x) (r_FileSpec D y) (y\<lparr>fs_full := Some path\<rparr>)"
proof -
  have p: "codes outp inp (e_string E path ZOIDFS_PATH_MAX) (d_string D ZOIDFS_PATH_MAX) path"
    using assms by (intro string) (auto simp: ZOIDFS_PATH_MAX_def)
  have "codes outp inp (\<lambda>f. Option.bind (e_int32 E 1 f) (e_string E path ZOIDFS_PATH_MAX)) (r_FileSpec D y) (y\<lparr>fs_full := Some path\<rparr>)"
    unfolding r_FileSpec_def
    by (rule codes_bind [OF int32]) (use codes_last [OF p, where h = "\<lambda>s. y\<lparr>fs_full := Some s\<rparr>"] in simp)
  then show ?thesis using assms(3) by (simp add: w_FileSpec_def [abs_def])
qed

lemma file_spec_handle:
  assumes "fs_full x = None" "fs_handle x = Some h" "length h = 32" "fs_component x = Some c" "c_string c" "length c \<le> ZOIDFS_NAME_MAX"
  shows "codes outp inp (w_FileSpec E x) (r_FileSpec D y) (y\<lparr>fs_handle := Some h, fs_component := Some c\<rparr>)"
proof -
  have s: "codes outp inp (e_string E c ZOIDFS_NAME_MAX) (d_string D ZOIDFS_NAME_MAX) c"
    using assms by (intro string) (auto simp: ZOIDFS_NAME_MAX_def)
  have "codes outp inp (\<lambda>f. Option.bind (w_handle E h f) (e_string E c ZOIDFS_NAME_MAX))
      (\<lambda>g. Option.bind (r_handle D g) (\<lambda>(h, g). Option.bind (d_string D ZOIDFS_NAME_MAX g)
        (\<lambda>(c, g). Some (y\<lparr>fs_handle := Some h, fs_component := Some c\<rparr>, g)))) (y\<lparr>fs_handle := Some h, fs_component := Some c\<rparr>)"
    by (rule codes_bind [OF handle [OF assms(3)]])
      (rule codes_last [OF s, where h = "\<lambda>c. y\<lparr>fs_handle := Some h, fs_component := Some c\<rparr>"])
  then have "codes outp inp (\<lambda>f. Option.bind (e_int32 E 0 f) (\<lambda>f. Option.bind (w_handle E h f) (e_string E c ZOIDFS_NAME_MAX)))
      (r_FileSpec D y) (y\<lparr>fs_handle := Some h, fs_component := Some c\<rparr>)"
    unfolding r_FileSpec_def by (intro codes_bind [OF int32]) simp
  then show ?thesis using assms by (simp add: w_FileSpec_def [abs_def])
qed

lemma file_spec:
  assumes "FileSpec_ok x" "fs_full y = None"
  shows "\<exists>y'. codes outp inp (w_FileSpec E x) (r_FileSpec D y) y' \<and> spec_of y' = spec_of x"
proof (cases "fs_full x")
  case None
  then obtain h c where "fs_handle x = Some h" "length h = 32" "fs_component x = Some c" "c_string c" "length c \<le> ZOIDFS_NAME_MAX"
    using assms(1) by (auto simp: FileSpec_ok_def)
  then show ?thesis using file_spec_handle [OF None, of h c y] None assms(2) by (auto simp: spec_of_def)
next
  case (Some path)
  then have "c_string path" "length path \<le> ZOIDFS_PATH_MAX" using assms(1) by (auto simp: FileSpec_ok_def)
  then show ?thesis using file_spec_path [OF _ _ Some, of y] Some by (auto simp: spec_of_def)
qed

end

subsection \<open>Sizes\<close>

lemma puts_bind:
  assumes "puts outp room n w1" "puts outp room m w2"
  shows "puts outp room (n + m) (\<lambda>f. Option.bind (w1 f) w2)"
  unfolding puts_def
proof
  fix f
  show "if n + m \<le> room f then \<exists>f'. Option.bind (w1 f) w2 = Some f' \<and> room f' = room f - (n + m) \<and>
      length (outp f') = length (outp f) + (n + m) else Option.bind (w1 f) w2 = None"
  proof (cases "n \<le> room f")
    case True
    then obtain f1 where f1: "w1 f = Some f1" "room f1 = room f - n" "length (outp f1) = length (outp f) + n"
      using assms(1) unfolding puts_def by (metis (full_types))
    then show ?thesis using assms(2) [unfolded puts_def, rule_format, of f1] True
      by (cases "m \<le> room f1") (auto simp: add.assoc)
  next
    case False
    then have "w1 f = None" using assms(1) unfolding puts_def by (metis (full_types))
    then show ?thesis using False by simp
  qed
qed

lemmas size_defs = new_Size_def incActualSize_def incMaxSize_def s_simple_def s_opaque_def s_string_def s_handle_def s_time_def
  s_attr_def s_dirent_def roundup4_def

lemma roundup4_mono: "m \<le> n \<Longrightarrow> roundup4 m \<le> roundup4 n"
  unfolding roundup4_def by (intro mult_le_mono1 div_le_mono) simp

context xdr_library
begin

lemma put_time: "puts outp room 12 (w_time E t)"
  using puts_bind [OF put_uint64 put_uint32, of "t_seconds t" "t_nseconds t"] by (simp add: w_time_def [abs_def])

lemma put_attr: "puts outp room 84 (w_attr E a)"
proof -
  have "puts outp room (4 + (4 + (4 + (4 + (4 + (4 + (8 + (4 + (4 + (8 + (12 + (12 + 12)))))))))))) (w_attr E a)"
    unfolding w_attr_def [abs_def]
    by (intro puts_bind put_enum put_uint16 put_uint32 put_uint64 put_time)
  then show ?thesis by simp
qed

lemma put_handle: "length h = 32 \<Longrightarrow> puts outp room 32 (w_handle E h)"
  using put_opaque [of h] by (simp add: w_handle_def roundup4_def)

lemma put_dirent:
  assumes "dirent_ok d"
  shows "puts outp room (sz_actual (s_dirent d new_Size)) (w_dirent E d)"
proof -
  have "puts outp room (4 + roundup4 (length (de_name d)) + (32 + (84 + 8))) (w_dirent E d)"
    unfolding w_dirent_def [abs_def]
    by (intro puts_bind put_attr put_uint64 put_string put_handle)
      (use assms in \<open>auto simp: dirent_ok_def ZOIDFS_NAME_MAX_def\<close>)
  then show ?thesis by (simp add: size_defs)
qed

end

lemma size_bound: "dirent_ok d \<Longrightarrow> sz_actual (s_dirent d new_Size) \<le> sz_max (s_dirent d new_Size)"
  using roundup4_mono [of "length (de_name d)" ZOIDFS_NAME_MAX] by (simp add: dirent_ok_def size_defs)

subsection \<open>The client's C routines\<close>

text \<open>
  Each routine runs in the direction of the stream it is given: \<open>cw_\<close> is the routine on a stream opened
  for encoding, \<open>cr_\<close> on one opened for decoding.
\<close>

definition cw_handle :: "'w xdr_enc \<Rightarrow> byte list \<Rightarrow> 'w \<Rightarrow> 'w option" where
  "cw_handle E h = e_opaque E h"

definition cr_handle :: "'r xdr_dec \<Rightarrow> 'r \<Rightarrow> (byte list \<times> 'r) option" where
  "cr_handle D = d_opaque D 32"

definition cw_time :: "'w xdr_enc \<Rightarrow> zoidfs_time \<Rightarrow> 'w \<Rightarrow> 'w option" where
  "cw_time E t f = do { f \<leftarrow> e_uint64 E (t_seconds t) f; e_uint32 E (t_nseconds t) f }"

definition cr_time :: "'r xdr_dec \<Rightarrow> 'r \<Rightarrow> (zoidfs_time \<times> 'r) option" where
  "cr_time D g = do {
     (sec, g) \<leftarrow> d_uint64 D g;
     (nsec, g) \<leftarrow> d_uint32 D g;
     Some (\<lparr>t_seconds = sec, t_nseconds = nsec\<rparr>, g)
   }"

definition cw_attr :: "'w xdr_enc \<Rightarrow> zoidfs_attr \<Rightarrow> 'w \<Rightarrow> 'w option" where
  "cw_attr E a f = do {
     f \<leftarrow> e_u_int E (a_type a) f;
     f \<leftarrow> e_uint16 E (a_mask a) f;
     f \<leftarrow> e_uint16 E (a_mode a) f;
     f \<leftarrow> e_uint32 E (a_nlink a) f;
     f \<leftarrow> e_uint32 E (a_uid a) f;
     f \<leftarrow> e_uint32 E (a_gid a) f;
     f \<leftarrow> e_uint64 E (a_size a) f;
     f \<leftarrow> e_uint32 E (a_blocksize a) f;
     f \<leftarrow> e_uint32 E (a_fsid a) f;
     f \<leftarrow> e_uint64 E (a_fileid a) f;
     f \<leftarrow> cw_time E (a_atime a) f;
     f \<leftarrow> cw_time E (a_mtime a) f;
     cw_time E (a_ctime a) f
   }"

definition cr_attr :: "'r xdr_dec \<Rightarrow> 'r \<Rightarrow> (zoidfs_attr \<times> 'r) option" where
  "cr_attr D g = do {
     (ty, g) \<leftarrow> d_u_int D g;
     (mask, g) \<leftarrow> d_uint16 D g;
     (mode, g) \<leftarrow> d_uint16 D g;
     (nlink, g) \<leftarrow> d_uint32 D g;
     (uid, g) \<leftarrow> d_uint32 D g;
     (gid, g) \<leftarrow> d_uint32 D g;
     (sz, g) \<leftarrow> d_uint64 D g;
     (blocksize, g) \<leftarrow> d_uint32 D g;
     (fsid, g) \<leftarrow> d_uint32 D g;
     (fileid, g) \<leftarrow> d_uint64 D g;
     (atime, g) \<leftarrow> cr_time D g;
     (mtime, g) \<leftarrow> cr_time D g;
     (ctime, g) \<leftarrow> cr_time D g;
     Some (\<lparr>a_type = ty, a_mask = mask, a_mode = mode, a_nlink = nlink, a_uid = uid, a_gid = gid, a_size = sz,
       a_blocksize = blocksize, a_fsid = fsid, a_fileid = fileid, a_atime = atime, a_mtime = mtime, a_ctime = ctime\<rparr>, g)
   }"

definition cw_cache_hint :: "'w xdr_enc \<Rightarrow> zoidfs_cache_hint \<Rightarrow> 'w \<Rightarrow> 'w option" where
  "cw_cache_hint E h f = do {
     f \<leftarrow> e_uint64 E (h_size h) f;
     f \<leftarrow> cw_time E (h_atime h) f;
     f \<leftarrow> cw_time E (h_mtime h) f;
     cw_time E (h_ctime h) f
   }"

definition cr_cache_hint :: "'r xdr_dec \<Rightarrow> 'r \<Rightarrow> (zoidfs_cache_hint \<times> 'r) option" where
  "cr_cache_hint D g = do {
     (sz, g) \<leftarrow> d_uint64 D g;
     (atime, g) \<leftarrow> cr_time D g;
     (mtime, g) \<leftarrow> cr_time D g;
     (ctime, g) \<leftarrow> cr_time D g;
     Some (\<lparr>h_size = sz, h_atime = atime, h_mtime = mtime, h_ctime = ctime\<rparr>, g)
   }"

definition cw_sattr :: "'w xdr_enc \<Rightarrow> zoidfs_sattr \<Rightarrow> 'w \<Rightarrow> 'w option" where
  "cw_sattr E a f = do {
     f \<leftarrow> e_uint16 E (s_mask a) f;
     f \<leftarrow> e_uint16 E (s_mode a) f;
     f \<leftarrow> e_uint32 E (s_uid a) f;
     f \<leftarrow> e_uint32 E (s_gid a) f;
     f \<leftarrow> e_uint64 E (s_size a) f;
     f \<leftarrow> cw_time E (s_atime a) f;
     cw_time E (s_mtime a) f
   }"

definition cr_sattr :: "'r xdr_dec \<Rightarrow> 'r \<Rightarrow> (zoidfs_sattr \<times> 'r) option" where
  "cr_sattr D g = do {
     (mask, g) \<leftarrow> d_uint16 D g;
     (mode, g) \<leftarrow> d_uint16 D g;
     (uid, g) \<leftarrow> d_uint32 D g;
     (gid, g) \<leftarrow> d_uint32 D g;
     (sz, g) \<leftarrow> d_uint64 D g;
     (atime, g) \<leftarrow> cr_time D g;
     (mtime, g) \<leftarrow> cr_time D g;
     Some (\<lparr>s_mask = mask, s_mode = mode, s_uid = uid, s_gid = gid, s_size = sz, s_atime = atime, s_mtime = mtime\<rparr>, g)
   }"

definition cw_dirent :: "'w xdr_enc \<Rightarrow> zoidfs_dirent \<Rightarrow> 'w \<Rightarrow> 'w option" where
  "cw_dirent E d f = do {
     f \<leftarrow> e_string E (de_name d) (ZOIDFS_NAME_MAX + 1 - 1) f;
     f \<leftarrow> cw_handle E (de_handle d) f;
     f \<leftarrow> cw_attr E (de_attr d) f;
     e_uint64 E (de_cookie d) f
   }"

definition cr_dirent :: "'r xdr_dec \<Rightarrow> 'r \<Rightarrow> (zoidfs_dirent \<times> 'r) option" where
  "cr_dirent D g = do {
     (name, g) \<leftarrow> d_string D (ZOIDFS_NAME_MAX + 1 - 1) g;
     (h, g) \<leftarrow> cr_handle D g;
     (a, g) \<leftarrow> cr_attr D g;
     (cookie, g) \<leftarrow> d_uint64 D g;
     Some (\<lparr>de_name = name, de_handle = h, de_attr = a, de_cookie = cookie\<rparr>, g)
   }"

text \<open>\<open>xdr_size_t\<close> works on a copy of its argument: decoding does not change the variable \<open>sizet\<close>.\<close>

definition cw_size_t :: "'w xdr_enc \<Rightarrow> u64 \<Rightarrow> 'w \<Rightarrow> 'w option" where
  "cw_size_t E sizet = e_uint64 E sizet"

definition cr_size_t :: "'r xdr_dec \<Rightarrow> u64 \<Rightarrow> 'r \<Rightarrow> (u64 \<times> 'r) option" where
  "cr_size_t D sizet g = do { (st, g) \<leftarrow> d_uint64 D g; Some (sizet, g) }"

definition xdr_stringsize :: "nat \<Rightarrow> nat" where
  "xdr_stringsize maxlen = 4 + roundup4 maxlen"

text \<open>\<open>xdr_sizeof\<close> of the library runs a routine on a stream that only counts.\<close>

definition xdr_zoidfs_dirent_array_size :: "nat \<Rightarrow> nat \<Rightarrow> nat \<Rightarrow> nat \<Rightarrow> nat" where
  "xdr_zoidfs_dirent_array_size handle_size attr_size cookie_size entry_count =
     4 + entry_count * (4 + roundup4 ZOIDFS_NAME_MAX + handle_size + attr_size + cookie_size)"

subsection \<open>A stream that follows the standard\<close>

record xmem =
  xm_data :: "byte list"
  xm_room :: nat

definition xm_put :: "byte list \<Rightarrow> xmem \<Rightarrow> xmem option" where
  "xm_put bs f = do { assert_that (length bs \<le> xm_room f); Some \<lparr>xm_data = xm_data f @ bs, xm_room = xm_room f - length bs\<rparr> }"

definition xm_pad :: "byte list \<Rightarrow> byte list" where
  "xm_pad bs = bs @ replicate (roundup4 (length bs) - length bs) 0"

definition xm_get :: "nat \<Rightarrow> byte list \<Rightarrow> (byte list \<times> byte list) option" where
  "xm_get n g = do { assert_that (n \<le> length g); Some (take n g, drop n g) }"

definition xm_int :: "nat \<Rightarrow> byte list \<Rightarrow> (('a :: len) word \<times> byte list) option" where
  "xm_int n g = do { (bs, g) \<leftarrow> xm_get n g; Some (word_of_int (host_value True bs), g) }"

definition xm_opaque :: "nat \<Rightarrow> byte list \<Rightarrow> (byte list \<times> byte list) option" where
  "xm_opaque n g = do { (bs, g) \<leftarrow> xm_get (roundup4 n) g; Some (take n bs, g) }"

definition rfc_E :: "xmem xdr_enc" where
  "rfc_E =
     \<lparr>e_uint8 = (\<lambda>v. xm_put (host_bytes True 4 (uint v))), e_uint16 = (\<lambda>v. xm_put (host_bytes True 4 (uint v))),
      e_uint32 = (\<lambda>v. xm_put (host_bytes True 4 (uint v))), e_uint64 = (\<lambda>v. xm_put (host_bytes True 8 (uint v))),
      e_int32 = (\<lambda>v. xm_put (host_bytes True 4 (uint v))), e_enum = (\<lambda>v. xm_put (host_bytes True 4 (uint v))),
      e_opaque = (\<lambda>bs. xm_put (xm_pad bs)),
      e_string = (\<lambda>s m f. do {
        assert_that (length s \<le> m);
        xm_put (host_bytes True 4 (int (length s)) @ xm_pad s) f }),
      e_u_int = (\<lambda>v. xm_put (host_bytes True 4 (uint v)))\<rparr>"

definition rfc_D :: "byte list xdr_dec" where
  "rfc_D =
     \<lparr>d_uint8 = xm_int 4, d_uint16 = xm_int 4, d_uint32 = xm_int 4, d_uint64 = xm_int 8, d_int32 = xm_int 4, d_enum = xm_int 4,
      d_opaque = xm_opaque,
      d_string = (\<lambda>m g. do {
        (len, g) \<leftarrow> (xm_int 4 g :: (u32 \<times> byte list) option);
        assert_that (unat len \<le> m);
        (bs, g) \<leftarrow> xm_opaque (unat len) g;
        Some (takeWhile (\<lambda>b. b \<noteq> 0) bs, g) }),
      d_u_int = xm_int 4\<rparr>"

lemma codes_xm_put: "codes xm_data Some (xm_put bs) (xm_get (length bs)) bs"
  unfolding codes_def
  by (intro allI impI exI [of _ bs]) (auto simp: xm_put_def xm_get_def elim!: fault_elims)

lemma codes_xm_int:
  assumes "(2 :: int) ^ LENGTH('a) \<le> 256 ^ n"
  shows "codes xm_data Some (xm_put (host_bytes True n (uint v))) (xm_int n) (v :: 'a :: len word)"
proof -
  have "uint v < 256 ^ n" using uint_bounded [of v] assms by linarith
  then have v: "word_of_int (host_value True (host_bytes True n (uint v))) = v"
    by (simp add: host_value_bytes)
  have "codes xm_data Some (xm_put (host_bytes True n (uint v)))
      (\<lambda>g. Option.bind (xm_get n g) (\<lambda>(bs, g). Some (word_of_int (host_value True bs) :: 'a word, g)))
      (word_of_int (host_value True (host_bytes True n (uint v))))"
    using codes_xm_put [of "host_bytes True n (uint v)"]
    by (intro codes_last [where h = "\<lambda>bs. word_of_int (host_value True bs) :: 'a word"]) simp
  then show ?thesis using v by (simp add: xm_int_def [abs_def])
qed

lemma roundup4_ge: "n \<le> roundup4 n"
  unfolding roundup4_def by presburger

lemma length_xm_pad [simp]: "length (xm_pad bs) = roundup4 (length bs)"
  using roundup4_ge [of "length bs"] by (simp add: xm_pad_def)

lemma codes_xm_opaque: "codes xm_data Some (xm_put (xm_pad bs)) (xm_opaque (length bs)) bs"
proof -
  have "codes xm_data Some (xm_put (xm_pad bs))
      (\<lambda>g. Option.bind (xm_get (roundup4 (length bs)) g) (\<lambda>(b, g). Some (take (length bs) b, g))) (take (length bs) (xm_pad bs))"
    using codes_xm_put [of "xm_pad bs"] by (intro codes_last [where h = "take (length bs)"]) simp
  moreover have "take (length bs) (xm_pad bs) = bs" by (simp add: xm_pad_def)
  ultimately show ?thesis by (simp add: xm_opaque_def [abs_def])
qed

lemma xm_put_append: "xm_put (a @ b) f = Option.bind (xm_put a f) (xm_put b)"
  by (auto simp: xm_put_def assert_that_def)

lemma codes_xm_string:
  assumes "c_string s" "length s \<le> m" "length s < 2 ^ 32"
  shows "codes xm_data Some (e_string rfc_E s m) (d_string rfc_D m) s"
proof -
  let ?len = "of_nat (length s) :: u32"
  have len: "unat ?len = length s" using assms(3) by (simp add: unat_of_nat take_bit_nat_eq_self)
  then have ui: "uint ?len = int (length s)" by (metis uint_nat)
  have s: "takeWhile (\<lambda>b. b \<noteq> 0) s = s" using assms(1) by (induction s) auto
  have l: "codes xm_data Some (xm_put (host_bytes True 4 (uint ?len))) (xm_int 4) ?len" by (rule codes_xm_int) simp
  have b: "codes xm_data Some (xm_put (xm_pad s))
      (\<lambda>g. Option.bind (xm_opaque (length s) g) (\<lambda>(bs, g). Some (takeWhile (\<lambda>b. b \<noteq> 0) bs, g))) s"
    using codes_last [OF codes_xm_opaque [of s], where h = "takeWhile (\<lambda>b. b \<noteq> 0)"] s by simp
  let ?k = "\<lambda>(n :: u32) g. Option.bind (assert_that (unat n \<le> m)) (\<lambda>_. Option.bind (xm_opaque (unat n) g)
      (\<lambda>(bs, g). Some (takeWhile (\<lambda>b. b \<noteq> 0) bs, g)))"
  have "codes xm_data Some (\<lambda>f. Option.bind (xm_put (host_bytes True 4 (uint ?len)) f) (xm_put (xm_pad s)))
      (\<lambda>g. Option.bind (xm_int 4 g) (\<lambda>(n, g). ?k n g)) s"
    by (rule codes_bind [OF l]) (use b len assms(2) in simp)
  moreover have "e_string rfc_E s m = (\<lambda>f. Option.bind (xm_put (host_bytes True 4 (uint ?len)) f) (xm_put (xm_pad s)))"
    using assms(2) ui by (simp add: rfc_E_def fun_eq_iff xm_put_append)
  ultimately show ?thesis by (simp add: rfc_D_def)
qed

lemma puts_xm: "puts xm_data xm_room (length bs) (xm_put bs)"
  by (auto simp: puts_def xm_put_def)

lemma xm_opaque_length: "xm_opaque k g = Some (bs, g') \<Longrightarrow> length bs = k"
  using roundup4_ge [of k] by (auto simp: xm_opaque_def xm_get_def elim!: fault_elims)

lemma xm_string_ok: "d_string rfc_D m g = Some (s, g') \<Longrightarrow> length s \<le> m \<and> c_string s"
proof -
  assume "d_string rfc_D m g = Some (s, g')"
  then obtain len :: u32 and g1 bs g2 where b: "unat len \<le> m" "xm_opaque (unat len) g1 = Some (bs, g2)"
    "s = takeWhile (\<lambda>b. b \<noteq> 0) bs" by (auto simp: rfc_D_def elim!: fault_elims)
  have "length s \<le> length bs" by (simp add: b(3) length_takeWhile_le)
  moreover have "c_string s" using b(3) by (auto dest: set_takeWhileD)
  ultimately show ?thesis using b(1) xm_opaque_length [OF b(2)] by simp
qed

interpretation rfc: xdr_library rfc_E rfc_D xm_data Some xm_room
proof
  show "codes xm_data Some (e_string rfc_E s m) (d_string rfc_D m) s"
    if "c_string s" "length s \<le> m" "length s < 2 ^ 32" for s m using that by (rule codes_xm_string)
  show "puts xm_data xm_room (4 + roundup4 (length s)) (e_string rfc_E s m)" if "length s \<le> m" for s m
    using puts_xm [of "host_bytes True 4 (int (length s)) @ xm_pad s"] that by (simp add: rfc_E_def)
  show "d_opaque rfc_D k g = Some (bs, g') \<Longrightarrow> length bs = k" for k g bs g'
    by (rule xm_opaque_length) (simp add: rfc_D_def)
  show "d_string rfc_D m g = Some (s, g') \<Longrightarrow> length s \<le> m \<and> c_string s" for m g s g' by (rule xm_string_ok)
qed (use puts_xm [of "host_bytes True 4 v" for v] puts_xm [of "host_bytes True 8 v" for v] puts_xm [of "xm_pad v" for v]
  in \<open>auto simp: rfc_E_def rfc_D_def codes_xm_int codes_xm_opaque\<close>)

subsection \<open>The server's classes on any XDR library\<close>

lemmas xdr_class_defs = XDRWriter_def XDRReader_def

sublocale xdr_library \<subseteq> server: codec "XDRWriter E" "XDRReader D" outp inp
  by unfold_locales (simp_all add: xdr_class_defs prims)

text \<open>The templates do not care through which record they reach the primitives.\<close>

lemma server_writes:
  "w_time (XDRWriter E) = w_time E" "w_attr (XDRWriter E) = w_attr E" "w_dirent (XDRWriter E) = w_dirent E"
  "w_sattr (XDRWriter E) = w_sattr E" "w_cache_hint (XDRWriter E) = w_cache_hint E" "w_handle (XDRWriter E) = w_handle E"
proof -
  show t: "w_time (XDRWriter E) = w_time E" by (simp add: w_time_def [abs_def] XDRWriter_def)
  show a: "w_attr (XDRWriter E) = w_attr E" unfolding w_attr_def [abs_def] t by (simp add: XDRWriter_def)
  show h: "w_handle (XDRWriter E) = w_handle E" by (simp add: w_handle_def [abs_def] XDRWriter_def)
  show "w_dirent (XDRWriter E) = w_dirent E" unfolding w_dirent_def [abs_def] a h by (simp add: XDRWriter_def)
  show "w_sattr (XDRWriter E) = w_sattr E" unfolding w_sattr_def [abs_def] t by (simp add: XDRWriter_def)
  show "w_cache_hint (XDRWriter E) = w_cache_hint E" unfolding w_cache_hint_def [abs_def] t by (simp add: XDRWriter_def)
qed

lemma server_reads:
  "r_time (XDRReader D) = r_time D" "r_attr (XDRReader D) = r_attr D" "r_dirent (XDRReader D) = r_dirent D"
  "r_sattr (XDRReader D) = r_sattr D" "r_cache_hint (XDRReader D) = r_cache_hint D" "r_handle (XDRReader D) = r_handle D"
proof -
  show t: "r_time (XDRReader D) = r_time D" by (simp add: r_time_def [abs_def] XDRReader_def)
  show a: "r_attr (XDRReader D) = r_attr D" unfolding r_attr_def [abs_def] t by (simp add: XDRReader_def)
  show h: "r_handle (XDRReader D) = r_handle D" by (simp add: r_handle_def [abs_def] XDRReader_def)
  show "r_dirent (XDRReader D) = r_dirent D" unfolding r_dirent_def [abs_def] a h by (simp add: XDRReader_def)
  show "r_sattr (XDRReader D) = r_sattr D" unfolding r_sattr_def [abs_def] t by (simp add: XDRReader_def)
  show "r_cache_hint (XDRReader D) = r_cache_hint D" unfolding r_cache_hint_def [abs_def] t by (simp add: XDRReader_def)
qed

context xdr_library
begin

lemma codec_server: "codec (XDRWriter E) (XDRReader D) outp inp"
  by (rule server.codec_axioms)

lemma client_time: "cw_time E = w_time E" "cr_time D = r_time D"
  by (simp_all add: cw_time_def [abs_def] w_time_def [abs_def] cr_time_def [abs_def] r_time_def [abs_def])

lemma client_attr: "cw_attr E = w_attr E" "cr_attr D = r_attr D"
  unfolding cw_attr_def [abs_def] w_attr_def [abs_def] cr_attr_def [abs_def] r_attr_def [abs_def] client_time u_int by simp_all

lemma client_handle: "cw_handle E = w_handle E" "cr_handle D = r_handle D"
  by (simp_all add: cw_handle_def [abs_def] w_handle_def [abs_def] cr_handle_def r_handle_def)

lemma client_dirent: "cw_dirent E = w_dirent E" "cr_dirent D = r_dirent D"
  unfolding cw_dirent_def [abs_def] w_dirent_def [abs_def] cr_dirent_def [abs_def] r_dirent_def [abs_def] client_attr client_handle
  by simp_all

lemma client_sattr: "cw_sattr E = w_sattr E" "cr_sattr D = r_sattr D"
  unfolding cw_sattr_def [abs_def] w_sattr_def [abs_def] cr_sattr_def [abs_def] r_sattr_def [abs_def] client_time by simp_all

lemma client_cache_hint: "cw_cache_hint E = w_cache_hint E" "cr_cache_hint D = r_cache_hint D"
  unfolding cw_cache_hint_def [abs_def] w_cache_hint_def [abs_def] cr_cache_hint_def [abs_def] r_cache_hint_def [abs_def] client_time
  by simp_all

lemma read_dirent_ok: "r_dirent D g = Some (d, g') \<Longrightarrow> dirent_ok d"
  by (auto simp: r_dirent_def r_handle_def dirent_ok_def elim!: fault_elims dest!: get_opaque get_string)

end

subsection \<open>Properties\<close>

definition demo_time :: zoidfs_time where
  "demo_time = \<lparr>t_seconds = 4294967298, t_nseconds = 7\<rparr>"

definition demo_attr :: zoidfs_attr where
  "demo_attr = \<lparr>a_type = 2, a_mask = 2047, a_mode = 493, a_nlink = 1, a_uid = 1000, a_gid = 100, a_size = 5000000000,
     a_blocksize = 512, a_fsid = 3, a_fileid = 9, a_atime = demo_time, a_mtime = demo_time, a_ctime = demo_time\<rparr>"

definition demo_dirent :: zoidfs_dirent where
  "demo_dirent = \<lparr>de_name = [97, 98, 99, 100, 101], de_handle = replicate 32 7, de_attr = demo_attr, de_cookie = 17\<rparr>"

lemma demo_dirent_ok: "dirent_ok demo_dirent"
  by (simp add: dirent_ok_def demo_dirent_def ZOIDFS_NAME_MAX_def)

text \<open>
  (C17) The server's XDR encoding of a directory entry round-trips on every XDR library that follows the
  standard: what the templates for \<open>XDRWriter\<close> write, those for \<open>XDRReader\<close> read back as the same entry,
  with its name, its handle and all its attributes, and nothing is left over.
\<close>

theorem xdr_dirent_roundtrip:
  assumes "xdr_library E D outp inp room" "dirent_ok d" "outp f = []" "w_dirent (XDRWriter E) d f = Some f'" "inp g = Some (outp f')"
  shows "\<exists>g'. r_dirent (XDRReader D) g = Some (d, g') \<and> inp g' = Some []"
  by (rule codes_all [OF codec.dirent [OF xdr_library.codec_server [OF assms(1)] assms(2)] assms(4,3,5)])

theorem xdr_dirent_roundtrip_witness:
  "\<exists>f. w_dirent (XDRWriter rfc_E) demo_dirent \<lparr>xm_data = [], xm_room = 200\<rparr> = Some f \<and> length (xm_data f) = 136 \<and>
    (\<exists>g. r_dirent (XDRReader rfc_D) (xm_data f) = Some (demo_dirent, g))"
proof -
  have "map_option (\<lambda>f. length (xm_data f)) (w_dirent (XDRWriter rfc_E) demo_dirent \<lparr>xm_data = [], xm_room = 200\<rparr>) = Some 136"
    by code_simp
  then obtain f where f: "w_dirent (XDRWriter rfc_E) demo_dirent \<lparr>xm_data = [], xm_room = 200\<rparr> = Some f" "length (xm_data f) = 136"
    by auto
  then show ?thesis
    using xdr_dirent_roundtrip [OF rfc.xdr_library_axioms demo_dirent_ok _ f(1), of "xm_data f"] by auto
qed



text \<open>
  (C18) Client and server speak the same protocol. On every XDR library that follows the standard the
  client's C routines for attributes, settable attributes, cache hints, handles and directory entries
  write exactly the bytes the server's templates write, fail in the same cases, and read the same values
  from the same bytes.
\<close>

theorem client_server_same_encoding:
  assumes "xdr_library E D outp inp room"
  shows "cw_attr E = w_attr (XDRWriter E) \<and> cr_attr D = r_attr (XDRReader D) \<and>
    cw_sattr E = w_sattr (XDRWriter E) \<and> cr_sattr D = r_sattr (XDRReader D) \<and>
    cw_cache_hint E = w_cache_hint (XDRWriter E) \<and> cr_cache_hint D = r_cache_hint (XDRReader D) \<and>
    cw_handle E = w_handle (XDRWriter E) \<and> cr_handle D = r_handle (XDRReader D) \<and>
    cw_dirent E = w_dirent (XDRWriter E) \<and> cr_dirent D = r_dirent (XDRReader D)"
  unfolding server_writes server_reads
  by (simp add: xdr_library.client_attr [OF assms] xdr_library.client_sattr [OF assms] xdr_library.client_cache_hint [OF assms]
    xdr_library.client_handle [OF assms] xdr_library.client_dirent [OF assms])

theorem client_server_same_encoding_witness:
  "cw_attr rfc_E = w_attr (XDRWriter rfc_E) \<and>
   map_option (\<lambda>f. take 12 (xm_data f)) (cw_attr rfc_E demo_attr \<lparr>xm_data = [], xm_room = 100\<rparr>) =
     Some [0, 0, 0, 2, 0, 0, 7, 255, 0, 0, 1, 237]"
proof
  show "cw_attr rfc_E = w_attr (XDRWriter rfc_E)" using client_server_same_encoding [OF rfc.xdr_library_axioms] by blast
  show "map_option (\<lambda>f. take 12 (xm_data f)) (cw_attr rfc_E demo_attr \<lparr>xm_data = [], xm_room = 100\<rparr>) =
     Some [0, 0, 0, 2, 0, 0, 7, 255, 0, 0, 1, 237]" by code_simp
qed

text \<open>
  (C24) Buffers sized by \<open>XDRSizeProcessor\<close> suffice. For a directory entry the actual size it computes is
  exactly the number of bytes the writer appends and at most the maximum size, so a writer with room for
  the maximum size never throws, and one without room for the actual size always does.
\<close>

theorem xdr_size_exact:
  assumes "xdr_library E D outp inp room" "dirent_ok d"
  shows "sz_actual (s_dirent d new_Size) \<le> sz_max (s_dirent d new_Size) \<and>
    (if sz_actual (s_dirent d new_Size) \<le> room f
     then \<exists>f'. w_dirent (XDRWriter E) d f = Some f' \<and> length (outp f') = length (outp f) + sz_actual (s_dirent d new_Size)
     else w_dirent (XDRWriter E) d f = None)"
  using xdr_library.put_dirent [OF assms] size_bound [OF assms(2)] unfolding server_writes puts_def by metis

theorem xdr_size_exact_witness:
  "sz_actual (s_dirent demo_dirent new_Size) = 136 \<and> sz_max (s_dirent demo_dirent new_Size) = 384 \<and>
   (\<exists>f. w_dirent (XDRWriter rfc_E) demo_dirent \<lparr>xm_data = [], xm_room = 136\<rparr> = Some f) \<and>
   w_dirent (XDRWriter rfc_E) demo_dirent \<lparr>xm_data = [], xm_room = 135\<rparr> = None"
proof -
  have z: "sz_actual (s_dirent demo_dirent new_Size) = 136" "sz_max (s_dirent demo_dirent new_Size) = 384"
    by (simp_all add: size_defs demo_dirent_def ZOIDFS_NAME_MAX_def)
  then show ?thesis
    using xdr_size_exact [OF rfc.xdr_library_axioms demo_dirent_ok, of "\<lparr>xm_data = [], xm_room = 136\<rparr>"]
      xdr_size_exact [OF rfc.xdr_library_axioms demo_dirent_ok, of "\<lparr>xm_data = [], xm_room = 135\<rparr>"] by auto
qed



text \<open>
  \<open>XDRSizeProcessor\<close> counts the elements of an array twice: for an array of \<open>cnt\<close> 32-bit numbers with
  room for \<open>length xs\<close>, both the actual and the maximum size come out as those of \<open>cnt + length xs\<close>
  elements, while the writer appends \<open>cnt\<close>.
\<close>

lemma xdr_array_size_too_big:
  assumes "xdr_library E D outp inp room" "cnt \<le> length xs" "length xs < 2 ^ 32" "4 + 4 * cnt \<le> room f"
  shows "s_VarArray (\<lambda>x. s_simple 4) (xs :: u32 list) cnt new_Size =
      Some \<lparr>sz_actual_valid = True, sz_actual = 4 + 4 * (cnt + length xs), sz_max = 4 + 4 * (cnt + length xs)\<rparr> \<and>
    (\<exists>f'. w_VarArray (XDRWriter E) (e_uint32 (XDRWriter E)) (take cnt xs) (length xs) f = Some f' \<and>
      length (outp f') = length (outp f) + (4 + 4 * cnt))"
proof
  have f: "fold (\<lambda>x. s_simple 4) (l :: u32 list) z = z\<lparr>sz_actual := sz_actual z + 4 * length l, sz_max := sz_max z + 4 * length l\<rparr>" for l z
    by (induction l arbitrary: z) (simp_all add: size_defs)
  show "s_VarArray (\<lambda>x. s_simple 4) xs cnt new_Size =
      Some \<lparr>sz_actual_valid = True, sz_actual = 4 + 4 * (cnt + length xs), sz_max = 4 + 4 * (cnt + length xs)\<rparr>"
    using assms(2) by (simp add: s_VarArray_def f new_Size_def incActualSize_def incMaxSize_def)
  have el: "puts outp room (4 * length l) (w_elems (e_uint32 E) l)" for l
  proof (induction l)
    case Nil
    then show ?case by (auto simp: puts_def)
  next
    case (Cons x l)
    have "w_elems (e_uint32 E) (x # l) = (\<lambda>f. Option.bind (e_uint32 E x f) (w_elems (e_uint32 E) l))" by (simp add: fun_eq_iff)
    then show ?case using puts_bind [OF xdr_library.put_uint32 [OF assms(1)] Cons.IH, of x] by simp
  qed
  let ?n = "of_nat (length (take cnt xs)) :: u32"
  have n: "unat ?n = cnt" using assms(2,3) by (simp add: unat_of_nat take_bit_nat_eq_self min_absorb2)
  have "puts outp room (4 + 4 * cnt) (\<lambda>f. Option.bind (e_uint32 E ?n f) (w_elems (e_uint32 E) (take cnt xs)))"
    using puts_bind [OF xdr_library.put_uint32 [OF assms(1)] el [of "take cnt xs"], of ?n] assms(2) by (simp add: min_absorb2)
  moreover have "w_VarArray (XDRWriter E) (e_uint32 (XDRWriter E)) (take cnt xs) (length xs) =
      (\<lambda>f. Option.bind (e_uint32 E ?n f) (w_elems (e_uint32 E) (take cnt xs)))"
    using n assms(2) by (simp add: w_VarArray_def [abs_def] XDRWriter_def Let_def)
  ultimately show "\<exists>f'. w_VarArray (XDRWriter E) (e_uint32 (XDRWriter E)) (take cnt xs) (length xs) f = Some f' \<and>
      length (outp f') = length (outp f) + (4 + 4 * cnt)"
    using assms(4) unfolding puts_def by metis
qed

lemma xdr_array_size_too_big_witness:
  "map_option sz_actual (s_VarArray (\<lambda>x. s_simple 4) [5, 6, 7 :: u32] 3 new_Size) = Some 28 \<and>
   (\<exists>f. w_VarArray (XDRWriter rfc_E) (e_uint32 (XDRWriter rfc_E)) (take 3 [5, 6, 7]) (length [5, 6, 7 :: u32])
      \<lparr>xm_data = [], xm_room = 100\<rparr> = Some f \<and> length (xm_data f) = 16)"
  using xdr_array_size_too_big [OF rfc.xdr_library_axioms, of 3 "[5, 6, 7]" "\<lparr>xm_data = [], xm_room = 100\<rparr>"] by simp

text \<open>
  The client's routine for \<open>size_t\<close> does not decode: reading what it wrote leaves the variable at its
  old value, whatever was sent.
\<close>

lemma xdr_size_t_not_decoded:
  assumes "xdr_library E D outp inp room" "outp f = []" "cw_size_t E sent f = Some f'" "inp g = Some (outp f')"
  shows "\<exists>g'. cr_size_t D old g = Some (old, g') \<and> inp g' = Some []"
proof -
  have "codec E D outp inp" using assms(1) by (simp add: xdr_library_def)
  from codes_all [OF codec.uint64 [OF this] assms(3) [unfolded cw_size_t_def] assms(2,4)]
  show ?thesis by (auto simp: cr_size_t_def)
qed

lemma xdr_size_t_not_decoded_witness:
  "\<exists>f. cw_size_t rfc_E 42 \<lparr>xm_data = [], xm_room = 8\<rparr> = Some f \<and> xm_data f = [0, 0, 0, 0, 0, 0, 0, 42] \<and>
    (\<exists>g. cr_size_t rfc_D 5 (xm_data f) = Some (5, g))"
proof -
  have "map_option xm_data (cw_size_t rfc_E 42 \<lparr>xm_data = [], xm_room = 8\<rparr>) = Some [0, 0, 0, 0, 0, 0, 0, 42]" by code_simp
  then obtain f where f: "cw_size_t rfc_E 42 \<lparr>xm_data = [], xm_room = 8\<rparr> = Some f" "xm_data f = [0, 0, 0, 0, 0, 0, 0, 42]" by auto
  then show ?thesis using xdr_size_t_not_decoded [OF rfc.xdr_library_axioms _ f(1), of "xm_data f" 5] by auto
qed

text \<open>
  The server's reader puts no bound on the elements of an array: it reads, and stores one after the
  other, all the elements that the sender announced, and does not consult the room at their destination.
\<close>

lemma xdr_array_reader_unbounded:
  assumes "xdr_library E D outp inp room" "length xs < 2 ^ 32" "outp f = []"
    "w_VarArray (XDRWriter E) (e_uint32 (XDRWriter E)) xs (length xs) f = Some f'" "inp g = Some (outp f')"
  shows "\<exists>g'. r_VarArray (XDRReader D) (d_uint32 (XDRReader D)) g = Some (xs, g') \<and> inp g' = Some []"
proof -
  note c = xdr_library.codec_server [OF assms(1)]
  let ?n = "of_nat (length xs) :: u32" and ?E = "XDRWriter E" and ?D = "XDRReader D"
  have n: "unat ?n = length xs" using assms(2) by (simp add: unat_of_nat take_bit_nat_eq_self)
  have "w_VarArray ?E (e_uint32 ?E) xs (length xs) = (\<lambda>f. Option.bind (e_uint32 ?E ?n f) (w_elems (e_uint32 ?E) xs))"
    using n by (simp add: w_VarArray_def [abs_def] Let_def)
  moreover have "codes outp inp (\<lambda>f. Option.bind (e_uint32 ?E ?n f) (w_elems (e_uint32 ?E) xs))
      (\<lambda>g. Option.bind (d_uint32 ?D g) (\<lambda>(k, g1). r_elems (d_uint32 ?D) (unat k) g1)) xs"
    by (rule codes_bind [OF codec.uint32 [OF c]]) (use codes_elems [OF codec.uint32 [OF c], of xs] n in simp)
  ultimately have "codes outp inp (w_VarArray ?E (e_uint32 ?E) xs (length xs)) (r_VarArray ?D (d_uint32 ?D)) xs"
    by (simp add: r_VarArray_def [abs_def])
  from codes_all [OF this assms(4,3,5)] show ?thesis .
qed

lemma xdr_array_reader_unbounded_witness:
  "\<exists>f g. w_VarArray (XDRWriter rfc_E) (e_uint32 (XDRWriter rfc_E)) [1, 2, 3] (length [1, 2, 3 :: u32]) \<lparr>xm_data = [], xm_room = 16\<rparr> = Some f \<and>
    r_VarArray (XDRReader rfc_D) (d_uint32 (XDRReader rfc_D)) (xm_data f) = Some ([1, 2, 3], g)"
proof -
  let ?w = "w_VarArray (XDRWriter rfc_E) (e_uint32 (XDRWriter rfc_E)) [1, 2, 3] (length [1, 2, 3 :: u32]) \<lparr>xm_data = [], xm_room = 16\<rparr>"
  have "?w \<noteq> None" by code_simp
  then obtain f where f: "?w = Some f" by auto
  then show ?thesis using xdr_array_reader_unbounded [OF rfc.xdr_library_axioms _ _ f, of "xm_data f"] by auto
qed

end
