(* ===== verification/Hints.thy ===== *)
theory Hints
  imports Xdr
begin

text \<open>
  Operation hints (\<open>src/zoidfs/hints/zoidfs-hints.c\<close>) and their transfer
  (\<open>src/zoidfs/util/OpHintHelper.hh\<close>). A hint is a handle to a list of items, each a key and the bytes of its
  value; copies of the handle share the list, so lists are objects of an explicit store. The intrusive list
  of \<open>src/c-util/quicklist.h\<close> is the list of its entries. Strings are their characters before the
  terminating zero; a value argument is the memory it points to, and \<open>None\<close> is a null pointer. The outer
  \<open>None\<close> of a result is undefined behaviour.
\<close>

record hint_item =
  hi_key :: "byte list"
  hi_value :: "byte list"

record op_hint =
  oh_list :: addr
  oh_copy :: bool

type_synonym hint_heap = "hint_item list heap"

subsection \<open>The hint interface\<close>

text \<open>The return value of each function comes first: 0, or -1 for a null pointer argument.\<close>

definition zoidfs_hint_create :: "bool \<Rightarrow> hint_heap \<Rightarrow> int \<times> op_hint option \<times> hint_heap" where
  "zoidfs_hint_create given h =
     (if \<not> given then (-1, None, h)
      else let (a, h1) = heap_new [] h in (0, Some \<lparr>oh_list = a, oh_copy = False\<rparr>, h1))"

text \<open>The C string at the start of some memory; there has to be a terminating zero.\<close>

definition c_str :: "byte list \<Rightarrow> byte list option" where
  "c_str mem = do { assert_that (0 \<in> set mem); Some (takeWhile (\<lambda>b. b \<noteq> 0) mem) }"

definition zoidfs_hint_set :: "op_hint \<Rightarrow> byte list option \<Rightarrow> byte list option \<Rightarrow> int \<Rightarrow> hint_heap \<Rightarrow> (int \<times> hint_heap) option" where
  "zoidfs_hint_set hint key value bin_length h =
     (case (key, value) of
        (Some k, Some mem) \<Rightarrow> do {
          v \<leftarrow> (if bin_length \<noteq> 0
            then do { assert_that (0 \<le> bin_length \<and> nat bin_length \<le> length mem); Some (take (nat bin_length) mem) }
            else do { s \<leftarrow> c_str mem; Some (s @ [0]) });
          items \<leftarrow> heap_read h (oh_list hint);
          h1 \<leftarrow> heap_write (oh_list hint) (items @ [\<lparr>hi_key = k, hi_value = v\<rparr>]) h;
          Some (0, h1)
        }
      | _ \<Rightarrow> Some (-1, h))"

fun hint_delete_loop :: "byte list \<Rightarrow> hint_item list \<Rightarrow> hint_item list" where
  "hint_delete_loop key [] = []"
| "hint_delete_loop key (item # items) = (if key = hi_key item then items else item # hint_delete_loop key items)"

definition zoidfs_hint_delete :: "op_hint \<Rightarrow> byte list \<Rightarrow> hint_heap \<Rightarrow> (int \<times> hint_heap) option" where
  "zoidfs_hint_delete hint key h = do {
     items \<leftarrow> heap_read h (oh_list hint);
     h1 \<leftarrow> heap_write (oh_list hint) (hint_delete_loop key items) h;
     Some (0, h1)
   }"

text \<open>The result: return value, \<open>*flag\<close>, and the bytes copied to the caller's buffer.\<close>

fun hint_get_loop :: "byte list \<Rightarrow> int \<Rightarrow> hint_item list \<Rightarrow> (int \<times> byte list) option" where
  "hint_get_loop key valuelen [] = Some (0, [])"
| "hint_get_loop key valuelen (item # items) =
     (if key = hi_key item
      then do {
        let n = (if int (length (hi_value item)) < valuelen then int (length (hi_value item)) else valuelen);
        assert_that (0 \<le> n);
        Some (n, take (nat n) (hi_value item))
      }
      else hint_get_loop key valuelen items)"

definition zoidfs_hint_get ::
  "op_hint \<Rightarrow> byte list option \<Rightarrow> int \<Rightarrow> bool \<Rightarrow> bool \<Rightarrow> hint_heap \<Rightarrow> (int \<times> (int \<times> byte list) option) option" where
  "zoidfs_hint_get hint key valuelen value_given flag_given h =
     (case key of
        Some k \<Rightarrow>
          if \<not> value_given \<or> \<not> flag_given then Some (-1, None)
          else do {
            items \<leftarrow> heap_read h (oh_list hint);
            r \<leftarrow> hint_get_loop k valuelen items;
            Some (0, Some r)
          }
      | None \<Rightarrow> Some (-1, None))"

text \<open>\<open>*flag\<close> and, when the key was found, \<open>*valuelen\<close>.\<close>

fun hint_valuelen_loop :: "byte list \<Rightarrow> hint_item list \<Rightarrow> int \<times> int option" where
  "hint_valuelen_loop key [] = (0, None)"
| "hint_valuelen_loop key (item # items) =
     (if key = hi_key item then (1, Some (int (length (hi_value item)))) else hint_valuelen_loop key items)"

definition zoidfs_hint_get_valuelen ::
  "op_hint \<Rightarrow> byte list option \<Rightarrow> bool \<Rightarrow> bool \<Rightarrow> hint_heap \<Rightarrow> (int \<times> (int \<times> int option) option) option" where
  "zoidfs_hint_get_valuelen hint key valuelen_given flag_given h =
     (case key of
        Some k \<Rightarrow>
          if \<not> valuelen_given \<or> \<not> flag_given then Some (-1, None)
          else do { items \<leftarrow> heap_read h (oh_list hint); Some (0, Some (hint_valuelen_loop k items)) }
      | None \<Rightarrow> Some (-1, None))"

definition zoidfs_hint_get_nkeys :: "op_hint \<Rightarrow> bool \<Rightarrow> hint_heap \<Rightarrow> (int \<times> int option) option" where
  "zoidfs_hint_get_nkeys hint nkeys_given h =
     (if \<not> nkeys_given then Some (-1, None)
      else do {
        items \<leftarrow> heap_read h (oh_list hint);
        assert_that (int (length items) < 2147483648);
        Some (0, Some (int (length items)))
      })"

fun hint_nth_loop :: "int \<Rightarrow> int \<Rightarrow> hint_item list \<Rightarrow> hint_item option" where
  "hint_nth_loop n index [] = None"
| "hint_nth_loop n index (item # items) = (if n = index then Some item else hint_nth_loop n (index + 1) items)"

text \<open>The key is written to the caller's buffer when there is an item with that number.\<close>

definition zoidfs_hint_get_nthkey :: "op_hint \<Rightarrow> int \<Rightarrow> bool \<Rightarrow> hint_heap \<Rightarrow> (int \<times> byte list option) option" where
  "zoidfs_hint_get_nthkey hint n key_given h =
     (if \<not> key_given then Some (-1, None)
      else do { items \<leftarrow> heap_read h (oh_list hint); Some (0, map_option hi_key (hint_nth_loop n 0 items)) })"

definition zoidfs_hint_get_nthkeylen :: "op_hint \<Rightarrow> int \<Rightarrow> bool \<Rightarrow> hint_heap \<Rightarrow> (int \<times> int option) option" where
  "zoidfs_hint_get_nthkeylen hint n keylen_given h =
     (if \<not> keylen_given then Some (-1, None)
      else do {
        items \<leftarrow> heap_read h (oh_list hint);
        Some (0, map_option (\<lambda>i. int (length (hi_key i)) + 1) (hint_nth_loop n 0 items))
      })"

definition zoidfs_hint_copy :: "op_hint option \<Rightarrow> bool \<Rightarrow> int \<times> op_hint option" where
  "zoidfs_hint_copy oldhint newhint_given =
     (if \<not> newhint_given then (-1, None)
      else case oldhint of None \<Rightarrow> (-1, None) | Some old \<Rightarrow> (0, Some \<lparr>oh_list = oh_list old, oh_copy = True\<rparr>))"

text \<open>
  \<open>zoidfs_hint_dup\<close> copies each value to the address in the member \<open>value\<close> of the new item, which
  \<open>malloc\<close> left indeterminate.
\<close>

definition indeterminate :: "'a option" where
  "indeterminate = None"

fun hint_dup_loop :: "hint_item list \<Rightarrow> op_hint \<Rightarrow> hint_heap \<Rightarrow> hint_heap option" where
  "hint_dup_loop [] newhint h = Some h"
| "hint_dup_loop (item # items) newhint h = do {
     nitem_value \<leftarrow> (indeterminate :: addr option);
     new_items \<leftarrow> heap_read h (oh_list newhint);
     h1 \<leftarrow> heap_write (oh_list newhint) (new_items @ [item]) h;
     hint_dup_loop items newhint h1
   }"

definition zoidfs_hint_dup :: "op_hint \<Rightarrow> op_hint option \<Rightarrow> hint_heap \<Rightarrow> (int \<times> hint_heap) option" where
  "zoidfs_hint_dup oldhint newhint h =
     (case newhint of
        None \<Rightarrow> Some (-1, h)
      | Some new \<Rightarrow> do {
          items \<leftarrow> heap_read h (oh_list oldhint);
          h1 \<leftarrow> hint_dup_loop items new h;
          Some (0, h1)
        })"

definition zoidfs_hint_free :: "op_hint option \<Rightarrow> hint_heap \<Rightarrow> (int \<times> hint_heap) option" where
  "zoidfs_hint_free hint h =
     (case hint of
        None \<Rightarrow> Some (-1, h)
      | Some x \<Rightarrow> if oh_copy x then Some (0, h) else do { h1 \<leftarrow> heap_delete (oh_list x) h; Some (0, h1) })"

subsection \<open>Transferring hints\<close>

record OpHintHelper =
  ohh_op_hint :: op_hint
  ohh_readonly :: bool

text \<open>The constructor for a constant hint makes a deep copy, the other one shares the list.\<close>

definition new_OpHintHelper_const :: "op_hint \<Rightarrow> hint_heap \<Rightarrow> (OpHintHelper \<times> hint_heap) option" where
  "new_OpHintHelper_const op_hint h = do {
     let (ret, new, h1) = zoidfs_hint_create True h;
     (ret, h2) \<leftarrow> zoidfs_hint_dup op_hint new h1;
     new_hint \<leftarrow> new;
     Some (\<lparr>ohh_op_hint = new_hint, ohh_readonly = True\<rparr>, h2)
   }"

definition new_OpHintHelper :: "op_hint \<Rightarrow> hint_heap \<Rightarrow> (OpHintHelper \<times> hint_heap) option" where
  "new_OpHintHelper op_hint h = do {
     let (ret, new, h1) = zoidfs_hint_create True h;
     let (ret, copy) = zoidfs_hint_copy (Some op_hint) True;
     copy_hint \<leftarrow> copy;
     Some (\<lparr>ohh_op_hint = copy_hint, ohh_readonly = False\<rparr>, h1)
   }"

definition delete_OpHintHelper :: "OpHintHelper \<Rightarrow> hint_heap \<Rightarrow> hint_heap option" where
  "delete_OpHintHelper x h = do { (ret, h1) \<leftarrow> zoidfs_hint_free (Some (ohh_op_hint x)) h; Some h1 }"

text \<open>
  One turn of the loop that the encoder and the size processor share: the length of the key and the key,
  the length of the value and the value. The value is looked up by its key.
\<close>

definition hint_fields :: "op_hint \<Rightarrow> int \<Rightarrow> hint_heap \<Rightarrow> (int \<times> byte list \<times> int \<times> byte list) option" where
  "hint_fields hint i h = do {
     (ret, keylen) \<leftarrow> zoidfs_hint_get_nthkeylen hint i True h;
     let key_len = (case keylen of None \<Rightarrow> 0 | Some n \<Rightarrow> n);
     (ret, nthkey) \<leftarrow> zoidfs_hint_get_nthkey hint i True h;
     key \<leftarrow> nthkey;
     (ret, r1) \<leftarrow> zoidfs_hint_get_valuelen hint (Some key) True True h;
     (flag, len) \<leftarrow> r1;
     let value_len = (case len of None \<Rightarrow> 0 | Some n \<Rightarrow> n);
     (ret, r2) \<leftarrow> zoidfs_hint_get hint (Some key) value_len True True h;
     (flag, value) \<leftarrow> r2;
     s \<leftarrow> c_str value;
     Some (key_len, key, value_len, s)
   }"

definition w_hint_item :: "('w, 'e) Encoder_scheme \<Rightarrow> op_hint \<Rightarrow> int \<Rightarrow> hint_heap \<Rightarrow> 'w \<Rightarrow> 'w option" where
  "w_hint_item E hint i h f = do {
     (key_len, key, value_len, value) \<leftarrow> hint_fields hint i h;
     f \<leftarrow> e_int32 E (word_of_int key_len) f;
     f \<leftarrow> e_string E key (nat key_len) f;
     f \<leftarrow> e_int32 E (word_of_int value_len) f;
     e_string E value (nat value_len) f
   }"

fun w_hint_items :: "('w, 'e) Encoder_scheme \<Rightarrow> op_hint \<Rightarrow> int \<Rightarrow> nat \<Rightarrow> hint_heap \<Rightarrow> 'w \<Rightarrow> 'w option" where
  "w_hint_items E hint i 0 h f = Some f"
| "w_hint_items E hint i (Suc n) h f = do { f \<leftarrow> w_hint_item E hint i h f; w_hint_items E hint (i + 1) n h f }"

definition w_OpHintHelper :: "('w, 'e) Encoder_scheme \<Rightarrow> OpHintHelper \<Rightarrow> hint_heap \<Rightarrow> 'w \<Rightarrow> 'w option" where
  "w_OpHintHelper E x h f = do {
     (ret, nkeys) \<leftarrow> zoidfs_hint_get_nkeys (ohh_op_hint x) True h;
     size \<leftarrow> nkeys;
     f \<leftarrow> e_int32 E (if size > 0 then 1 else 0) f;
     if size > 0
     then do {
       f \<leftarrow> e_int32 E (word_of_int size) f;
       w_hint_items E (ohh_op_hint x) 0 (nat size) h f
     }
     else Some f
   }"

text \<open>
  The decoder. A value arrives in a buffer of one byte more than its announced length, whose bytes after
  the terminating zero are those the memory had before: \<open>junk\<close>.
\<close>

definition r_hint_item ::
  "('r, 'd) Decoder_scheme \<Rightarrow> (nat \<Rightarrow> byte) \<Rightarrow> op_hint \<Rightarrow> hint_heap \<Rightarrow> 'r \<Rightarrow> (hint_heap \<times> 'r) option" where
  "r_hint_item D junk hint h g = do {
     (key_len, g) \<leftarrow> d_int32 D g;
     assert_that (0 \<le> sint key_len \<and> sint key_len < 2147483647);
     (key, g) \<leftarrow> d_string D (nat (sint key_len)) g;
     (value_len, g) \<leftarrow> d_int32 D g;
     assert_that (0 \<le> sint value_len \<and> sint value_len < 2147483647);
     (value, g) \<leftarrow> d_string D (nat (sint value_len)) g;
     let buf = value @ 0 # map junk [0..<nat (sint value_len) - length value];
     (ret, h1) \<leftarrow> zoidfs_hint_set hint (Some key) (Some buf) (sint value_len) h;
     Some (h1, g)
   }"

fun r_hint_items ::
  "('r, 'd) Decoder_scheme \<Rightarrow> (nat \<Rightarrow> byte) \<Rightarrow> op_hint \<Rightarrow> nat \<Rightarrow> hint_heap \<Rightarrow> 'r \<Rightarrow> (hint_heap \<times> 'r) option" where
  "r_hint_items D junk hint 0 h g = Some (h, g)"
| "r_hint_items D junk hint (Suc n) h g = do { (h1, g1) \<leftarrow> r_hint_item D junk hint h g; r_hint_items D junk hint n h1 g1 }"

definition r_OpHintHelper ::
  "('r, 'd) Decoder_scheme \<Rightarrow> (nat \<Rightarrow> byte) \<Rightarrow> OpHintHelper \<Rightarrow> hint_heap \<Rightarrow> 'r \<Rightarrow> (hint_heap \<times> 'r) option" where
  "r_OpHintHelper D junk x h g = do {
     assert_that (\<not> ohh_readonly x);
     (valid_hint, g) \<leftarrow> d_int32 D g;
     if valid_hint \<noteq> 0
     then do {
       (size, g) \<leftarrow> d_int32 D g;
       assert_that (sint size > 0);
       r_hint_items D junk (ohh_op_hint x) (nat (sint size)) h g
     }
     else do {
       (ret, h1) \<leftarrow> zoidfs_hint_free (Some (ohh_op_hint x)) h;
       Some (h1, g)
     }
   }"

text \<open>The size processor makes the same calls; the maximal size of a string is its announced length.\<close>

definition s_hint_item :: "op_hint \<Rightarrow> int \<Rightarrow> hint_heap \<Rightarrow> Size \<Rightarrow> Size option" where
  "s_hint_item hint i h z = do {
     (key_len, key, value_len, value) \<leftarrow> hint_fields hint i h;
     Some (s_string (Some value) (nat value_len) (s_simple 4 (s_string (Some key) (nat key_len) (s_simple 4 z))))
   }"

fun s_hint_items :: "op_hint \<Rightarrow> int \<Rightarrow> nat \<Rightarrow> hint_heap \<Rightarrow> Size \<Rightarrow> Size option" where
  "s_hint_items hint i 0 h z = Some z"
| "s_hint_items hint i (Suc n) h z = do { z \<leftarrow> s_hint_item hint i h z; s_hint_items hint (i + 1) n h z }"

definition s_OpHintHelper :: "OpHintHelper \<Rightarrow> hint_heap \<Rightarrow> Size \<Rightarrow> Size option" where
  "s_OpHintHelper x h z = do {
     (ret, nkeys) \<leftarrow> zoidfs_hint_get_nkeys (ohh_op_hint x) True h;
     size \<leftarrow> nkeys;
     let z1 = s_simple 4 z;
     if size > 0 then s_hint_items (ohh_op_hint x) 0 (nat size) h (s_simple 4 z1) else Some z1
   }"

subsection \<open>Setting, deleting and getting\<close>

text \<open>
  The specification: each key has the queue of the values it was given. Setting a key appends to its queue,
  deleting it takes the front off, and getting it reads the front.
\<close>

datatype hint_op = HSet "byte list" "byte list" int | HDelete "byte list"

definition hint_step :: "op_hint \<Rightarrow> hint_op \<Rightarrow> hint_heap \<Rightarrow> hint_heap option" where
  "hint_step hint c h =
     (case c of
        HSet k mem n \<Rightarrow> map_option snd (zoidfs_hint_set hint (Some k) (Some mem) n h)
      | HDelete k \<Rightarrow> map_option snd (zoidfs_hint_delete hint k h))"

fun hint_run :: "op_hint \<Rightarrow> hint_op list \<Rightarrow> hint_heap \<Rightarrow> hint_heap option" where
  "hint_run hint [] h = Some h"
| "hint_run hint (c # cs) h = do { h1 \<leftarrow> hint_step hint c h; hint_run hint cs h1 }"

definition hint_bytes :: "byte list \<Rightarrow> int \<Rightarrow> byte list" where
  "hint_bytes mem n = (if n \<noteq> 0 then take (nat n) mem else takeWhile (\<lambda>b. b \<noteq> 0) mem @ [0])"

definition hint_op_ok :: "hint_op \<Rightarrow> bool" where
  "hint_op_ok c =
     (case c of HSet k mem n \<Rightarrow> (if n \<noteq> 0 then 0 \<le> n \<and> nat n \<le> length mem else 0 \<in> set mem) | HDelete k \<Rightarrow> True)"

fun queue_step :: "hint_op \<Rightarrow> (byte list \<Rightarrow> byte list list) \<Rightarrow> byte list \<Rightarrow> byte list list" where
  "queue_step (HSet k mem n) q = q(k := q k @ [hint_bytes mem n])"
| "queue_step (HDelete k) q = q(k := tl (q k))"

definition hint_values :: "hint_item list \<Rightarrow> byte list \<Rightarrow> byte list list" where
  "hint_values items k = map hi_value (filter (\<lambda>i. hi_key i = k) items)"

lemma hint_values_simps [simp]:
  "hint_values [] k = []"
  "hint_values (i # items) k = (if hi_key i = k then hi_value i # hint_values items k else hint_values items k)"
  "hint_values (items @ items2) k = hint_values items k @ hint_values items2 k"
  by (simp_all add: hint_values_def)

lemma hint_values_delete: "hint_values (hint_delete_loop key items) = (hint_values items)(key := tl (hint_values items key))"
  by (induction items) (auto simp: fun_eq_iff)

lemma hint_get_values:
  "0 \<le> len \<Longrightarrow> hint_get_loop k len items =
     Some (case hint_values items k of [] \<Rightarrow> (0, []) | v # _ \<Rightarrow> (min (int (length v)) len, take (nat len) v))"
  by (induction items) (auto simp: Let_def min_def)

lemma hint_valuelen_values:
  "hint_valuelen_loop k items = (case hint_values items k of [] \<Rightarrow> (0, None) | v # _ \<Rightarrow> (1, Some (int (length v))))"
  by (induction items) auto

lemma hint_set_ok:
  assumes "hp_objs h (oh_list hint) = Some items" "hint_op_ok (HSet k mem n)"
  shows "zoidfs_hint_set hint (Some k) (Some mem) n h =
    Some (0, h\<lparr>hp_objs := (hp_objs h)(oh_list hint \<mapsto> items @ [\<lparr>hi_key = k, hi_value = hint_bytes mem n\<rparr>])\<rparr>)"
  using assms by (auto simp: zoidfs_hint_set_def hint_op_ok_def hint_bytes_def c_str_def heap_read_def heap_write_def split: if_splits)

lemma hint_step_ok:
  assumes "hp_objs h (oh_list hint) = Some items" "hint_op_ok c"
  shows "\<exists>h' items'. hint_step hint c h = Some h' \<and> hp_objs h' (oh_list hint) = Some items' \<and>
    hint_values items' = queue_step c (hint_values items)"
proof (cases c)
  case (HSet k mem n)
  then show ?thesis using hint_set_ok [OF assms(1), of k mem n] assms(2) by (auto simp: hint_step_def fun_eq_iff)
next
  case (HDelete k)
  then show ?thesis using assms(1)
    by (simp add: hint_step_def zoidfs_hint_delete_def heap_read_def heap_write_def hint_values_delete)
qed

lemma hint_run_ok:
  assumes "hp_objs h (oh_list hint) = Some items" "list_all hint_op_ok cs"
  shows "\<exists>h' items'. hint_run hint cs h = Some h' \<and> hp_objs h' (oh_list hint) = Some items' \<and>
    hint_values items' = fold queue_step cs (hint_values items)"
  using assms
proof (induction cs arbitrary: h items)
  case (Cons c cs)
  obtain h1 items1 where s: "hint_step hint c h = Some h1" "hp_objs h1 (oh_list hint) = Some items1"
    "hint_values items1 = queue_step c (hint_values items)"
    using hint_step_ok [OF Cons.prems(1), of c] Cons.prems(2) by auto
  show ?case using Cons.IH [OF s(2)] Cons.prems(2) s by simp
qed simp

lemma hint_create_ok:
  assumes "zoidfs_hint_create True h0 = (ret, Some hint, h)" "heap_ok h0"
  shows "heap_ok h" "hp_objs h0 (oh_list hint) = None" "hp_objs h = (hp_objs h0)(oh_list hint \<mapsto> [])"
proof -
  obtain a h' where n: "heap_new ([] :: hint_item list) h0 = (a, h')" by (cases "heap_new ([] :: hint_item list) h0")
  then have "a = oh_list hint" "h' = h" using assms(1) by (auto simp: zoidfs_hint_create_def)
  then show "heap_ok h" "hp_objs h0 (oh_list hint) = None" "hp_objs h = (hp_objs h0)(oh_list hint \<mapsto> [])"
    using heap_new_fresh [OF assms(2) n] by simp_all
qed



subsection \<open>The transfer keeps string hints\<close>

text \<open>A hint whose key and value are strings that fit an \<open>int\<close> with their terminating zero.\<close>

definition string_hint :: "hint_item \<Rightarrow> bool" where
  "string_hint i \<longleftrightarrow> c_string (hi_key i) \<and> length (hi_key i) < 2147483646 \<and>
     hi_value i \<noteq> [] \<and> last (hi_value i) = 0 \<and> c_string (butlast (hi_value i)) \<and> length (hi_value i) < 2147483647"

text \<open>What is sent for an item: its key and the value that a lookup of the key finds.\<close>

definition sent_item :: "hint_item list \<Rightarrow> hint_item \<Rightarrow> hint_item" where
  "sent_item items i = i\<lparr>hi_value := hd (hint_values items (hi_key i))\<rparr>"

lemma sent_item_distinct: "distinct (map hi_key items) \<Longrightarrow> i \<in> set items \<Longrightarrow> sent_item items i = i"
proof (induction items)
  case (Cons j items)
  then show ?case by (cases "i = j") (force simp: sent_item_def)+
qed simp

lemma hint_get_loop_hd:
  "hint_get_loop k len items = (case hint_values items k of [] \<Rightarrow> Some (0, []) | v # _ \<Rightarrow> hint_get_loop k len [\<lparr>hi_key = k, hi_value = v\<rparr>])"
  by (induction items) auto

lemma sent_lookup: "hint_get_loop k len (map (sent_item items) items) = hint_get_loop k len items"
proof -
  have "hint_values (map (sent_item items) its) k = map (\<lambda>_. hd (hint_values items k)) (hint_values its k)" for its
    by (induction its) (auto simp: sent_item_def)
  then show ?thesis unfolding hint_get_loop_hd [of k len items] hint_get_loop_hd [of k len "map (sent_item items) items"]
    by (cases "hint_values items k") auto
qed

lemma hint_nth_loop_nth: "i < length items \<Longrightarrow> hint_nth_loop (n + int i) n items = Some (items ! i)"
proof (induction items arbitrary: i n)
  case (Cons x items)
  then show ?case using Cons.IH [of "i - 1" "n + 1"] by (cases i) (auto simp: algebra_simps)
qed simp

lemma sent_item_ok:
  assumes "list_all string_hint items" "i \<in> set items"
  shows "string_hint (sent_item items i)" "\<exists>vs. hint_values items (hi_key i) = hi_value (sent_item items i) # vs"
proof -
  obtain j js where f: "filter (\<lambda>j. hi_key j = hi_key i) items = j # js"
    using assms(2) by (cases "filter (\<lambda>j. hi_key j = hi_key i) items") (auto simp: filter_empty_conv)
  then have j: "j \<in> set items" "hi_key j = hi_key i" using filter_eq_Cons_iff [of "\<lambda>j. hi_key j = hi_key i" items j js] by auto
  show "\<exists>vs. hint_values items (hi_key i) = hi_value (sent_item items i) # vs" using f by (simp add: hint_values_def sent_item_def)
  show "string_hint (sent_item items i)" using assms(1) j f by (auto simp: list_all_iff string_hint_def sent_item_def hint_values_def)
qed

lemma string_value:
  assumes "string_hint i"
  shows "takeWhile (\<lambda>b. b \<noteq> 0) (hi_value i) = butlast (hi_value i)" "0 \<in> set (hi_value i)" "hi_value i = butlast (hi_value i) @ [0]"
proof -
  have l: "hi_value i \<noteq> []" "last (hi_value i) = 0" "c_string (butlast (hi_value i))" using assms by (auto simp: string_hint_def)
  show a: "hi_value i = butlast (hi_value i) @ [0]" using append_butlast_last_id [OF l(1)] l(2) by simp
  show "0 \<in> set (hi_value i)" using l last_in_set by force
  have "takeWhile (\<lambda>b. b \<noteq> 0) (butlast (hi_value i) @ [0]) = butlast (hi_value i)" using l(3) by (subst takeWhile_append2) auto
  then show "takeWhile (\<lambda>b. b \<noteq> 0) (hi_value i) = butlast (hi_value i)" using a by simp
qed

lemma hint_fields_ok:
  assumes "hp_objs h (oh_list hint) = Some items" "list_all string_hint items" "i < length items"
  shows "hint_fields hint (int i) h = (let s = sent_item items (items ! i) in
    Some (int (length (hi_key s)) + 1, hi_key s, int (length (hi_value s)), butlast (hi_value s)))"
proof -
  let ?s = "sent_item items (items ! i)"
  have m: "items ! i \<in> set items" using assms(3) by simp
  obtain vs where v: "hint_values items (hi_key (items ! i)) = hi_value ?s # vs" using sent_item_ok(2) [OF assms(2) m] by blast
  have c: "c_str (hi_value ?s) = Some (butlast (hi_value ?s))"
    using string_value [OF sent_item_ok(1) [OF assms(2) m]] by (simp add: c_str_def)
  have k: "hi_key ?s = hi_key (items ! i)" by (simp add: sent_item_def)
  show ?thesis using assms(1) hint_nth_loop_nth [OF assms(3), of 0] v c k
    by (simp add: hint_fields_def Let_def zoidfs_hint_get_nthkeylen_def zoidfs_hint_get_nthkey_def zoidfs_hint_get_valuelen_def
      zoidfs_hint_get_def heap_read_def hint_valuelen_values hint_get_values)
qed

definition with_items :: "op_hint \<Rightarrow> hint_item list \<Rightarrow> hint_heap \<Rightarrow> hint_heap" where
  "with_items hint items h = h\<lparr>hp_objs := (hp_objs h)(oh_list hint \<mapsto> items)\<rparr>"

lemma with_items_simps [simp]:
  "hp_objs (with_items hint items h) (oh_list hint) = Some items"
  "with_items hint items2 (with_items hint items h) = with_items hint items2 h"
  by (simp_all add: with_items_def)

lemma sint_word_small: "n < 2 ^ 31 \<Longrightarrow> sint (word_of_int (int n) :: u32) = int n"
  using sint_small [of n] by simp

lemma sint_word_Suc: "n < 2147483647 \<Longrightarrow> sint (word_of_int (int n + 1) :: u32) = int n + 1"
  using sint_word_small [of "Suc n"] by (simp add: add.commute)

lemma codes_then:
  assumes "codes outp inp w r a" "\<And>g. k a g = Some (v, g)"
  shows "codes outp inp w (\<lambda>g. Option.bind (r g) (\<lambda>(x, g1). k x g1)) v"
proof -
  have "k a = (\<lambda>g. Some (v, g))" using assms(2) by (simp add: fun_eq_iff)
  then have "codes outp inp Some (k a) v" using codes_nil [of outp inp v] by simp
  from codes_bind [where k = k, OF assms(1) this] show ?thesis by simp
qed

lemma hint_bytes_string: "hint_bytes (s @ 0 # t) (int (Suc (length s))) = s @ [0]"
  by (simp add: hint_bytes_def nat_add_distrib)

context codec
begin

lemma hint_item:
  assumes "hp_objs h (oh_list hint) = Some items" "list_all string_hint items" "i < length items"
    and d: "hp_objs hr (oh_list to) = Some ys"
  shows "codes outp inp (w_hint_item E hint (int i) h) (r_hint_item D junk to hr) (with_items to (ys @ [sent_item items (items ! i)]) hr)"
proof -
  let ?s = "sent_item items (items ! i)"
  let ?k = "hi_key ?s" and ?v = "hi_value ?s"
  have ok: "string_hint ?s" using sent_item_ok(1) [OF assms(2)] assms(3) by simp
  note o = ok [unfolded string_hint_def]
  have kl: "sint (word_of_int (int (length ?k) + 1) :: u32) = int (length ?k) + 1" by (rule sint_word_Suc) (use o in linarith)
  have vl: "sint (word_of_int (int (length ?v)) :: u32) = int (length ?v)" by (rule sint_word_small) (use o in simp)
  have lv: "length ?v = Suc (length (butlast ?v))" using o by (cases ?v) auto
  let ?buf = "butlast ?v @ 0 # map junk [0..<length ?v - length (butlast ?v)]"
  have b: "hint_bytes ?buf (int (length ?v)) = ?v"
    by (simp only: lv hint_bytes_string string_value(3) [OF ok, symmetric])
  have set: "zoidfs_hint_set to (Some ?k) (Some ?buf) (int (length ?v)) hr = Some (0, with_items to (ys @ [?s]) hr)"
  proof -
    have "hint_op_ok (HSet ?k ?buf (int (length ?v)))" using o by (simp add: hint_op_ok_def)
    moreover have "\<lparr>hi_key = ?k, hi_value = ?v\<rparr> = ?s" by (cases ?s) simp
    ultimately show ?thesis using hint_set_ok [OF d] unfolding with_items_def by (simp only: b)
  qed
  have key: "codes outp inp (e_string E ?k (nat (int (length ?k) + 1))) (d_string D (nat (int (length ?k) + 1))) ?k"
    using o by (intro string) auto
  have val: "codes outp inp (e_string E (butlast ?v) (length ?v)) (d_string D (length ?v)) (butlast ?v)"
    using o by (intro string) auto
  have r4: "codes outp inp (e_string E (butlast ?v) (length ?v)) (\<lambda>g. Option.bind (d_string D (length ?v) g) (\<lambda>(value, g).
      Option.bind (zoidfs_hint_set to (Some ?k) (Some (value @ 0 # map junk [0..<length ?v - length value])) (int (length ?v)) hr)
        (\<lambda>(ret, h1). Some (h1, g)))) (with_items to (ys @ [?s]) hr)"
    by (rule codes_then [OF val]) (simp only: set bind.bind_lunit prod.case)
  let ?R = "\<lambda>key g. Option.bind (d_int32 D g) (\<lambda>(value_len, g). Option.bind (assert_that (0 \<le> sint value_len \<and> sint value_len < 2147483647))
        (\<lambda>_. Option.bind (d_string D (nat (sint value_len)) g) (\<lambda>(value, g).
          Option.bind (zoidfs_hint_set to (Some key) (Some (value @ 0 # map junk [0..<nat (sint value_len) - length value])) (sint value_len) hr)
        (\<lambda>(ret, h1). Some (h1, g)))))"
  have r3: "codes outp inp (\<lambda>f. Option.bind (e_int32 E (word_of_int (int (length ?v))) f) (e_string E (butlast ?v) (length ?v)))
      (?R ?k) (with_items to (ys @ [?s]) hr)"
    by (rule codes_bind [OF int32]) (use r4 o in \<open>simp add: vl [simplified]\<close>)
  note r2 = codes_bind [where k = ?R, OF key r3]
  have w: "w_hint_item E hint (int i) h = (\<lambda>f. Option.bind (e_int32 E (word_of_int (int (length ?k) + 1)) f)
      (\<lambda>f. Option.bind (e_string E ?k (nat (int (length ?k) + 1)) f)
        (\<lambda>f. Option.bind (e_int32 E (word_of_int (int (length ?v))) f) (e_string E (butlast ?v) (length ?v)))))"
    using hint_fields_ok [OF assms(1-3)] by (simp add: w_hint_item_def [abs_def] Let_def)
  have kk: "0 \<le> int (length ?k) + 1 \<and> int (length ?k) + 1 < 2147483647" using o by linarith
  show ?thesis unfolding w r_hint_item_def Let_def
    by (rule codes_bind [OF int32]) (use r2 kk in \<open>simp add: kl [simplified]\<close>)
qed

lemma hint_items:
  assumes "hp_objs h (oh_list hint) = Some items" "list_all string_hint items"
  shows "\<lbrakk>i + n = length items; hp_objs hr (oh_list to) = Some ys\<rbrakk> \<Longrightarrow>
    codes outp inp (w_hint_items E hint (int i) n h) (r_hint_items D junk to n hr)
      (with_items to (ys @ map (sent_item items) (drop i items)) hr)"
proof (induction n arbitrary: i hr ys)
  case 0
  have "with_items to ys hr = hr" using 0 by (cases hr) (auto simp: with_items_def)
  moreover have "w_hint_items E hint (int i) 0 h = Some" "r_hint_items D junk to 0 hr = (\<lambda>g. Some (hr, g))" by (simp_all add: fun_eq_iff)
  ultimately show ?case using 0 codes_nil by simp
next
  case (Suc n)
  let ?s = "sent_item items (items ! i)"
  let ?h = "with_items to (ys @ [?s]) hr"
  have i: "i < length items" using Suc.prems(1) by simp
  have tl: "codes outp inp (w_hint_items E hint (int i + 1) n h) (r_hint_items D junk to n ?h)
      (with_items to (ys @ map (sent_item items) (drop i items)) hr)"
    using Suc.IH [of "Suc i" ?h "ys @ [?s]"] Suc.prems(1) Cons_nth_drop_Suc [OF i, symmetric] by (simp add: add.commute)
  have "codes outp inp (\<lambda>f. Option.bind (w_hint_item E hint (int i) h f) (w_hint_items E hint (int i + 1) n h))
      (\<lambda>g. Option.bind (r_hint_item D junk to hr g) (\<lambda>(h1, g1). r_hint_items D junk to n h1 g1))
      (with_items to (ys @ map (sent_item items) (drop i items)) hr)"
    by (rule codes_bind [where k = "r_hint_items D junk to n", OF hint_item [OF assms i Suc.prems(2)] tl])
  moreover have "w_hint_items E hint (int i) (Suc n) h = (\<lambda>f. Option.bind (w_hint_item E hint (int i) h f) (w_hint_items E hint (int i + 1) n h))"
    "r_hint_items D junk to (Suc n) hr = (\<lambda>g. Option.bind (r_hint_item D junk to hr g) (\<lambda>(h1, g1). r_hint_items D junk to n h1 g1))"
    by (simp_all add: fun_eq_iff)
  ultimately show ?case by (simp only:)
qed

lemma op_hint:
  assumes "hp_objs h (oh_list (ohh_op_hint x)) = Some items" "list_all string_hint items" "length items < 2 ^ 31"
    and "\<not> ohh_readonly y" "oh_copy (ohh_op_hint y)" "hp_objs hr (oh_list (ohh_op_hint y)) = Some ys"
  shows "codes outp inp (w_OpHintHelper E x h) (r_OpHintHelper D junk y hr)
    (with_items (ohh_op_hint y) (ys @ map (sent_item items) items) hr)"
proof -
  let ?n = "length items" and ?to = "ohh_op_hint y"
  let ?v = "with_items ?to (ys @ map (sent_item items) items) hr"
  have n: "sint (word_of_int (int ?n) :: u32) = int ?n" by (rule sint_word_small [OF assms(3)])
  let ?k = "\<lambda>valid g. if valid \<noteq> 0
     then Option.bind (d_int32 D g) (\<lambda>(size, g). Option.bind (assert_that (sint size > 0)) (\<lambda>_. r_hint_items D junk ?to (nat (sint size)) hr g))
     else Option.bind (zoidfs_hint_free (Some ?to) hr) (\<lambda>(ret, h1). Some (h1, g))"
  have r: "r_OpHintHelper D junk y hr = (\<lambda>g. Option.bind (d_int32 D g) (\<lambda>(valid, g). ?k valid g))"
    using assms(4) by (simp add: r_OpHintHelper_def fun_eq_iff)
  show ?thesis
  proof (cases "items = []")
    case True
    have "?v = hr" using True assms(6) by (cases hr) (auto simp: with_items_def)
    moreover have "w_OpHintHelper E x h = e_int32 E 0"
      using assms(1) True by (simp add: w_OpHintHelper_def [abs_def] zoidfs_hint_get_nkeys_def heap_read_def)
    moreover have "codes outp inp (e_int32 E 0) (\<lambda>g. Option.bind (d_int32 D g) (\<lambda>(valid, g). ?k valid g)) hr"
      by (rule codes_then [OF int32]) (use assms(5) in \<open>simp add: zoidfs_hint_free_def\<close>)
    ultimately show ?thesis unfolding r by simp
  next
    case False
    then have pos: "0 < ?n" by simp
    have w: "w_OpHintHelper E x h = (\<lambda>f. Option.bind (e_int32 E 1 f) (\<lambda>f. Option.bind (e_int32 E (word_of_int (int ?n)) f)
        (w_hint_items E (ohh_op_hint x) 0 ?n h)))"
      using assms(1,3) False by (simp add: w_OpHintHelper_def [abs_def] zoidfs_hint_get_nkeys_def heap_read_def)
    have its: "codes outp inp (w_hint_items E (ohh_op_hint x) 0 ?n h) (r_hint_items D junk ?to ?n hr) ?v"
      using hint_items [OF assms(1,2), of 0 ?n hr ?to ys] assms(6) by simp
    have "codes outp inp (\<lambda>f. Option.bind (e_int32 E (word_of_int (int ?n)) f) (w_hint_items E (ohh_op_hint x) 0 ?n h))
        (\<lambda>g. Option.bind (d_int32 D g) (\<lambda>(size, g). Option.bind (assert_that (sint size > 0))
          (\<lambda>_. r_hint_items D junk ?to (nat (sint size)) hr g))) ?v"
      by (rule codes_bind [OF int32]) (use its pos in \<open>simp add: n [simplified]\<close>)
    then show ?thesis unfolding w r by (intro codes_bind [OF int32]) simp
  qed
qed

end

lemma OpHintHelper_ok:
  assumes "new_OpHintHelper hint h = Some (y, h')" "heap_ok h"
  shows "y = \<lparr>ohh_op_hint = \<lparr>oh_list = oh_list hint, oh_copy = True\<rparr>, ohh_readonly = False\<rparr>"
    "\<exists>a. hp_objs h a = None \<and> hp_objs h' = (hp_objs h)(a \<mapsto> [])"
proof -
  obtain new h1 where n: "zoidfs_hint_create True h = (0, Some new, h1)"
    by (cases "heap_new ([] :: hint_item list) h") (simp add: zoidfs_hint_create_def)
  then have "h' = h1" and y: "y = \<lparr>ohh_op_hint = \<lparr>oh_list = oh_list hint, oh_copy = True\<rparr>, ohh_readonly = False\<rparr>"
    using assms(1) by (auto simp: new_OpHintHelper_def zoidfs_hint_copy_def)
  then show "\<exists>a. hp_objs h a = None \<and> hp_objs h' = (hp_objs h)(a \<mapsto> [])" using hint_create_ok(2,3) [OF n assms(2)] by blast
  show "y = \<lparr>ohh_op_hint = \<lparr>oh_list = oh_list hint, oh_copy = True\<rparr>, ohh_readonly = False\<rparr>" by (rule y)
qed

text \<open>The list that the constructor of a helper for a non-constant hint creates is never freed.\<close>

lemma op_hint_helper_leaks:
  assumes "new_OpHintHelper hint h = Some (y, h1)" "heap_ok h" "delete_OpHintHelper y h1 = Some h2"
  shows "\<exists>a. hp_objs h a = None \<and> hp_objs h2 a = Some []"
  using OpHintHelper_ok [OF assms(1,2)] assms(3) by (auto simp: delete_OpHintHelper_def zoidfs_hint_free_def)

text \<open>The helper for a constant hint is defined only on a hint without items.\<close>

lemma op_hint_helper_const_undefined:
  assumes "heap_read h (oh_list hint) = Some (i # items)" "heap_ok h"
  shows "new_OpHintHelper_const hint h = None"
proof -
  obtain new h1 where n: "zoidfs_hint_create True h = (0, Some new, h1)"
    by (cases "heap_new ([] :: hint_item list) h") (simp add: zoidfs_hint_create_def)
  have "heap_read h1 (oh_list hint) = Some (i # items)" using hint_create_ok(2,3) [OF n assms(2)] assms(1) by (auto simp: heap_read_def)
  then show ?thesis using n by (simp add: new_OpHintHelper_const_def zoidfs_hint_dup_def indeterminate_def)
qed

text \<open>
  (C19) A hint arrives as it was sent. Over every XDR library that follows the standard, when the client's
  helper encodes a hint whose keys and values are strings and the server decodes it with a helper on its own
  empty hint, every key then has there the value it has on the client, whatever uninitialised bytes the server's
  buffers held; with one setting for each key the two lists are equal.
\<close>

theorem op_hint_roundtrip:
  assumes "xdr_library E D outp inp room"
    and "heap_read hs (oh_list (ohh_op_hint x)) = Some items" "list_all string_hint items" "length items < 2 ^ 31"
    and "w_OpHintHelper (XDRWriter E) x hs f = Some f'" "outp f = []" "inp g = Some (outp f')"
    and "zoidfs_hint_create True h0 = (ret, Some hint, h1)" "heap_ok h0" "new_OpHintHelper hint h1 = Some (y, h2)"
  shows "\<exists>h3 items' g'. r_OpHintHelper (XDRReader D) junk y h2 g = Some (h3, g') \<and> inp g' = Some [] \<and>
    heap_read h3 (oh_list hint) = Some items' \<and> (\<forall>k. hint_get_loop k len items' = hint_get_loop k len items) \<and>
    (distinct (map hi_key items) \<longrightarrow> items' = items)"
proof -
  let ?sent = "map (sent_item items) items"
  note c = hint_create_ok [OF assms(8,9)]
  have y: "ohh_op_hint y = \<lparr>oh_list = oh_list hint, oh_copy = True\<rparr>" "\<not> ohh_readonly y"
    "hp_objs h2 (oh_list hint) = Some []"
    using OpHintHelper_ok [OF assms(10) c(1)] c(3) by auto
  have "codes outp inp (w_OpHintHelper (XDRWriter E) x hs) (r_OpHintHelper (XDRReader D) junk y h2)
      (with_items (ohh_op_hint y) ([] @ ?sent) h2)"
    using assms(2-4) y by (intro codec.op_hint [OF xdr_library.codec_server [OF assms(1)]]) (auto simp: heap_read_def)
  from codes_all [OF this assms(5,6,7)] obtain g' where
    g': "r_OpHintHelper (XDRReader D) junk y h2 g = Some (with_items (ohh_op_hint y) ?sent h2, g')" "inp g' = Some []" by auto
  moreover have "heap_read (with_items (ohh_op_hint y) ?sent h2) (oh_list hint) = Some ?sent" using y(1) by (simp add: heap_read_def with_items_def)
  moreover have "hint_get_loop k len ?sent = hint_get_loop k len items" for k by (rule sent_lookup)
  moreover have "?sent = items" if "distinct (map hi_key items)" using sent_item_distinct [OF that] by (simp add: map_idI)
  ultimately show ?thesis by blast
qed

theorem op_hint_roundtrip_witness:
  "\<exists>hs x hint f h1 y h2. w_OpHintHelper (XDRWriter rfc_E) x hs \<lparr>xm_data = [], xm_room = 100\<rparr> = Some f \<and>
    zoidfs_hint_create True empty_heap = (0, Some hint, h1) \<and> new_OpHintHelper hint h1 = Some (y, h2) \<and>
    (\<exists>h3 g. r_OpHintHelper (XDRReader rfc_D) (\<lambda>_. 7) y h2 (xm_data f) = Some (h3, g) \<and>
      heap_read h3 (oh_list hint) = Some [\<lparr>hi_key = [107], hi_value = [97, 98, 0]\<rparr>, \<lparr>hi_key = [108], hi_value = [99, 0]\<rparr>])"
proof -
  let ?items = "[\<lparr>hi_key = [107], hi_value = [97, 98, 0]\<rparr>, \<lparr>hi_key = [108], hi_value = [99, 0]\<rparr>]"
  obtain hint h1 where c: "zoidfs_hint_create True empty_heap = (0, Some hint, h1)"
    by (cases "heap_new ([] :: hint_item list) empty_heap") (simp add: zoidfs_hint_create_def)
  let ?hs = "empty_heap\<lparr>hp_objs := [1 \<mapsto> ?items]\<rparr>"
  obtain y h2 where y: "new_OpHintHelper hint h1 = Some (y, h2)"
    by (cases "heap_new ([] :: hint_item list) h1") (simp add: new_OpHintHelper_def zoidfs_hint_copy_def zoidfs_hint_create_def)
  let ?x = "\<lparr>ohh_op_hint = \<lparr>oh_list = 1, oh_copy = False\<rparr>, ohh_readonly = False\<rparr>"
  have "w_OpHintHelper (XDRWriter rfc_E) ?x ?hs \<lparr>xm_data = [], xm_room = 100\<rparr> \<noteq> None"
    by code_simp
  then obtain f where f: "w_OpHintHelper (XDRWriter rfc_E) ?x ?hs \<lparr>xm_data = [], xm_room = 100\<rparr> = Some f" by auto
  have r: "heap_read ?hs (oh_list (ohh_op_hint ?x)) = Some ?items" by (simp add: heap_read_def)
  have "list_all string_hint ?items" "length ?items < 2 ^ 31" by (simp_all add: string_hint_def)
  from op_hint_roundtrip [OF rfc.xdr_library_axioms r this f _ _ c heap_ok_empty y, of "xm_data f" "\<lambda>_. 7" 10]
  obtain h3 g where "r_OpHintHelper (XDRReader rfc_D) (\<lambda>_. 7) y h2 (xm_data f) = Some (h3, g)" "heap_read h3 (oh_list hint) = Some ?items"
    by auto
  with c y f show ?thesis by (intro exI conjI)
qed

end
