(* ===== verification/Sm_Slots.thy ===== *)
theory Sm_Slots
  imports Iofsl_Prelude
begin

text \<open>
  State machines and their callback slots (\<open>src/sm/SimpleSM.hh\<close>, \<open>src/sm/SimpleSlots.hh\<close>,
  \<open>src/sm/SMManager.cpp\<close>). A state machine is an object with a next method to run; it sleeps by
  handing a slot to an asynchronous operation as its callback and naming the method to resume at.
  Methods are values of a type \<open>'m\<close>. The object is reference counted: every armed slot and every work
  unit in the thread pool holds a reference, and the last one destroys it. Each operation takes the
  lock of its slot or of the state machine, so it is one atomic function here; \<open>None\<close> is a failed
  assertion or a use of a destroyed object.
\<close>

datatype SlotStatus = FREE | WAITING | COMPLETED

record 'm Slot =
  sl_status :: SlotStatus
  sl_next :: "'m option"
  sl_exception :: cb_exception

record 'm sm =
  sm_slots :: "'m Slot list"
  sm_next :: "'m option"
  sm_next_status :: cb_exception
  sm_yield :: bool
  sm_running :: bool
  sm_refs :: nat
  sm_alive :: bool
  sm_queued :: nat

definition new_Slot :: "'m Slot" where
  "new_Slot = \<lparr>sl_status = FREE, sl_next = None, sl_exception = CB_None\<rparr>"

definition sm_set_slot :: "nat \<Rightarrow> 'm Slot \<Rightarrow> ('m, 'z) sm_scheme \<Rightarrow> ('m, 'z) sm_scheme" where
  "sm_set_slot pos x s = s\<lparr>sm_slots := (sm_slots s)[pos := x]\<rparr>"

text \<open>\<open>setNextMethod\<close>, and the constructor's call of it on \<open>init\<close>.\<close>

definition setNextMethod :: "'m \<Rightarrow> cb_exception \<Rightarrow> ('m, 'z) sm_scheme \<Rightarrow> ('m, 'z) sm_scheme" where
  "setNextMethod n status s = s\<lparr>sm_next := Some n, sm_next_status := status\<rparr>"

text \<open>References: dropping the last one runs the destructors of the state machine and of its slots.\<close>

definition sm_addref :: "('m, 'z) sm_scheme \<Rightarrow> ('m, 'z) sm_scheme option" where
  "sm_addref s = do { assert_that (sm_alive s); Some (s\<lparr>sm_refs := sm_refs s + 1\<rparr>) }"

definition sm_destroy :: "('m, 'z) sm_scheme \<Rightarrow> ('m, 'z) sm_scheme option" where
  "sm_destroy s = do {
     assert_that (\<not> sm_running s);
     assert_that (\<forall>x \<in> set (sm_slots s). sl_status x = FREE \<and> \<not> hasException (sl_exception x));
     Some (s\<lparr>sm_alive := False\<rparr>)
   }"

definition sm_release :: "('m, 'z) sm_scheme \<Rightarrow> ('m, 'z) sm_scheme option" where
  "sm_release s = do {
     assert_that (sm_alive s \<and> sm_refs s > 0);
     let s1 = s\<lparr>sm_refs := sm_refs s - 1\<rparr>;
     if sm_refs s1 = 0 then sm_destroy s1 else Some s1
   }"

text \<open>\<open>SMManager::schedule\<close>: the work unit keeps the machine alive.\<close>

definition sm_schedule :: "('m, 'z) sm_scheme \<Rightarrow> ('m, 'z) sm_scheme option" where
  "sm_schedule s = do { s1 \<leftarrow> sm_addref s; Some (s1\<lparr>sm_queued := sm_queued s1 + 1\<rparr>) }"

text \<open>
  \<open>resumeSM\<close>. It waits for a machine that is still running; the model resumes only when it is not,
  which is the moment the wait ends.
\<close>

definition resumeSM :: "'m \<Rightarrow> cb_exception \<Rightarrow> ('m, 'z) sm_scheme \<Rightarrow> ('m, 'z) sm_scheme option" where
  "resumeSM n status s = do {
     assert_that (sm_alive s \<and> \<not> sm_running s);
     assert_that (sm_next s = None);
     sm_schedule (setNextMethod n status s)
   }"

text \<open>\<open>operator []\<close>: arm a slot, to be used as the callback of one operation.\<close>

definition slots_arm :: "nat \<Rightarrow> ('m, 'z) sm_scheme \<Rightarrow> ('m, 'z) sm_scheme option" where
  "slots_arm pos s = do {
     assert_that (sm_alive s \<and> pos < length (sm_slots s));
     let x = sm_slots s ! pos;
     assert_that (sl_status x = FREE);
     assert_that (\<not> hasException (sl_exception x));
     sm_addref (sm_set_slot pos (x\<lparr>sl_status := WAITING, sl_next := None\<rparr>) s)
   }"

definition slots_wait :: "nat \<Rightarrow> 'm \<Rightarrow> ('m, 'z) sm_scheme \<Rightarrow> ('m, 'z) sm_scheme option" where
  "slots_wait pos next s = do {
     assert_that (sm_alive s \<and> pos < length (sm_slots s));
     let x = sm_slots s ! pos;
     assert_that (sl_next x = None);
     assert_that (sl_status x \<noteq> FREE);
     Some (if sl_status x = WAITING then sm_set_slot pos (x\<lparr>sl_next := Some next\<rparr>) s
       else setNextMethod next (sl_exception x)
         (sm_set_slot pos (x\<lparr>sl_status := FREE, sl_exception := CB_None\<rparr>) s))
   }"

definition slots_callback :: "nat \<Rightarrow> cb_exception \<Rightarrow> ('m, 'z) sm_scheme \<Rightarrow> ('m, 'z) sm_scheme option" where
  "slots_callback pos e s = do {
     assert_that (sm_alive s \<and> pos < length (sm_slots s));
     let x = sm_slots s ! pos;
     assert_that (sl_status x = WAITING);
     (case sl_next x of
        Some n \<Rightarrow> resumeSM n e (sm_set_slot pos (x\<lparr>sl_next := None, sl_status := FREE\<rparr>) s)
      | None \<Rightarrow> Some (sm_set_slot pos (x\<lparr>sl_status := COMPLETED, sl_exception := e\<rparr>) s))
   }"

definition callbackhelper :: "nat \<Rightarrow> cb_exception \<Rightarrow> ('m, 'z) sm_scheme \<Rightarrow> ('m, 'z) sm_scheme option" where
  "callbackhelper pos e s = do { s1 \<leftarrow> slots_callback pos e s; sm_release s1 }"

text \<open>
  \<open>execute\<close>, cut at the points where it does not hold the state lock: the start, one method, the
  end. A method that throws ends the program, because nothing above \<open>execute\<close> catches. The machine
  stops when no next method is set, or when it yields, in which case \<open>execute\<close> returns true and is
  called again.
\<close>

definition exec_start :: "('m, 'z) sm_scheme \<Rightarrow> ('m, 'z) sm_scheme option" where
  "exec_start s = do {
     assert_that (sm_alive s \<and> sm_next s \<noteq> None);
     assert_that (\<not> sm_running s);
     Some (s\<lparr>sm_running := True\<rparr>)
   }"

definition exec_method ::
  "('m \<Rightarrow> cb_exception \<Rightarrow> ('m, 'z) sm_scheme \<Rightarrow> ('m, 'z) sm_scheme option) \<Rightarrow> ('m, 'z) sm_scheme \<Rightarrow> ('m, 'z) sm_scheme option" where
  "exec_method call s = do {
     assert_that (sm_alive s \<and> sm_running s);
     n \<leftarrow> sm_next s;
     call n (sm_next_status s) (s\<lparr>sm_next := None, sm_next_status := CB_None\<rparr>)
   }"

definition exec_stops :: "('m, 'z) sm_scheme \<Rightarrow> bool" where
  "exec_stops s \<longleftrightarrow> sm_next s = None \<or> sm_yield s"

definition exec_end :: "('m, 'z) sm_scheme \<Rightarrow> ('m, 'z) sm_scheme option" where
  "exec_end s = do {
     assert_that (\<not> sm_yield s \<or> sm_next s \<noteq> None);
     assert_that (sm_refs s > 0);
     Some (s\<lparr>sm_running := False\<rparr>)
   }"

partial_function (option) exec_loop ::
  "('m \<Rightarrow> cb_exception \<Rightarrow> ('m, 'z) sm_scheme \<Rightarrow> ('m, 'z) sm_scheme option) \<Rightarrow> ('m, 'z) sm_scheme \<Rightarrow> ('m, 'z) sm_scheme option" where
  "exec_loop call s = do {
     s1 \<leftarrow> exec_method call s;
     if exec_stops s1 then exec_end s1 else exec_loop call s1
   }"

definition sm_execute ::
  "('m \<Rightarrow> cb_exception \<Rightarrow> ('m, 'z) sm_scheme \<Rightarrow> ('m, 'z) sm_scheme option) \<Rightarrow> ('m, 'z) sm_scheme \<Rightarrow> ('m, 'z) sm_scheme option" where
  "sm_execute call s = do { s1 \<leftarrow> exec_start s; exec_loop call s1 }"

text \<open>A work unit of \<open>SMManager\<close>: it runs the machine until it does not yield, and drops its reference.\<close>

definition unit_start :: "('m, 'z) sm_scheme \<Rightarrow> ('m, 'z) sm_scheme option" where
  "unit_start s = do { assert_that (sm_queued s > 0); Some (s\<lparr>sm_queued := sm_queued s - 1\<rparr>) }"

partial_function (option) unit_loop ::
  "('m \<Rightarrow> cb_exception \<Rightarrow> ('m, 'z) sm_scheme \<Rightarrow> ('m, 'z) sm_scheme option) \<Rightarrow> ('m, 'z) sm_scheme \<Rightarrow> ('m, 'z) sm_scheme option" where
  "unit_loop call s = do {
     s1 \<leftarrow> sm_execute call s;
     if sm_yield s1 then unit_loop call s1 else sm_release s1
   }"

definition submitWorkUnit ::
  "('m \<Rightarrow> cb_exception \<Rightarrow> ('m, 'z) sm_scheme \<Rightarrow> ('m, 'z) sm_scheme option) \<Rightarrow> ('m, 'z) sm_scheme \<Rightarrow> ('m, 'z) sm_scheme option" where
  "submitWorkUnit call s = do { s1 \<leftarrow> unit_start s; unit_loop call s1 }"

lemmas sm_op_defs = sm_set_slot_def setNextMethod_def sm_addref_def sm_destroy_def sm_release_def sm_schedule_def
  resumeSM_def slots_arm_def slots_wait_def slots_callback_def callbackhelper_def

subsection \<open>A machine that waits for one slot at a time\<close>

text \<open>
  Such a machine uses its first slot only. Between two steps of its environment it is in a method
  body, about to run a method, or asleep until an operation completes and then resuming at a method.
  The references are those of the work unit and of the armed slot.
\<close>

definition waiting_slot :: "'m option \<Rightarrow> 'm Slot" where
  "waiting_slot n = \<lparr>sl_status = WAITING, sl_next = n, sl_exception = CB_None\<rparr>"

definition slots_are :: "'m Slot \<Rightarrow> ('m, 'z) sm_scheme \<Rightarrow> bool" where
  "slots_are x s \<longleftrightarrow> (\<exists>k. sm_slots s = x # replicate k new_Slot)"

definition sm_body :: "('m, 'z) sm_scheme \<Rightarrow> bool" where
  "sm_body s \<longleftrightarrow> sm_alive s \<and> \<not> sm_yield s \<and> slots_are new_Slot s \<and> sm_next s = None \<and>
     sm_running s \<and> sm_queued s = 0 \<and> sm_refs s = 1"

definition sm_at :: "'m \<Rightarrow> ('m, 'z) sm_scheme \<Rightarrow> bool" where
  "sm_at n s \<longleftrightarrow> sm_alive s \<and> \<not> sm_yield s \<and> slots_are new_Slot s \<and> sm_next s = Some n \<and>
     sm_next_status s = CB_None \<and> sm_refs s = 1 \<and> sm_queued s = (if sm_running s then 0 else 1)"

definition sm_asleep :: "'m \<Rightarrow> ('m, 'z) sm_scheme \<Rightarrow> bool" where
  "sm_asleep n s \<longleftrightarrow> sm_alive s \<and> \<not> sm_yield s \<and> slots_are (waiting_slot (Some n)) s \<and> sm_next s = None \<and>
     sm_queued s = 0 \<and> sm_refs s = (if sm_running s then 2 else 1)"

text \<open>The machine after its last method: the slots are free and the object is gone.\<close>

definition sm_dead :: "('m, 'z) sm_scheme \<Rightarrow> bool" where
  "sm_dead s \<longleftrightarrow> \<not> sm_alive s"

text \<open>Where a machine is between two steps: before a method, asleep, after its last method, or destroyed.\<close>

datatype 'm ctl = At 'm | Asleep 'm | Done | Dead

fun sm_ctl :: "'m ctl \<Rightarrow> ('m, 'z) sm_scheme \<Rightarrow> bool" where
  "sm_ctl (At m) s = sm_at m s"
| "sm_ctl (Asleep m) s = sm_asleep m s"
| "sm_ctl Done s = sm_body s"
| "sm_ctl Dead s = (sm_dead s \<and> \<not> sm_running s)"

lemmas sm_state_defs = sm_body_def sm_at_def sm_asleep_def slots_are_def

lemma no_exception [simp]: "\<not> hasException CB_None"
  by (simp add: hasException_def)

lemma slots_free: "slots_are new_Slot s \<Longrightarrow> \<forall>x \<in> set (sm_slots s). sl_status x = FREE \<and> \<not> hasException (sl_exception x)"
  by (auto simp: slots_are_def new_Slot_def hasException_def)

lemma sm_at_set_next: "sm_body s \<Longrightarrow> sm_at n (setNextMethod n CB_None s)"
  by (simp add: sm_state_defs setNextMethod_def)

lemma slots_arm_body:
  assumes "sm_body s"
  shows "\<exists>k. slots_arm 0 s = Some (s\<lparr>sm_slots := waiting_slot None # replicate k new_Slot, sm_refs := 2\<rparr>)"
  using assms by (auto simp: sm_state_defs sm_op_defs new_Slot_def waiting_slot_def hasException_def numeral_2_eq_2)

text \<open>Completing the operation before the wait and after it leads to the same method.\<close>

lemma wait_late:
  assumes "sm_slots s = waiting_slot None # replicate k new_Slot" "sm_alive s" "\<not> sm_yield s" "sm_next s = None"
    "sm_running s" "sm_queued s = 0" "sm_refs s = 2"
  shows "\<exists>xs. slots_wait 0 n s = Some (s\<lparr>sm_slots := xs\<rparr>) \<and> sm_asleep n (s\<lparr>sm_slots := xs\<rparr>)"
  using assms by (auto simp: sm_op_defs sm_state_defs waiting_slot_def)

lemma wait_early:
  assumes "sm_slots s = waiting_slot None # replicate k new_Slot" "sm_alive s" "\<not> sm_yield s" "sm_next s = None"
    "sm_running s" "sm_queued s = 0" "sm_refs s = 2"
  shows "\<exists>xs. do { s1 \<leftarrow> callbackhelper 0 CB_None s; slots_wait 0 n s1 } =
      Some (s\<lparr>sm_slots := xs, sm_refs := 1, sm_next := Some n, sm_next_status := CB_None\<rparr>) \<and>
    sm_at n (s\<lparr>sm_slots := xs, sm_refs := 1, sm_next := Some n, sm_next_status := CB_None\<rparr>)"
  by (rule exI [of _ "new_Slot # replicate k new_Slot"])
    (use assms in \<open>cases s, simp add: sm_op_defs sm_state_defs waiting_slot_def new_Slot_def\<close>)

lemma callback_resumes:
  assumes "sm_asleep n s" "\<not> sm_running s"
  shows "\<exists>xs. callbackhelper 0 CB_None s = Some (s\<lparr>sm_slots := xs, sm_next := Some n, sm_next_status := CB_None,
      sm_queued := 1\<rparr>) \<and>
    sm_at n (s\<lparr>sm_slots := xs, sm_next := Some n, sm_next_status := CB_None, sm_queued := 1\<rparr>)"
proof -
  obtain k where "sm_slots s = waiting_slot (Some n) # replicate k new_Slot" using assms by (auto simp: sm_state_defs)
  then show ?thesis
    by (intro exI [of _ "new_Slot # replicate k new_Slot"])
      (use assms in \<open>cases s, simp add: sm_op_defs sm_state_defs waiting_slot_def new_Slot_def\<close>)
qed

text \<open>The steps of the thread that executes the machine.\<close>

lemma start_at:
  assumes "sm_at n s" "0 < sm_queued s"
  shows "\<exists>s1. unit_start s = Some s1 \<and> exec_start s1 = Some (s\<lparr>sm_queued := 0, sm_running := True\<rparr>) \<and>
    sm_at n (s\<lparr>sm_queued := 0, sm_running := True\<rparr>)"
  using assms by (auto simp: sm_state_defs unit_start_def exec_start_def split: if_splits)

lemma exec_method_at:
  assumes "sm_at n s" "sm_running s"
  shows "exec_method call s = call n CB_None (s\<lparr>sm_next := None, sm_next_status := CB_None\<rparr>)"
    "sm_body (s\<lparr>sm_next := None, sm_next_status := CB_None\<rparr>)"
  using assms by (auto simp: sm_state_defs exec_method_def)

lemma stop_asleep:
  assumes "sm_asleep n s" "sm_running s"
  shows "exec_end s = Some (s\<lparr>sm_running := False\<rparr>)"
    "sm_release (s\<lparr>sm_running := False\<rparr>) = Some (s\<lparr>sm_running := False, sm_refs := 1\<rparr>)"
    "sm_asleep n (s\<lparr>sm_running := False, sm_refs := 1\<rparr>)"
  using assms by (auto simp: sm_state_defs exec_end_def sm_release_def)

lemma stop_dead:
  assumes "sm_body s"
  shows "exec_end s = Some (s\<lparr>sm_running := False\<rparr>)"
    "sm_release (s\<lparr>sm_running := False\<rparr>) = Some (s\<lparr>sm_running := False, sm_refs := 0, sm_alive := False\<rparr>)"
proof -
  show "exec_end s = Some (s\<lparr>sm_running := False\<rparr>)" using assms by (simp add: sm_body_def exec_end_def)
  show "sm_release (s\<lparr>sm_running := False\<rparr>) = Some (s\<lparr>sm_running := False, sm_refs := 0, sm_alive := False\<rparr>)"
    using assms slots_free [of s] by (simp add: sm_body_def sm_release_def sm_destroy_def)
qed

text \<open>
  Apart from its methods and its completions, what such a machine does is the same for all: the thread
  pool starts it at the method it is to run, and stops it when it sleeps or is done.
\<close>

lemma ctl_start:
  assumes "sm_ctl c s" "unit_start s = Some s1" "exec_start s1 = Some s2"
  shows "(\<exists>m. c = At m) \<and> sm_ctl c s2 \<and> s2 = s\<lparr>sm_queued := 0, sm_running := True\<rparr>"
proof -
  have s1: "s1 = s\<lparr>sm_queued := sm_queued s - 1\<rparr>" "0 < sm_queued s"
    using assms(2) by (auto simp: unit_start_def elim!: fault_elims)
  have s2: "s2 = s1\<lparr>sm_running := True\<rparr>" "sm_alive s1" "sm_next s1 \<noteq> None" "\<not> sm_running s1"
    using assms(3) by (auto simp: exec_start_def elim!: fault_elims)
  show ?thesis using assms(1) s1 s2 by (cases c) (auto simp: sm_state_defs sm_dead_def)
qed

lemma ctl_stop:
  assumes "sm_ctl c s" "sm_running s" "exec_stops s" "exec_end s = Some s1" "sm_release s1 = Some s2"
  shows "(\<exists>m. c = Asleep m \<and> sm_ctl c s2 \<and> s2 = s\<lparr>sm_running := False, sm_refs := 1\<rparr>) \<or>
    c = Done \<and> sm_ctl Dead s2 \<and> s2 = s\<lparr>sm_running := False, sm_refs := 0, sm_alive := False\<rparr>"
proof (cases c)
  case (At m)
  then show ?thesis using assms(1,3) by (simp add: sm_at_def exec_stops_def)
next
  case (Asleep m)
  then show ?thesis using assms stop_asleep [of m s] by simp
next
  case Done
  then show ?thesis using assms stop_dead [of s] by (auto simp: sm_dead_def)
next
  case Dead
  then show ?thesis using assms(1,2) by simp
qed

lemma ctl_at: "sm_ctl c s \<Longrightarrow> sm_at m s \<Longrightarrow> c = At m"
  by (cases c) (auto simp: sm_state_defs sm_dead_def new_Slot_def waiting_slot_def)

lemma ctl_next: "sm_ctl c s \<Longrightarrow> sm_running s \<Longrightarrow> sm_next s = Some m \<Longrightarrow> c = At m"
  by (cases c) (auto simp: sm_state_defs)

end
