(* ===== verification/Pipeline_Segments.thy ===== *)
theory Pipeline_Segments
  imports Iofsl_Prelude
begin

text \<open>
  How a pipelined transfer is cut (\<open>computePipelineFileSegments\<close> in
  \<open>src/iofwd/tasksm/WriteTaskSM.cpp\<close> and \<open>src/iofwd/tasksm/ReadTaskSM.cpp\<close>, which have the same
  body). The extents of a request are laid end to end and cut into pipeline buffers of
  \<open>pipeline_size_\<close> bytes; three parallel vectors describe the pieces, and two more say which pieces
  belong to which buffer. Sizes and offsets are 64-bit words, vector indices are natural numbers.
\<close>

record pipe_vecs =
  p_file_sizes :: "u64 list"
  p_file_starts :: "u64 list"
  p_mem_offsets :: "u64 list"
  p_segments :: "nat list"
  p_segments_start :: "nat list"

record pipe_loop = pipe_vecs +
  cur_pipe_ofs :: u64
  cur_file_index :: nat
  num_pipe_segments :: nat
  cur_pipe_buffer_size :: u64
  cur_file_size :: u64
  cur_file_start :: u64
  cur_mem_offset :: u64
  cur_pipe :: nat

definition push_segment :: "u64 \<Rightarrow> pipe_loop \<Rightarrow> pipe_loop option" where
  "push_segment n s = do {
     assert_that (cur_pipe s < length (p_segments s));
     Some (s\<lparr>p_file_sizes := p_file_sizes s @ [n], p_file_starts := p_file_starts s @ [cur_file_start s],
       p_mem_offsets := p_mem_offsets s @ [cur_mem_offset s],
       p_segments := (p_segments s)[cur_pipe s := p_segments s ! cur_pipe s + 1]\<rparr>)
   }"

text \<open>The extent is larger than what is left of the buffer: fill the buffer and open the next one.\<close>

definition seg_fill :: "u64 \<Rightarrow> pipe_loop \<Rightarrow> pipe_loop option" where
  "seg_fill pipeline_size s = do {
     s1 \<leftarrow> push_segment (cur_pipe_buffer_size s) s;
     let n = cur_pipe_buffer_size s1;
     Some (s1\<lparr>cur_file_start := cur_file_start s1 + n, cur_file_size := cur_file_size s1 - n,
       cur_pipe_ofs := cur_pipe_ofs s1 + n, cur_pipe_buffer_size := pipeline_size, cur_pipe := cur_pipe s1 + 1,
       p_segments := p_segments s1 @ [0], cur_mem_offset := 0, num_pipe_segments := num_pipe_segments s1 + 1,
       p_segments_start := p_segments_start s1 @ [num_pipe_segments s1 + 1]\<rparr>)
   }"

text \<open>The buffer takes the rest of the extent.\<close>

definition seg_rest :: "pipe_loop \<Rightarrow> pipe_loop option" where
  "seg_rest s = do {
     s1 \<leftarrow> push_segment (cur_file_size s) s;
     let n = cur_file_size s1;
     Some (s1\<lparr>cur_file_start := cur_file_start s1 + n, cur_pipe_buffer_size := cur_pipe_buffer_size s1 - n,
       cur_pipe_ofs := cur_pipe_ofs s1 + n, cur_mem_offset := cur_mem_offset s1 + n, cur_file_size := 0,
       cur_file_index := cur_file_index s1 + 1, num_pipe_segments := num_pipe_segments s1 + 1\<rparr>)
   }"

partial_function (option) seg_inner :: "u64 \<Rightarrow> pipe_loop \<Rightarrow> pipe_loop option" where
  "seg_inner pipeline_size s =
     (if cur_file_size s > 0
      then do {
        s1 \<leftarrow> (if cur_file_size s > cur_pipe_buffer_size s then seg_fill pipeline_size s else seg_rest s);
        seg_inner pipeline_size s1
      }
      else Some s)"

partial_function (option) seg_outer :: "u64 \<Rightarrow> u64 \<Rightarrow> u64 list \<Rightarrow> u64 list \<Rightarrow> pipe_loop \<Rightarrow> pipe_loop option" where
  "seg_outer pipeline_size total_bytes file_starts file_sizes s =
     (if cur_pipe_ofs s < total_bytes
      then do {
        assert_that (cur_file_index s < length file_sizes \<and> cur_file_index s < length file_starts);
        s1 \<leftarrow> seg_inner pipeline_size (s\<lparr>cur_file_size := file_sizes ! cur_file_index s,
          cur_file_start := file_starts ! cur_file_index s\<rparr>);
        seg_outer pipeline_size total_bytes file_starts file_sizes s1
      }
      else Some s)"

declare seg_inner.simps [code] seg_outer.simps [code]

definition computePipelineFileSegments :: "u64 \<Rightarrow> u64 \<Rightarrow> u64 list \<Rightarrow> u64 list \<Rightarrow> pipe_loop option" where
  "computePipelineFileSegments pipeline_size total_bytes file_starts file_sizes = do {
     assert_that (file_sizes \<noteq> [] \<and> file_starts \<noteq> []);
     seg_outer pipeline_size total_bytes file_starts file_sizes
       \<lparr>p_file_sizes = [], p_file_starts = [], p_mem_offsets = [], p_segments = [0], p_segments_start = [0],
        cur_pipe_ofs = 0, cur_file_index = 0, num_pipe_segments = 0, cur_pipe_buffer_size = pipeline_size,
        cur_file_size = hd file_sizes, cur_file_start = hd file_starts, cur_mem_offset = 0, cur_pipe = 0\<rparr>
   }"

subsection \<open>What the vectors mean\<close>

text \<open>The file positions of an extent, and of the pieces.\<close>

definition ext_bytes :: "u64 \<Rightarrow> u64 \<Rightarrow> u64 list" where
  "ext_bytes st n = map (\<lambda>k. st + of_nat k) [0 ..< unat n]"

definition seg_bytes :: "u64 list \<Rightarrow> u64 list \<Rightarrow> u64 list" where
  "seg_bytes starts sizes = concat (map2 ext_bytes starts sizes)"

text \<open>Pieces that lie end to end in a buffer from offset \<open>k\<close>.\<close>

fun running :: "nat \<Rightarrow> (u64 \<times> u64) list \<Rightarrow> bool" where
  "running k [] \<longleftrightarrow> True"
| "running k ((ofs, n) # xs) \<longleftrightarrow> unat ofs = k \<and> running (k + unat n) xs"

definition piece_sum :: "(u64 \<times> u64) list \<Rightarrow> nat" where
  "piece_sum xs = sum_list (map (unat \<circ> snd) xs)"

definition packed :: "nat \<Rightarrow> (u64 \<times> u64) list \<Rightarrow> bool" where
  "packed n xs \<longleftrightarrow> running 0 xs \<and> piece_sum xs = n"

definition seg_starts :: "'a list list \<Rightarrow> nat list" where
  "seg_starts ps = map (\<lambda>i. length (concat (take i ps))) [0 ..< length ps]"

lemma u64_bound: "unat (x :: u64) < 2 ^ 64"
  using unsigned_less [of x] by simp

lemma running_snoc: "running k (xs @ [(ofs, n)]) \<longleftrightarrow> running k xs \<and> unat ofs = k + piece_sum xs"
  by (induction k xs rule: running.induct) (auto simp: piece_sum_def)

lemma packed_snoc: "packed m xs \<Longrightarrow> unat ofs = m \<Longrightarrow> packed (m + unat n) (xs @ [(ofs, n)])"
  by (simp add: packed_def running_snoc piece_sum_def)

lemma packed_Nil [simp]: "packed n [] \<longleftrightarrow> n = 0"
  by (auto simp: packed_def piece_sum_def)

lemma seg_starts_last: "seg_starts (ps @ [l]) = seg_starts (ps @ [l'])"
  by (simp add: seg_starts_def)

lemma seg_starts_snoc: "seg_starts (ps @ [l]) = seg_starts ps @ [length (concat ps)]"
  by (simp add: seg_starts_def)

lemma ext_bytes_split:
  assumes "m \<le> n"
  shows "ext_bytes st n = ext_bytes st m @ ext_bytes (st + m) (n - m)"
proof -
  have n: "unat n = unat (n - m) + unat m" using assms by (simp add: unat_sub word_le_nat_alt)
  have "[0 ..< unat n] = [0 ..< unat m] @ [unat m ..< unat (n - m) + unat m]"
    unfolding n using upt_add_eq_append [of 0 "unat m" "unat (n - m)"] by (simp add: add.commute)
  also have "[unat m ..< unat (n - m) + unat m] = map (\<lambda>k. k + unat m) [0 ..< unat (n - m)]"
    by (simp only: map_add_upt)
  finally show ?thesis by (simp add: ext_bytes_def comp_def algebra_simps)
qed

lemma ext_bytes_0 [simp]: "ext_bytes st 0 = []"
  by (simp add: ext_bytes_def)

lemma seg_bytes_snoc:
  "length starts = length sizes \<Longrightarrow> seg_bytes (starts @ [st]) (sizes @ [n]) = seg_bytes starts sizes @ ext_bytes st n"
  by (simp add: seg_bytes_def)

subsection \<open>The loops\<close>

text \<open>
  The vectors while the loops run: \<open>full\<close> are the buffers already filled, \<open>lst\<close> is the buffer being
  filled, each as its pieces.
\<close>

definition pipe_shape :: "nat \<Rightarrow> pipe_loop \<Rightarrow> (u64 \<times> u64) list list \<Rightarrow> (u64 \<times> u64) list \<Rightarrow> bool" where
  "pipe_shape P s full lst \<longleftrightarrow> length full = cur_pipe s \<and>
     zip (p_mem_offsets s) (p_file_sizes s) = concat full @ lst \<and>
     p_segments s = map length (full @ [lst]) \<and> p_segments_start s = seg_starts (full @ [lst]) \<and>
     (\<forall>p \<in> set full. packed P p) \<and> packed (unat (cur_mem_offset s)) lst \<and>
     length (p_file_starts s) = num_pipe_segments s \<and> length (p_file_sizes s) = num_pipe_segments s \<and>
     length (p_mem_offsets s) = num_pipe_segments s \<and>
     unat (cur_mem_offset s) + unat (cur_pipe_buffer_size s) = P \<and>
     unat (cur_pipe_ofs s) = cur_pipe s * P + unat (cur_mem_offset s)"

abbreviation done_bytes :: "pipe_loop \<Rightarrow> u64 list" where
  "done_bytes s \<equiv> seg_bytes (p_file_starts s) (p_file_sizes s)"

lemma pipe_shape_num: "pipe_shape P s full lst \<Longrightarrow> length (concat full @ lst) = num_pipe_segments s"
  unfolding pipe_shape_def by (elim conjE) (metis length_zip min.idem)

lemma seg_fill_step:
  assumes "pipe_shape P s full lst" "unat ps = P" "cur_pipe_buffer_size s < cur_file_size s"
    "unat (cur_pipe_ofs s) + unat (cur_file_size s) < 2 ^ 64"
  shows "\<exists>s'. seg_fill ps s = Some s' \<and> pipe_shape P s' (full @ [lst @ [(cur_mem_offset s, cur_pipe_buffer_size s)]]) [] \<and>
    cur_file_size s' = cur_file_size s - cur_pipe_buffer_size s \<and>
    cur_file_start s' = cur_file_start s + cur_pipe_buffer_size s \<and> cur_file_index s' = cur_file_index s \<and>
    cur_pipe_buffer_size s' = ps \<and>
    unat (cur_pipe_ofs s') = unat (cur_pipe_ofs s) + unat (cur_pipe_buffer_size s) \<and>
    done_bytes s' = done_bytes s @ ext_bytes (cur_file_start s) (cur_pipe_buffer_size s)"
proof -
  note sh = assms(1) [unfolded pipe_shape_def]
  let ?b = "cur_pipe_buffer_size s"
  have ofs: "unat (cur_pipe_ofs s + ?b) = unat (cur_pipe_ofs s) + unat ?b"
    using assms(3,4) by (subst unat_add_lem [THEN iffD1]) (auto simp: word_less_nat_alt)
  have pk: "packed P (lst @ [(cur_mem_offset s, ?b)])"
    using packed_snoc [of "unat (cur_mem_offset s)" lst "cur_mem_offset s" ?b] sh by simp
  have num: "length (concat (full @ [lst @ [(cur_mem_offset s, ?b)]])) = num_pipe_segments s + 1"
    using pipe_shape_num [OF assms(1)] by simp
  have st: "p_segments_start s @ [num_pipe_segments s + 1] = seg_starts ((full @ [lst @ [(cur_mem_offset s, ?b)]]) @ [[]])"
    unfolding seg_starts_snoc [of "full @ [lst @ [(cur_mem_offset s, ?b)]]"] num
    using sh seg_starts_last [of full lst "lst @ [(cur_mem_offset s, ?b)]"] by simp
  have sg: "(p_segments s)[cur_pipe s := p_segments s ! cur_pipe s + 1] = map length (full @ [lst @ [(cur_mem_offset s, ?b)]])"
    using sh by (auto simp: list_update_append nth_append)
  have lt: "cur_pipe s < length (p_segments s)" using sh by simp
  define s' where "s' = s\<lparr>p_file_sizes := p_file_sizes s @ [?b], p_file_starts := p_file_starts s @ [cur_file_start s],
      p_mem_offsets := p_mem_offsets s @ [cur_mem_offset s], cur_file_start := cur_file_start s + ?b,
      cur_file_size := cur_file_size s - ?b, cur_pipe_ofs := cur_pipe_ofs s + ?b, cur_pipe_buffer_size := ps,
      cur_pipe := cur_pipe s + 1, p_segments := map length (full @ [lst @ [(cur_mem_offset s, ?b)]]) @ [0],
      cur_mem_offset := 0, num_pipe_segments := num_pipe_segments s + 1,
      p_segments_start := p_segments_start s @ [num_pipe_segments s + 1]\<rparr>"
  have "seg_fill ps s = Some s'"
    using lt sg by (simp add: seg_fill_def push_segment_def s'_def Let_def)
  moreover have "pipe_shape P s' (full @ [lst @ [(cur_mem_offset s, ?b)]]) []"
    unfolding pipe_shape_def using sh pk ofs st assms(2) by (simp add: s'_def)
  moreover have "done_bytes s' = done_bytes s @ ext_bytes (cur_file_start s) ?b"
    using sh by (simp add: s'_def seg_bytes_snoc)
  ultimately show ?thesis using ofs by (intro exI [of _ s']) (simp add: s'_def)
qed

lemma seg_rest_step:
  assumes "pipe_shape P s full lst" "cur_file_size s \<le> cur_pipe_buffer_size s" "unat (ps :: u64) = P"
    "unat (cur_pipe_ofs s) + unat (cur_file_size s) < 2 ^ 64"
  shows "\<exists>s'. seg_rest s = Some s' \<and> pipe_shape P s' full (lst @ [(cur_mem_offset s, cur_file_size s)]) \<and>
    cur_file_size s' = 0 \<and> cur_file_index s' = cur_file_index s + 1 \<and>
    unat (cur_mem_offset s') = unat (cur_mem_offset s) + unat (cur_file_size s) \<and>
    unat (cur_pipe_ofs s') = unat (cur_pipe_ofs s) + unat (cur_file_size s) \<and>
    done_bytes s' = done_bytes s @ ext_bytes (cur_file_start s) (cur_file_size s)"
proof -
  note sh = assms(1) [unfolded pipe_shape_def]
  let ?n = "cur_file_size s"
  have ofs: "unat (cur_pipe_ofs s + ?n) = unat (cur_pipe_ofs s) + unat ?n"
    using assms(4) by (subst unat_add_lem [THEN iffD1]) auto
  have P: "P < 2 ^ 64" using assms(3) u64_bound [of ps] by simp
  have buf: "unat (cur_pipe_buffer_size s - ?n) = unat (cur_pipe_buffer_size s) - unat ?n"
    "unat ?n \<le> unat (cur_pipe_buffer_size s)"
    using assms(2) by (simp_all add: unat_sub word_le_nat_alt)
  have mem: "unat (cur_mem_offset s + ?n) = unat (cur_mem_offset s) + unat ?n"
    using sh P buf(2) by (subst unat_add_lem [THEN iffD1]) auto
  have pk: "packed (unat (cur_mem_offset s + ?n)) (lst @ [(cur_mem_offset s, ?n)])"
    unfolding mem using packed_snoc sh by blast
  have st: "p_segments_start s = seg_starts (full @ [lst @ [(cur_mem_offset s, ?n)]])"
    using sh seg_starts_last [of full lst "lst @ [(cur_mem_offset s, ?n)]"] by simp
  have sg: "(p_segments s)[cur_pipe s := p_segments s ! cur_pipe s + 1] = map length (full @ [lst @ [(cur_mem_offset s, ?n)]])"
    using sh by (auto simp: list_update_append nth_append)
  have lt: "cur_pipe s < length (p_segments s)" using sh by simp
  define s' where "s' = s\<lparr>p_file_sizes := p_file_sizes s @ [?n], p_file_starts := p_file_starts s @ [cur_file_start s],
      p_mem_offsets := p_mem_offsets s @ [cur_mem_offset s], p_segments := map length (full @ [lst @ [(cur_mem_offset s, ?n)]]),
      cur_file_start := cur_file_start s + ?n, cur_pipe_buffer_size := cur_pipe_buffer_size s - ?n,
      cur_pipe_ofs := cur_pipe_ofs s + ?n, cur_mem_offset := cur_mem_offset s + ?n, cur_file_size := 0,
      cur_file_index := cur_file_index s + 1, num_pipe_segments := num_pipe_segments s + 1\<rparr>"
  have "seg_rest s = Some s'"
    using lt sg by (simp add: seg_rest_def push_segment_def s'_def Let_def)
  moreover have "pipe_shape P s' full (lst @ [(cur_mem_offset s, ?n)])"
    unfolding pipe_shape_def using sh pk ofs st buf mem by (simp add: s'_def)
  moreover have "done_bytes s' = done_bytes s @ ext_bytes (cur_file_start s) ?n"
    using sh by (simp add: s'_def seg_bytes_snoc)
  ultimately show ?thesis using ofs mem by (intro exI [of _ s']) (simp add: s'_def)
qed

text \<open>One extent: the inner loop ends and adds exactly the bytes of the extent.\<close>

lemma seg_inner_Some:
  assumes "pipe_shape P s full lst" "unat ps = P" "0 < P" "0 < cur_file_size s"
    "unat (cur_pipe_ofs s) + unat (cur_file_size s) < 2 ^ 64"
  shows "\<exists>s' full' lst'. seg_inner ps s = Some s' \<and> pipe_shape P s' full' lst' \<and> 0 < unat (cur_mem_offset s') \<and>
    cur_file_index s' = cur_file_index s + 1 \<and>
    unat (cur_pipe_ofs s') = unat (cur_pipe_ofs s) + unat (cur_file_size s) \<and>
    done_bytes s' = done_bytes s @ ext_bytes (cur_file_start s) (cur_file_size s)"
  using assms
proof (induction "2 * unat (cur_file_size s) + (if cur_pipe_buffer_size s = 0 then 1 else 0)" arbitrary: s full lst rule: less_induct)
  case less
  let ?n = "cur_file_size s" and ?b = "cur_pipe_buffer_size s"
  show ?case
  proof (cases "?b < ?n")
    case True
    from seg_fill_step [OF less.prems(1,2) True less.prems(5)]
    obtain s1 where 1: "seg_fill ps s = Some s1" "pipe_shape P s1 (full @ [lst @ [(cur_mem_offset s, ?b)]]) []"
      "cur_file_size s1 = ?n - ?b" "cur_file_start s1 = cur_file_start s + ?b" "cur_file_index s1 = cur_file_index s"
      "cur_pipe_buffer_size s1 = ps" "unat (cur_pipe_ofs s1) = unat (cur_pipe_ofs s) + unat ?b"
      "done_bytes s1 = done_bytes s @ ext_bytes (cur_file_start s) ?b"
      by blast
    have n: "unat (?n - ?b) = unat ?n - unat ?b" "unat ?b < unat ?n"
      using True by (simp_all add: unat_sub word_less_nat_alt word_le_nat_alt)
    have pos: "0 < cur_file_size s1" unfolding 1(3) using n by (simp add: word_less_nat_alt)
    have ps0: "ps \<noteq> 0" using less.prems(2,3) by auto
    have "2 * unat (cur_file_size s1) + (if cur_pipe_buffer_size s1 = 0 then 1 else 0) <
        2 * unat ?n + (if ?b = 0 then 1 else 0)"
      unfolding 1(3,6) using n ps0 unat_gt_0 [of ?b] by (simp split: if_split) linarith?
    moreover have "unat (cur_pipe_ofs s1) + unat (cur_file_size s1) < 2 ^ 64" unfolding 1(3,7) using n less.prems(5) by linarith
    ultimately obtain s' full' lst' where 2: "seg_inner ps s1 = Some s'" "pipe_shape P s' full' lst'" "0 < unat (cur_mem_offset s')"
      "cur_file_index s' = cur_file_index s1 + 1" "unat (cur_pipe_ofs s') = unat (cur_pipe_ofs s1) + unat (cur_file_size s1)"
      "done_bytes s' = done_bytes s1 @ ext_bytes (cur_file_start s1) (cur_file_size s1)"
      using less.hyps [OF _ 1(2) less.prems(2,3) pos] by blast
    have "seg_inner ps s = Some s'"
      unfolding seg_inner.simps [of ps s] using less.prems(4) True 1(1) 2(1) by simp
    moreover have "unat (cur_pipe_ofs s') = unat (cur_pipe_ofs s) + unat ?n" unfolding 2(5) 1(3,7) using n by linarith
    moreover have "done_bytes s' = done_bytes s @ ext_bytes (cur_file_start s) ?n"
      unfolding 2(6) 1(3,4,8) using ext_bytes_split [OF less_imp_le [OF True]] by simp
    ultimately show ?thesis using 2(2,3,4) 1(5) by auto
  next
    case False
    then have le: "?n \<le> ?b" by simp
    from seg_rest_step [OF less.prems(1) le less.prems(2,5)]
    obtain s1 where 1: "seg_rest s = Some s1" "pipe_shape P s1 full (lst @ [(cur_mem_offset s, ?n)])" "cur_file_size s1 = 0"
      "cur_file_index s1 = cur_file_index s + 1" "unat (cur_mem_offset s1) = unat (cur_mem_offset s) + unat ?n"
      "unat (cur_pipe_ofs s1) = unat (cur_pipe_ofs s) + unat ?n"
      "done_bytes s1 = done_bytes s @ ext_bytes (cur_file_start s) ?n"
      by blast
    have "seg_inner ps s1 = Some s1" using 1(3) by (subst seg_inner.simps) simp
    then have "seg_inner ps s = Some s1"
      unfolding seg_inner.simps [of ps s] using less.prems(4) False 1(1) by simp
    moreover have "0 < unat ?n" using less.prems(4) by (simp add: word_less_nat_alt)
    then have "0 < unat (cur_mem_offset s1)" unfolding 1(5) by linarith
    ultimately show ?thesis using 1 by blast
  qed
qed

text \<open>All extents.\<close>

lemma seg_outer_Some:
  assumes "pipe_shape P s full lst" "unat ps = P" "0 < P" "length starts = length sizes" "\<forall>n \<in> set sizes. 0 < n"
    "unat (cur_pipe_ofs s) + sum_list (map unat (drop (cur_file_index s) sizes)) = unat tot"
    "cur_file_index s \<le> length sizes" "0 < unat (cur_pipe_ofs s) \<longrightarrow> 0 < unat (cur_mem_offset s)"
  shows "\<exists>s' full' lst'. seg_outer ps tot starts sizes s = Some s' \<and> pipe_shape P s' full' lst' \<and>
    (0 < unat tot \<longrightarrow> 0 < unat (cur_mem_offset s')) \<and> unat (cur_pipe_ofs s') = unat tot \<and>
    done_bytes s' = done_bytes s @ seg_bytes (drop (cur_file_index s) starts) (drop (cur_file_index s) sizes)"
  using assms
proof (induction "length sizes - cur_file_index s" arbitrary: s full lst)
  case 0
  then have "unat (cur_pipe_ofs s) = unat tot" by simp
  then show ?case
    using 0 by (subst seg_outer.simps) (auto simp: word_less_nat_alt seg_bytes_def)
next
  case (Suc k)
  let ?i = "cur_file_index s"
  have i: "?i < length sizes" using Suc.hyps(2) by simp
  have d: "drop ?i sizes = sizes ! ?i # drop (Suc ?i) sizes" "drop ?i starts = starts ! ?i # drop (Suc ?i) starts"
    using i Suc.prems(4) by (simp_all add: Cons_nth_drop_Suc)
  let ?s = "s\<lparr>cur_file_size := sizes ! ?i, cur_file_start := starts ! ?i\<rparr>"
  have pos: "0 < sizes ! ?i" using i Suc.prems(5) by simp
  have sum: "unat (cur_pipe_ofs s) + unat (sizes ! ?i) + sum_list (map unat (drop (Suc ?i) sizes)) = unat tot"
    using Suc.prems(6) d(1) by simp
  have lt: "cur_pipe_ofs s < tot" using sum unat_gt_0 [of "sizes ! ?i"] pos by (simp add: word_less_nat_alt word_gt_0)
  have "pipe_shape P ?s full lst" using Suc.prems(1) by (simp add: pipe_shape_def)
  moreover have "0 < cur_file_size ?s" using pos by simp
  moreover have "unat (cur_pipe_ofs ?s) + unat (cur_file_size ?s) < 2 ^ 64"
    using sum u64_bound [of tot] by simp
  ultimately obtain s1 full1 lst1 where 1: "seg_inner ps ?s = Some s1" "pipe_shape P s1 full1 lst1" "0 < unat (cur_mem_offset s1)"
    "cur_file_index s1 = Suc ?i" "unat (cur_pipe_ofs s1) = unat (cur_pipe_ofs s) + unat (sizes ! ?i)"
    "done_bytes s1 = done_bytes s @ ext_bytes (starts ! ?i) (sizes ! ?i)"
    using seg_inner_Some [OF _ Suc.prems(2,3), of ?s full lst] by auto
  have "\<exists>s' full' lst'. seg_outer ps tot starts sizes s1 = Some s' \<and> pipe_shape P s' full' lst' \<and>
    (0 < unat tot \<longrightarrow> 0 < unat (cur_mem_offset s')) \<and> unat (cur_pipe_ofs s') = unat tot \<and>
    done_bytes s' = done_bytes s1 @ seg_bytes (drop (cur_file_index s1) starts) (drop (cur_file_index s1) sizes)"
    by (rule Suc.hyps(1) [OF _ 1(2) Suc.prems(2-5)]) (use Suc.hyps(2) 1(3-5) sum i in auto)
  then obtain s' full' lst' where 2: "seg_outer ps tot starts sizes s1 = Some s'" "pipe_shape P s' full' lst'"
    "0 < unat tot \<longrightarrow> 0 < unat (cur_mem_offset s')" "unat (cur_pipe_ofs s') = unat tot"
    "done_bytes s' = done_bytes s1 @ seg_bytes (drop (Suc ?i) starts) (drop (Suc ?i) sizes)"
    unfolding 1(4) by (elim exE conjE)
  have "seg_outer ps tot starts sizes s = Some s'"
    unfolding seg_outer.simps [of ps tot starts sizes s] using lt i Suc.prems(4) 1(1) 2(1) by simp
  moreover have "done_bytes s' = done_bytes s @ seg_bytes (drop ?i starts) (drop ?i sizes)"
    unfolding 2(5) 1(6) d by (simp add: seg_bytes_def)
  ultimately show ?case using 2(2-4) by (intro exI conjI)
qed

subsection \<open>Properties\<close>

text \<open>The buffers of a transfer of \<open>t\<close> bytes in buffers of \<open>P\<close> bytes: all full but the last.\<close>

lemma pipe_count:
  assumes "t = m * P + k" "0 < k" "k \<le> P"
  shows "Suc m = (t + P - 1) div P" "\<And>i. i < m \<Longrightarrow> min P (t - i * P) = P" "min P (t - m * P) = k"
proof -
  have "t + P - 1 = (k - 1) + Suc m * P" using assms by simp
  moreover have "((k - 1) + Suc m * P) div P = Suc m + (k - 1) div P" using assms(2,3) by (intro div_mult_self1) auto
  ultimately have "(t + P - 1) div P = (k - 1) div P + Suc m" by simp
  then show "Suc m = (t + P - 1) div P" using assms(2,3) by simp
  show "min P (t - i * P) = P" if "i < m" for i
  proof -
    have "Suc i * P \<le> m * P" using that by (intro mult_le_mono) auto
    then show ?thesis using assms(1) by simp
  qed
  show "min P (t - m * P) = k" using assms by simp
qed

lemma segments_shape:
  assumes "0 < ps" "sizes \<noteq> []" "length starts = length sizes" "\<forall>n \<in> set sizes. 0 < n"
    "sum_list (map unat sizes) = unat tot"
  shows "\<exists>s pipes. computePipelineFileSegments ps tot starts sizes = Some s \<and>
    zip (p_mem_offsets s) (p_file_sizes s) = concat pipes \<and> length (p_mem_offsets s) = length (p_file_sizes s) \<and>
    length (p_file_starts s) = length (p_file_sizes s) \<and> p_segments s = map length pipes \<and> p_segments_start s = seg_starts pipes \<and>
    length pipes = (unat tot + unat ps - 1) div unat ps \<and>
    (\<forall>i < length pipes. packed (min (unat ps) (unat tot - i * unat ps)) (pipes ! i)) \<and>
    seg_bytes (p_file_starts s) (p_file_sizes s) = seg_bytes starts sizes"
proof -
  let ?s = "\<lparr>p_file_sizes = [], p_file_starts = [], p_mem_offsets = [], p_segments = [0], p_segments_start = [0],
        cur_pipe_ofs = 0, cur_file_index = 0, num_pipe_segments = 0, cur_pipe_buffer_size = ps,
        cur_file_size = hd sizes, cur_file_start = hd starts, cur_mem_offset = 0, cur_pipe = 0\<rparr> :: pipe_loop"
  have P: "0 < unat ps" using assms(1) by (simp add: word_less_nat_alt)
  have "pipe_shape (unat ps) ?s [] []" by (simp add: pipe_shape_def seg_starts_def)
  then have "\<exists>s' full lst. seg_outer ps tot starts sizes ?s = Some s' \<and> pipe_shape (unat ps) s' full lst \<and>
    (0 < unat tot \<longrightarrow> 0 < unat (cur_mem_offset s')) \<and> unat (cur_pipe_ofs s') = unat tot \<and>
    done_bytes s' = done_bytes ?s @ seg_bytes (drop (cur_file_index ?s) starts) (drop (cur_file_index ?s) sizes)"
    by (rule seg_outer_Some [OF _ refl P assms(3,4)]) (use assms(5) in simp_all)
  then obtain s full lst where 1: "seg_outer ps tot starts sizes ?s = Some s" "pipe_shape (unat ps) s full lst"
    "0 < unat tot \<longrightarrow> 0 < unat (cur_mem_offset s)" "unat (cur_pipe_ofs s) = unat tot"
    "done_bytes s = seg_bytes starts sizes"
    by (auto simp: seg_bytes_def)
  note sh = 1(2) [unfolded pipe_shape_def]
  obtain n ns where "sizes = n # ns" using assms(2) by (cases sizes) auto
  then have "0 < unat tot" using assms(4,5) by (auto simp: word_less_nat_alt)
  then have cnt: "unat tot = length full * unat ps + unat (cur_mem_offset s)" "0 < unat (cur_mem_offset s)"
    "unat (cur_mem_offset s) \<le> unat ps"
    using sh 1(3,4) by auto
  note pc = pipe_count [OF cnt]
  have "packed (min (unat ps) (unat tot - i * unat ps)) ((full @ [lst]) ! i)" if "i < length (full @ [lst])" for i
  proof (cases "i < length full")
    case True
    then show ?thesis using pc(2) [OF True] sh by (auto simp: nth_append)
  next
    case False
    then have i: "i = length full" using that by simp
    show ?thesis unfolding i pc(3) nth_append_length using sh by simp
  qed
  moreover have "computePipelineFileSegments ps tot starts sizes = Some s"
    using 1(1) assms(2,3) by (cases starts) (simp_all add: computePipelineFileSegments_def)
  ultimately show ?thesis
    using sh 1(5) pc(1) by (intro exI [of _ s] exI [of _ "full @ [lst]"]) simp
qed



lemma seg_outer_stuck:
  assumes "seg_outer ps tot starts sizes s = Some s'"
  shows "\<not> (cur_pipe_ofs s < tot \<and> sizes ! cur_file_index s = 0)"
proof (rule seg_outer.raw_induct [OF _ assms])
  fix loop and ps tot :: u64 and starts sizes s s'
  assume IH: "\<And>ps tot starts sizes s s'. loop ps tot starts sizes s = Some s' \<Longrightarrow>
      \<not> (cur_pipe_ofs s < tot \<and> sizes ! cur_file_index s = 0)"
    and run: "(if cur_pipe_ofs s < tot
      then do {
        assert_that (cur_file_index s < length sizes \<and> cur_file_index s < length starts);
        s1 \<leftarrow> seg_inner ps (s\<lparr>cur_file_size := sizes ! cur_file_index s, cur_file_start := starts ! cur_file_index s\<rparr>);
        loop ps tot starts sizes s1
      }
      else Some s) = Some s'"
  show "\<not> (cur_pipe_ofs s < tot \<and> sizes ! cur_file_index s = 0)"
  proof
    assume z: "cur_pipe_ofs s < tot \<and> sizes ! cur_file_index s = 0"
    let ?s = "s\<lparr>cur_file_size := 0, cur_file_start := starts ! cur_file_index s\<rparr>"
    have "seg_inner ps ?s = Some ?s" by (subst seg_inner.simps) simp
    then have "loop ps tot starts sizes ?s = Some s'" using run z by (auto elim!: fault_elims)
    from IH [OF this] z show False by simp
  qed
qed



end
