(* ===== verification/Task_Common.thy ===== *)
theory Task_Common
  imports Sm_Slots Pipeline_Segments
begin

text \<open>
  What the read and the write task share: the parameters of a request and their layout in one buffer
  (\<open>initRequestParams\<close> of \<open>src/iofwd/frontend/bmi/IOFWDWriteRequest.cpp\<close> and
  \<open>IOFWDReadRequest.cpp\<close>), the buffers (\<open>src/iofwd/RetrievedBuffer.hh\<close>), the members of the task state
  machines and the operations they start. An operation is in flight from the call that starts it until
  it completes; what its completion brings (the address of an allocated buffer, the result of an I/O
  call) is chosen by the environment.
\<close>

subsection \<open>Requests\<close>

record req_param =
  rp_mem_starts :: "addr list"
  rp_mem_sizes :: "u64 list"
  rp_mem_total_size :: u64
  rp_file_starts :: "u64 list"
  rp_file_sizes :: "u64 list"
  rp_pipeline_size :: u64
  rp_max_buffer_size :: u64

text \<open>The loop that lays the extents out one after the other from address \<open>mem\<close>.\<close>

fun layout_loop :: "addr \<Rightarrow> u64 \<Rightarrow> u64 list \<Rightarrow> addr list" where
  "layout_loop mem cur [] = []"
| "layout_loop mem cur (n # ns) = (mem + unat cur) # layout_loop mem (cur + n) ns"

definition initRequestParams :: "req_param \<Rightarrow> addr \<Rightarrow> req_param" where
  "initRequestParams p mem =
     (if rp_pipeline_size p = 0
      then p\<lparr>rp_mem_total_size := rp_mem_total_size p + sum_list (rp_mem_sizes p),
        rp_mem_starts := layout_loop mem 0 (rp_file_sizes p), rp_mem_sizes := rp_file_sizes p\<rparr>
      else p)"

subsection \<open>Buffers\<close>

text \<open>The four arrays of an I/O call are one list of extents, absent while the pointers are null.\<close>

record RetrievedBuffer =
  rb_siz :: u64
  rb_p_siz :: u64
  rb_off :: u64
  rb_arrays :: "extent list option"
  rb_ret :: "int option"
  rb_buffer :: "addr option"

definition new_RetrievedBuffer :: "u64 \<Rightarrow> RetrievedBuffer" where
  "new_RetrievedBuffer n =
     \<lparr>rb_siz = 0, rb_p_siz = n, rb_off = 0, rb_arrays = None, rb_ret = None, rb_buffer = None\<rparr>"

text \<open>
  \<open>releaseBuffer\<close> hands the memory back; releasing a buffer that has none is a null dereference.
\<close>

definition releaseBuffer :: "RetrievedBuffer \<Rightarrow> RetrievedBuffer option" where
  "releaseBuffer rb = do { assert_that (rb_buffer rb \<noteq> None); Some (rb\<lparr>rb_buffer := None\<rparr>) }"

subsection \<open>Operations and state\<close>

datatype task_op =
    Op_Alloc nat
  | Op_Net nat u64
  | Op_NetAll nat
  | Op_IO nat "extent list"
  | Op_IOAll "extent list"
  | Op_Reply int

text \<open>
  \<open>t_inflight\<close> are the operations that have not completed, \<open>t_trace\<close> all operations started so far,
  \<open>t_results\<close> the results of the I/O operations whose completion the task has handled.
\<close>

record 'm task_sm = "'m sm" +
  t_param :: req_param
  t_total_bytes :: u64
  t_cur_bytes :: u64
  t_p_siz :: u64
  t_pipeline_ops :: nat
  t_ops_done :: nat
  t_index :: nat
  t_rbuffer :: "RetrievedBuffer list option"
  t_parallel :: bool
  t_vecs :: pipe_loop
  t_ret :: int
  t_barrier :: bool
  t_pipeline_size :: u64
  t_inflight :: "task_op list"
  t_trace :: "task_op list"
  t_results :: "int list"

abbreviation ZFS_OK :: int where
  "ZFS_OK \<equiv> 0"

definition no_vecs :: pipe_loop where
  "no_vecs = \<lparr>p_file_sizes = [], p_file_starts = [], p_mem_offsets = [], p_segments = [], p_segments_start = [],
     cur_pipe_ofs = 0, cur_file_index = 0, num_pipe_segments = 0, cur_pipe_buffer_size = 0, cur_file_size = 0,
     cur_file_start = 0, cur_mem_offset = 0, cur_pipe = 0\<rparr>"

text \<open>The constructor, with its number of slots; the frontend schedules the new task.\<close>

definition new_task :: "nat \<Rightarrow> 'm \<Rightarrow> bool \<Rightarrow> req_param \<Rightarrow> 'm task_sm" where
  "new_task slots init parallel p =
     \<lparr>sm_slots = replicate slots new_Slot, sm_next = Some init, sm_next_status = CB_None, sm_yield = False, sm_running = False,
      sm_refs = 1, sm_alive = True, sm_queued = 1,
      t_param = p, t_total_bytes = 0, t_cur_bytes = 0, t_p_siz = 0, t_pipeline_ops = 0, t_ops_done = 0, t_index = 0,
      t_rbuffer = None, t_parallel = parallel, t_vecs = no_vecs, t_ret = ZFS_OK, t_barrier = False, t_pipeline_size = 0,
      t_inflight = [], t_trace = [], t_results = []\<rparr>"

definition get_rbuffer :: "nat \<Rightarrow> 'm task_sm \<Rightarrow> RetrievedBuffer option" where
  "get_rbuffer i s = do { rbs \<leftarrow> t_rbuffer s; assert_that (i < length rbs); Some (rbs ! i) }"

definition set_rbuffer :: "nat \<Rightarrow> RetrievedBuffer \<Rightarrow> 'm task_sm \<Rightarrow> 'm task_sm" where
  "set_rbuffer i rb s = s\<lparr>t_rbuffer := map_option (\<lambda>rbs. rbs[i := rb]) (t_rbuffer s)\<rparr>"

text \<open>What a completion brings: a buffer address \<open>fst v\<close> or a result code \<open>snd v\<close>.\<close>

fun op_effect :: "task_op \<Rightarrow> addr \<times> int \<Rightarrow> 'm task_sm \<Rightarrow> 'm task_sm option" where
  "op_effect (Op_Alloc i) v s = do { rb \<leftarrow> get_rbuffer i s; Some (set_rbuffer i (rb\<lparr>rb_buffer := Some (fst v)\<rparr>) s) }"
| "op_effect (Op_IO i es) v s = do { rb \<leftarrow> get_rbuffer i s; Some (set_rbuffer i (rb\<lparr>rb_ret := Some (snd v)\<rparr>) s) }"
| "op_effect (Op_IOAll es) v s = Some (s\<lparr>t_ret := snd v\<rparr>)"
| "op_effect (Op_Net i n) v s = Some s"
| "op_effect (Op_NetAll i) v s = Some s"
| "op_effect (Op_Reply r) v s = Some s"

definition begin_op :: "task_op \<Rightarrow> 'm task_sm \<Rightarrow> 'm task_sm" where
  "begin_op op s = s\<lparr>t_inflight := op # t_inflight s, t_trace := t_trace s @ [op]\<rparr>"

definition end_op :: "task_op \<Rightarrow> addr \<times> int \<Rightarrow> 'm task_sm \<Rightarrow> 'm task_sm option" where
  "end_op op v s = do {
     assert_that (op \<in> set (t_inflight s));
     op_effect op v (s\<lparr>t_inflight := remove1 op (t_inflight s)\<rparr>)
   }"

text \<open>
  Starting an operation with the slot as its callback and waiting for it. With \<open>early = Some v\<close> the
  operation completes inside the call that starts it, otherwise later.
\<close>

definition start_op :: "(addr \<times> int) option \<Rightarrow> task_op \<Rightarrow> 'm \<Rightarrow> 'm task_sm \<Rightarrow> 'm task_sm option" where
  "start_op early op next s = do {
     s1 \<leftarrow> slots_arm 0 s;
     let s2 = begin_op op s1;
     s3 \<leftarrow> (case early of None \<Rightarrow> Some s2 | Some v \<Rightarrow> do { s4 \<leftarrow> end_op op v s2; callbackhelper 0 CB_None s4 });
     slots_wait 0 next s3
   }"

text \<open>The completion of an operation that was started with the slot.\<close>

definition complete_op :: "task_op \<Rightarrow> addr \<times> int \<Rightarrow> 'm task_sm \<Rightarrow> 'm task_sm option" where
  "complete_op op v s = do { s1 \<leftarrow> end_op op v s; callbackhelper 0 CB_None s1 }"

subsection \<open>Decoding the parameters\<close>

definition plan_buffers :: "u64 \<Rightarrow> u64 \<Rightarrow> nat \<Rightarrow> RetrievedBuffer list" where
  "plan_buffers tot ps n = map (\<lambda>i. new_RetrievedBuffer (if tot mod ps \<noteq> 0 \<and> i + 1 = n then tot mod ps else ps)) [0 ..< n]"

text \<open>
  \<open>decodeInputParams\<close>. The number of buffers is computed in floating point, which is exact as long as
  the total is below 2^53, and converted to a 32-bit \<open>int\<close>.
\<close>

definition task_decode :: "'m \<Rightarrow> 'm \<Rightarrow> 'm task_sm \<Rightarrow> 'm task_sm option" where
  "task_decode single pipelined s =
     (let p = t_param s; s1 = s\<lparr>t_total_bytes := t_total_bytes s + sum_list (rp_mem_sizes p)\<rparr>; tot = t_total_bytes s1
      in if rp_pipeline_size p = 0
         then Some (setNextMethod single CB_None (s1\<lparr>t_rbuffer := Some [new_RetrievedBuffer tot]\<rparr>))
         else do {
           let ps = min (rp_max_buffer_size p) (rp_pipeline_size p);
           assert_that (ps \<noteq> 0 \<and> tot < 9007199254740992);
           let n = (unat tot + unat ps - 1) div unat ps;
           assert_that (int n < 2147483648);
           v \<leftarrow> computePipelineFileSegments ps tot (rp_file_starts p) (rp_file_sizes p);
           Some (setNextMethod pipelined CB_None (s1\<lparr>t_pipeline_size := ps, t_pipeline_ops := n, t_vecs := v,
             t_rbuffer := Some (plan_buffers tot ps n)\<rparr>))
         })"

text \<open>The arrays of the I/O call for the current buffer.\<close>

fun piece_loop :: "pipe_loop \<Rightarrow> addr \<Rightarrow> nat \<Rightarrow> nat \<Rightarrow> extent list option" where
  "piece_loop v p_buf start 0 = Some []"
| "piece_loop v p_buf start (Suc n) = do {
     assert_that (start < length (p_mem_offsets v) \<and> start < length (p_file_sizes v) \<and> start < length (p_file_starts v));
     es \<leftarrow> piece_loop v p_buf (start + 1) n;
     Some (\<lparr>x_mem = p_buf + unat (p_mem_offsets v ! start), x_msize = p_file_sizes v ! start,
       x_start = p_file_starts v ! start, x_size = p_file_sizes v ! start\<rparr> # es)
   }"

definition pipe_arrays :: "pipe_loop \<Rightarrow> addr \<Rightarrow> nat \<Rightarrow> extent list option" where
  "pipe_arrays v p_buf i = do {
     assert_that (i < length (p_segments_start v) \<and> i < length (p_segments v));
     piece_loop v p_buf (p_segments_start v ! i) (p_segments v ! i)
   }"

text \<open>The common part of \<open>execPipelineIO\<close>: build the arrays and hang them into the buffer.\<close>

definition task_arrays :: "'m task_sm \<Rightarrow> ('m task_sm \<times> extent list) option" where
  "task_arrays s = do {
     rb \<leftarrow> get_rbuffer (t_index s) s;
     p_buf \<leftarrow> rb_buffer rb;
     es \<leftarrow> pipe_arrays (t_vecs s) p_buf (t_index s);
     Some (set_rbuffer (t_index s) (rb\<lparr>rb_arrays := Some es, rb_ret := Some 0\<rparr>) s, es)
   }"

definition task_release :: "nat \<Rightarrow> 'm task_sm \<Rightarrow> 'm task_sm option" where
  "task_release i s = do { rb \<leftarrow> get_rbuffer i s; rb' \<leftarrow> releaseBuffer rb; Some (set_rbuffer i rb' s) }"

text \<open>The update of the return code from the result of the I/O call of buffer \<open>i\<close>.\<close>

definition task_result :: "nat \<Rightarrow> 'm task_sm \<Rightarrow> 'm task_sm option" where
  "task_result i s = do {
     rb \<leftarrow> get_rbuffer i s;
     r \<leftarrow> rb_ret rb;
     Some (s\<lparr>t_ret := (if r \<noteq> ZFS_OK then r else t_ret s), t_results := t_results s @ [r]\<rparr>)
   }"

definition task_reply :: "(addr \<times> int) option \<Rightarrow> 'm \<Rightarrow> 'm task_sm \<Rightarrow> 'm task_sm option" where
  "task_reply early next s = start_op early (Op_Reply (t_ret s)) next s"

definition param_extents :: "req_param \<Rightarrow> extent list" where
  "param_extents p = map (\<lambda>((b, n), (st, z)). \<lparr>x_mem = b, x_msize = n, x_start = st, x_size = z\<rparr>)
     (zip (zip (rp_mem_starts p) (rp_mem_sizes p)) (zip (rp_file_starts p) (rp_file_sizes p)))"

subsection \<open>Starting and completing operations\<close>

lemmas task_defs = get_rbuffer_def set_rbuffer_def begin_op_def end_op_def

lemma get_rbuffer_siz [simp]: "get_rbuffer j (s\<lparr>t_p_siz := z\<rparr>) = get_rbuffer j s"
  by (simp add: get_rbuffer_def)

lemma start_op_late:
  assumes "sm_body s"
  shows "\<exists>xs. start_op None op n s = Some ((begin_op op s)\<lparr>sm_slots := xs, sm_refs := 2\<rparr>) \<and>
    sm_asleep n ((begin_op op s)\<lparr>sm_slots := xs, sm_refs := 2\<rparr>)"
proof -
  obtain k where k: "slots_arm 0 s = Some (s\<lparr>sm_slots := waiting_slot None # replicate k new_Slot, sm_refs := 2\<rparr>)"
    using slots_arm_body [OF assms] by blast
  let ?s = "begin_op op (s\<lparr>sm_slots := waiting_slot None # replicate k new_Slot, sm_refs := 2\<rparr>)"
  from wait_late [of ?s k n] assms
  obtain xs where "slots_wait 0 n ?s = Some (?s\<lparr>sm_slots := xs\<rparr>)" "sm_asleep n (?s\<lparr>sm_slots := xs\<rparr>)"
    by (auto simp: sm_body_def begin_op_def)
  moreover have "?s\<lparr>sm_slots := xs\<rparr> = (begin_op op s)\<lparr>sm_slots := xs, sm_refs := 2\<rparr>"
    by (cases s) (simp add: begin_op_def)
  ultimately show ?thesis using k by (auto simp: start_op_def)
qed

text \<open>What an operation brings does not depend on where the machine is.\<close>

lemma op_effect_sm:
  "op_effect op v (s\<lparr>sm_slots := xs, sm_refs := r\<rparr>) = map_option (\<lambda>s. s\<lparr>sm_slots := xs, sm_refs := r\<rparr>) (op_effect op v s)"
  by (cases op; cases "t_rbuffer s"; cases s) (auto simp: task_defs assert_that_def)

lemma op_effect_keeps:
  assumes "op_effect op v s = Some s1"
  shows "sm_alive s1 = sm_alive s" "sm_yield s1 = sm_yield s" "sm_next s1 = sm_next s" "sm_running s1 = sm_running s"
    "sm_queued s1 = sm_queued s" "sm_slots s1 = sm_slots s" "sm_refs s1 = sm_refs s"
  using assms by (cases op; auto simp: task_defs assert_that_def split: Option.bind_splits if_splits)+

lemma sm_body_effect: "op_effect op v s = Some s1 \<Longrightarrow> sm_body s1 = sm_body s"
  using op_effect_keeps [of op v s s1] by (simp add: sm_body_def slots_are_def)

lemma sm_asleep_end:
  assumes "end_op op v s = Some s1"
  shows "sm_asleep n s1 = sm_asleep n s \<and> sm_running s1 = sm_running s"
proof -
  have "op_effect op v (s\<lparr>t_inflight := remove1 op (t_inflight s)\<rparr>) = Some s1"
    using assms by (auto simp: end_op_def elim!: fault_elims)
  from op_effect_keeps [OF this] show ?thesis by (simp add: sm_asleep_def slots_are_def)
qed

lemma start_op_early:
  assumes "sm_body s" "end_op op v (begin_op op s) = Some s1"
  shows "\<exists>xs. start_op (Some v) op n s = Some (s1\<lparr>sm_slots := xs, sm_refs := 1, sm_next := Some n, sm_next_status := CB_None\<rparr>) \<and>
    sm_at n (s1\<lparr>sm_slots := xs, sm_refs := 1, sm_next := Some n, sm_next_status := CB_None\<rparr>)"
proof -
  obtain k where k: "slots_arm 0 s = Some (s\<lparr>sm_slots := waiting_slot None # replicate k new_Slot, sm_refs := 2\<rparr>)"
    using slots_arm_body [OF assms(1)] by blast
  let ?xs = "waiting_slot None # replicate k new_Slot"
  let ?s0 = "(begin_op op s)\<lparr>t_inflight := t_inflight s\<rparr>"
  have e: "op_effect op v ?s0 = Some s1" using assms(2) by (simp add: end_op_def begin_op_def)
  have "end_op op v (begin_op op (s\<lparr>sm_slots := ?xs, sm_refs := 2\<rparr>)) = op_effect op v (?s0\<lparr>sm_slots := ?xs, sm_refs := 2\<rparr>)"
    by (cases s) (simp add: end_op_def begin_op_def)
  then have e2: "end_op op v (begin_op op (s\<lparr>sm_slots := ?xs, sm_refs := 2\<rparr>)) = Some (s1\<lparr>sm_slots := ?xs, sm_refs := 2\<rparr>)"
    using e by (simp only: op_effect_sm option.map)
  have "sm_body ?s0" using assms(1) by (simp add: sm_body_def slots_are_def begin_op_def)
  then have "sm_body s1" using sm_body_effect [OF e] by simp
  then have "\<exists>ys. do { s2 \<leftarrow> callbackhelper 0 CB_None (s1\<lparr>sm_slots := ?xs, sm_refs := 2\<rparr>); slots_wait 0 n s2 } =
      Some (s1\<lparr>sm_slots := ?xs, sm_refs := 2\<rparr>\<lparr>sm_slots := ys, sm_refs := 1, sm_next := Some n, sm_next_status := CB_None\<rparr>) \<and>
      sm_at n (s1\<lparr>sm_slots := ?xs, sm_refs := 2\<rparr>\<lparr>sm_slots := ys, sm_refs := 1, sm_next := Some n, sm_next_status := CB_None\<rparr>)"
    by (intro wait_early) (auto simp: sm_body_def)
  then show ?thesis using k e2 by (auto simp: start_op_def)
qed

lemma complete_op_Some:
  assumes "sm_asleep n s" "\<not> sm_running s" "end_op op v s = Some s1"
  shows "\<exists>xs. complete_op op v s = Some (s1\<lparr>sm_slots := xs, sm_next := Some n, sm_next_status := CB_None, sm_queued := 1\<rparr>) \<and>
    sm_at n (s1\<lparr>sm_slots := xs, sm_next := Some n, sm_next_status := CB_None, sm_queued := 1\<rparr>)"
  using callback_resumes [of n s1] sm_asleep_end [OF assms(3)] assms by (simp add: complete_op_def)

end
