(* ===== verification/Task_Plan.thy ===== *)
theory Task_Plan
  imports Task_Common
begin

text \<open>
  What a task does with a pipelined request, before any step is taken: the number and sizes of its
  buffers and the arrays of the I/O call for each, and the view of a task in the middle of this plan
  that the read and the write task share.
\<close>

subsection \<open>The plan\<close>

definition plan_total :: "req_param \<Rightarrow> u64" where
  "plan_total p = sum_list (rp_mem_sizes p)"

definition plan_ps :: "req_param \<Rightarrow> u64" where
  "plan_ps p = min (rp_max_buffer_size p) (rp_pipeline_size p)"

definition plan_ops :: "req_param \<Rightarrow> nat" where
  "plan_ops p = (unat (plan_total p) + unat (plan_ps p) - 1) div unat (plan_ps p)"

definition plan_vecs :: "req_param \<Rightarrow> pipe_loop" where
  "plan_vecs p = the (computePipelineFileSegments (plan_ps p) (plan_total p) (rp_file_starts p) (rp_file_sizes p))"

definition plan_arrays :: "req_param \<Rightarrow> addr \<Rightarrow> nat \<Rightarrow> extent list" where
  "plan_arrays p b i = the (pipe_arrays (plan_vecs p) b i)"

text \<open>A pipelined request the tasks can serve: extents that are not empty and add up to the memory sizes.\<close>

definition good_pipeline :: "req_param \<Rightarrow> bool" where
  "good_pipeline p \<longleftrightarrow> rp_pipeline_size p \<noteq> 0 \<and> rp_max_buffer_size p \<noteq> 0 \<and> rp_file_sizes p \<noteq> [] \<and>
     length (rp_file_starts p) = length (rp_file_sizes p) \<and> (\<forall>n \<in> set (rp_file_sizes p). 0 < n) \<and>
     sum_list (map unat (rp_file_sizes p)) = unat (plan_total p) \<and> plan_total p < 9007199254740992 \<and> int (plan_ops p) < 2147483648"

lemma good_pipeline_ps: "good_pipeline p \<Longrightarrow> 0 < plan_ps p"
  by (auto simp: good_pipeline_def plan_ps_def min_def word_gt_0)

lemma plan_vecs_Some:
  assumes "good_pipeline p"
  shows "computePipelineFileSegments (plan_ps p) (plan_total p) (rp_file_starts p) (rp_file_sizes p) = Some (plan_vecs p)"
    "\<exists>pipes. zip (p_mem_offsets (plan_vecs p)) (p_file_sizes (plan_vecs p)) = concat pipes \<and>
      length (p_mem_offsets (plan_vecs p)) = length (p_file_sizes (plan_vecs p)) \<and>
      length (p_file_starts (plan_vecs p)) = length (p_file_sizes (plan_vecs p)) \<and>
      p_segments (plan_vecs p) = map length pipes \<and> p_segments_start (plan_vecs p) = seg_starts pipes \<and>
      length pipes = plan_ops p \<and>
      (\<forall>i < length pipes. packed (min (unat (plan_ps p)) (unat (plan_total p) - i * unat (plan_ps p))) (pipes ! i)) \<and>
      seg_bytes (p_file_starts (plan_vecs p)) (p_file_sizes (plan_vecs p)) = seg_bytes (rp_file_starts p) (rp_file_sizes p)"
proof -
  have "\<exists>s pipes. computePipelineFileSegments (plan_ps p) (plan_total p) (rp_file_starts p) (rp_file_sizes p) = Some s \<and>
    zip (p_mem_offsets s) (p_file_sizes s) = concat pipes \<and> length (p_mem_offsets s) = length (p_file_sizes s) \<and>
    length (p_file_starts s) = length (p_file_sizes s) \<and>
    p_segments s = map length pipes \<and> p_segments_start s = seg_starts pipes \<and>
    length pipes = (unat (plan_total p) + unat (plan_ps p) - 1) div unat (plan_ps p) \<and>
    (\<forall>i < length pipes. packed (min (unat (plan_ps p)) (unat (plan_total p) - i * unat (plan_ps p))) (pipes ! i)) \<and>
    seg_bytes (p_file_starts s) (p_file_sizes s) = seg_bytes (rp_file_starts p) (rp_file_sizes p)"
    by (rule segments_shape) (use assms good_pipeline_ps [OF assms] in \<open>auto simp: good_pipeline_def\<close>)
  then show "computePipelineFileSegments (plan_ps p) (plan_total p) (rp_file_starts p) (rp_file_sizes p) = Some (plan_vecs p)"
    "\<exists>pipes. zip (p_mem_offsets (plan_vecs p)) (p_file_sizes (plan_vecs p)) = concat pipes \<and>
      length (p_mem_offsets (plan_vecs p)) = length (p_file_sizes (plan_vecs p)) \<and>
      length (p_file_starts (plan_vecs p)) = length (p_file_sizes (plan_vecs p)) \<and>
      p_segments (plan_vecs p) = map length pipes \<and> p_segments_start (plan_vecs p) = seg_starts pipes \<and>
      length pipes = plan_ops p \<and>
      (\<forall>i < length pipes. packed (min (unat (plan_ps p)) (unat (plan_total p) - i * unat (plan_ps p))) (pipes ! i)) \<and>
      seg_bytes (p_file_starts (plan_vecs p)) (p_file_sizes (plan_vecs p)) = seg_bytes (rp_file_starts p) (rp_file_sizes p)"
    unfolding plan_vecs_def plan_ops_def by auto
qed

definition piece_at :: "pipe_loop \<Rightarrow> addr \<Rightarrow> nat \<Rightarrow> extent" where
  "piece_at v b k = \<lparr>x_mem = b + unat (p_mem_offsets v ! k), x_msize = p_file_sizes v ! k,
     x_start = p_file_starts v ! k, x_size = p_file_sizes v ! k\<rparr>"

lemma piece_loop_Some:
  assumes "st + n \<le> length (p_mem_offsets v)" "st + n \<le> length (p_file_sizes v)" "st + n \<le> length (p_file_starts v)"
  shows "piece_loop v b st n = Some (map (piece_at v b) [st ..< st + n])"
  using assms
proof (induction n arbitrary: st)
  case (Suc n)
  have "[st ..< st + Suc n] = st # [Suc st ..< Suc st + n]" by (simp add: upt_conv_Cons del: upt_Suc)
  then show ?case using Suc.IH [of "Suc st"] Suc.prems by (simp add: piece_at_def del: upt_Suc)
qed simp

lemma seg_starts_bound: "i < length ps \<Longrightarrow> seg_starts ps ! i + length (ps ! i) \<le> length (concat ps)"
proof (induction ps rule: rev_induct)
  case (snoc p ps)
  then show ?case by (cases "i < length ps") (auto simp: seg_starts_snoc nth_append seg_starts_def)
qed simp

lemma seg_starts_cover:
  "concat (map (\<lambda>i. [seg_starts ps ! i ..< seg_starts ps ! i + length (ps ! i)]) [0 ..< length ps]) = [0 ..< length (concat ps)]"
proof (induction ps rule: rev_induct)
  case (snoc p ps)
  let ?n = "length (concat ps)"
  have l: "length (seg_starts ps) = length ps" by (simp add: seg_starts_def)
  have e: "seg_starts (ps @ [p]) ! i = seg_starts ps ! i \<and> (ps @ [p]) ! i = ps ! i" if "i < length ps" for i
    using l that by (simp add: seg_starts_snoc nth_append)
  have "map (\<lambda>i. [seg_starts (ps @ [p]) ! i ..< seg_starts (ps @ [p]) ! i + length ((ps @ [p]) ! i)]) [0 ..< length ps] =
    map (\<lambda>i. [seg_starts ps ! i ..< seg_starts ps ! i + length (ps ! i)]) [0 ..< length ps]"
    by (rule map_cong) (auto simp: e simp del: upt_Suc)
  moreover have "seg_starts (ps @ [p]) ! length ps = ?n" using l by (simp only: seg_starts_snoc nth_append) simp
  moreover have "[0 ..< ?n + length p] = [0 ..< ?n] @ [?n ..< ?n + length p]" by (rule upt_add_eq_append) simp
  moreover have "length (concat (ps @ [p])) = ?n + length p" "length (ps @ [p]) = Suc (length ps)" by simp_all
  moreover have "[0 ..< Suc (length ps)] = [0 ..< length ps] @ [length ps]" "(ps @ [p]) ! length ps = p" by simp_all
  ultimately show ?case using snoc.IH by (simp only: map_append concat_append list.map concat.simps append_Nil2)
qed simp

lemma concat_map_blocks: "concat (map (\<lambda>i. concat (map f (g i))) is) = concat (map f (concat (map g is)))"
  by (induction "is") auto

text \<open>Each buffer has its arrays, and all of them together name every byte of the request once, in order.\<close>

definition io_bytes :: "extent list \<Rightarrow> u64 list" where
  "io_bytes es = concat (map (\<lambda>e. ext_bytes (x_start e) (x_size e)) es)"

text \<open>The bytes that the I/O calls among some operations name.\<close>

definition trace_bytes :: "task_op list \<Rightarrow> u64 list" where
  "trace_bytes ops = concat (map (\<lambda>op. case op of Op_IO i es \<Rightarrow> io_bytes es | _ \<Rightarrow> []) ops)"

lemma plan_arrays_Some:
  assumes "good_pipeline p" "i < plan_ops p"
  shows "pipe_arrays (plan_vecs p) b i = Some (plan_arrays p b i)"
    "plan_arrays p b i = map (piece_at (plan_vecs p) b)
      [p_segments_start (plan_vecs p) ! i ..< p_segments_start (plan_vecs p) ! i + p_segments (plan_vecs p) ! i]"
proof -
  let ?v = "plan_vecs p"
  obtain pipes where v: "zip (p_mem_offsets ?v) (p_file_sizes ?v) = concat pipes"
    "length (p_mem_offsets ?v) = length (p_file_sizes ?v)" "length (p_file_starts ?v) = length (p_file_sizes ?v)"
    "p_segments ?v = map length pipes" "p_segments_start ?v = seg_starts pipes" "length pipes = plan_ops p"
    using plan_vecs_Some(2) [OF assms(1)] by blast
  have len: "length (concat pipes) = length (p_file_sizes ?v)" using arg_cong [OF v(1), of length] v(2) by simp
  have "piece_loop ?v b (seg_starts pipes ! i) (length (pipes ! i)) =
      Some (map (piece_at ?v b) [seg_starts pipes ! i ..< seg_starts pipes ! i + length (pipes ! i)])"
    by (rule piece_loop_Some) (use seg_starts_bound [of i pipes] assms(2) v len in auto)
  then have "pipe_arrays ?v b i = Some (map (piece_at ?v b) [p_segments_start ?v ! i ..< p_segments_start ?v ! i + p_segments ?v ! i])"
    using v assms(2) by (simp add: pipe_arrays_def seg_starts_def)
  then show "pipe_arrays ?v b i = Some (plan_arrays p b i)"
    "plan_arrays p b i = map (piece_at ?v b) [p_segments_start ?v ! i ..< p_segments_start ?v ! i + p_segments ?v ! i]"
    by (simp_all add: plan_arrays_def)
qed

lemma plan_arrays_cover:
  assumes "good_pipeline p"
  shows "concat (map (\<lambda>i. io_bytes (plan_arrays p (b i) i)) [0 ..< plan_ops p]) = seg_bytes (rp_file_starts p) (rp_file_sizes p)"
proof -
  let ?v = "plan_vecs p"
  obtain pipes where v: "zip (p_mem_offsets ?v) (p_file_sizes ?v) = concat pipes"
    "length (p_mem_offsets ?v) = length (p_file_sizes ?v)" "length (p_file_starts ?v) = length (p_file_sizes ?v)"
    "p_segments ?v = map length pipes" "p_segments_start ?v = seg_starts pipes" "length pipes = plan_ops p"
    "seg_bytes (p_file_starts ?v) (p_file_sizes ?v) = seg_bytes (rp_file_starts p) (rp_file_sizes p)"
    using plan_vecs_Some(2) [OF assms] by blast
  let ?f = "\<lambda>k. ext_bytes (p_file_starts ?v ! k) (p_file_sizes ?v ! k)"
  have len: "length (concat pipes) = length (p_file_sizes ?v)" using arg_cong [OF v(1), of length] v(2) by simp
  have "io_bytes (plan_arrays p (b i) i) = concat (map ?f [seg_starts pipes ! i ..< seg_starts pipes ! i + length (pipes ! i)])"
    if "i < plan_ops p" for i
    using plan_arrays_Some(2) [OF assms that, of "b i"] v that by (simp add: io_bytes_def piece_at_def comp_def)
  then have "concat (map (\<lambda>i. io_bytes (plan_arrays p (b i) i)) [0 ..< plan_ops p]) =
      concat (map (\<lambda>i. concat (map ?f [seg_starts pipes ! i ..< seg_starts pipes ! i + length (pipes ! i)])) [0 ..< length pipes])"
    using v(6) by (intro arg_cong [of _ _ concat] map_cong) auto
  also have "\<dots> = concat (map ?f (concat (map (\<lambda>i. [seg_starts pipes ! i ..< seg_starts pipes ! i + length (pipes ! i)]) [0 ..< length pipes])))"
    by (simp only: concat_map_blocks)
  also have "\<dots> = concat (map ?f [0 ..< length (p_file_sizes ?v)])" by (simp only: seg_starts_cover len)
  also have "\<dots> = seg_bytes (p_file_starts ?v) (p_file_sizes ?v)"
    unfolding seg_bytes_def using v(3)
    by (intro arg_cong [of _ _ concat] nth_equalityI) auto
  finally show ?thesis using v(7) by simp
qed

text \<open>The bytes done before buffer \<open>i\<close> and the size of that buffer, as the tasks compute them.\<close>

definition plan_cur :: "req_param \<Rightarrow> nat \<Rightarrow> u64" where
  "plan_cur p i = of_nat (min (i * unat (plan_ps p)) (unat (plan_total p)))"

definition plan_size :: "req_param \<Rightarrow> nat \<Rightarrow> u64" where
  "plan_size p i = min (plan_ps p) (plan_total p - plan_cur p i)"

lemma u64_of_nat_inverse: "n < 2 ^ 64 \<Longrightarrow> unat (of_nat n :: u64) = n"
  by (simp add: unat_of_nat take_bit_nat_eq_self)

lemma unat_plan_cur: "unat (plan_cur p i) = min (i * unat (plan_ps p)) (unat (plan_total p))"
  unfolding plan_cur_def using u64_bound [of "plan_total p"] by (intro u64_of_nat_inverse) linarith

lemma plan_cur_0: "plan_cur p 0 = 0"
  by (simp add: plan_cur_def)

lemma ceil_div_less:
  assumes "0 < P"
  shows "i < (T + P - 1) div P \<longleftrightarrow> i * P < (T :: nat)"
proof -
  have "i < (T + P - 1) div P \<longleftrightarrow> Suc i * P \<le> T + P - 1"
    using assms by (simp add: Suc_le_eq [symmetric] less_eq_div_iff_mult_less_eq del: mult_Suc)
  then show ?thesis using assms by auto
qed

lemma plan_ops_less:
  assumes "good_pipeline p"
  shows "i < plan_ops p \<longleftrightarrow> i * unat (plan_ps p) < unat (plan_total p)"
  unfolding plan_ops_def using good_pipeline_ps [OF assms] by (intro ceil_div_less) (simp add: word_less_nat_alt)

lemma plan_total_pos: "good_pipeline p \<Longrightarrow> 0 < unat (plan_total p)"
  by (cases "rp_file_sizes p") (auto simp: good_pipeline_def word_less_nat_alt)

lemma plan_ops_pos: "good_pipeline p \<Longrightarrow> 0 < plan_ops p"
  using plan_ops_less [of p 0] plan_total_pos [of p] by simp

lemma unat_plan_size:
  assumes "good_pipeline p" "i < plan_ops p"
  shows "unat (plan_size p i) = min (unat (plan_ps p)) (unat (plan_total p) - i * unat (plan_ps p))"
proof -
  have c: "unat (plan_cur p i) = i * unat (plan_ps p)" using plan_ops_less assms unat_plan_cur [of p i] by simp
  then have "plan_cur p i \<le> plan_total p" using plan_ops_less assms by (simp add: word_le_nat_alt)
  then show ?thesis using c by (auto simp: plan_size_def min_def word_le_nat_alt unat_sub)
qed

lemma plan_cur_Suc:
  assumes "good_pipeline p" "i < plan_ops p"
  shows "plan_cur p i + plan_size p i = plan_cur p (Suc i)"
proof -
  have lt: "i * unat (plan_ps p) < unat (plan_total p)" using plan_ops_less assms by simp
  have "unat (plan_cur p i) + unat (plan_size p i) = unat (plan_cur p (Suc i))"
    using lt by (auto simp: unat_plan_cur unat_plan_size [OF assms])
  moreover have "unat (plan_cur p (Suc i)) < 2 ^ 64" by (rule u64_bound)
  ultimately have "unat (plan_cur p i + plan_size p i) = unat (plan_cur p (Suc i))" by (simp add: unat_word_ariths)
  then show ?thesis by (simp only: word_unat_eq_iff)
qed

lemma plan_cur_end:
  assumes "good_pipeline p" "i < plan_ops p"
  shows "plan_cur p (Suc i) = plan_total p \<longleftrightarrow> Suc i = plan_ops p"
    "plan_cur p (Suc i) < plan_total p \<longleftrightarrow> Suc i < plan_ops p"
proof -
  show lt: "plan_cur p (Suc i) < plan_total p \<longleftrightarrow> Suc i < plan_ops p"
    unfolding plan_ops_less [OF assms(1)] word_less_nat_alt unat_plan_cur by (simp add: min_less_iff_disj)
  have "plan_cur p (Suc i) \<le> plan_total p" by (simp add: word_le_nat_alt unat_plan_cur)
  then show "plan_cur p (Suc i) = plan_total p \<longleftrightarrow> Suc i = plan_ops p" using lt assms(2) by (auto simp: order.order_iff_strict)
qed

subsection \<open>A task in the middle of its plan\<close>

text \<open>
  \<open>v_addr\<close> are the addresses the environment gave to the buffers, \<open>v_index\<close> the current buffer,
  \<open>v_io\<close> the buffers before it whose I/O has not completed; \<open>v_tail\<close> are the operations already
  started for the current buffer, \<open>v_ops\<close> those of them in flight, \<open>v_hold\<close> says whether the current
  buffer is allocated, \<open>v_ret\<close> whether its return code is known to exist, \<open>v_res\<close> are the results so far.
\<close>

record task_view =
  v_addr :: "nat \<Rightarrow> addr"
  v_index :: nat
  v_io :: "nat list"
  v_tail :: "task_op list"
  v_ops :: "task_op list"
  v_hold :: bool
  v_ret :: bool
  v_siz :: u64
  v_res :: "int list"

text \<open>The return code after the results \<open>rs\<close>: the last one that is an error.\<close>

definition last_error :: "int list \<Rightarrow> int" where
  "last_error rs = fold (\<lambda>r a. if r \<noteq> ZFS_OK then r else a) rs ZFS_OK"

definition io_op :: "req_param \<Rightarrow> (nat \<Rightarrow> addr) \<Rightarrow> nat \<Rightarrow> task_op" where
  "io_op p b i = Op_IO i (plan_arrays p (b i) i)"

definition view_buf :: "task_view \<Rightarrow> nat \<Rightarrow> addr option" where
  "view_buf v j = (if j \<in> set (v_io v) \<or> v_hold v \<and> j = v_index v then Some (v_addr v j) else None)"

definition task_bufs :: "req_param \<Rightarrow> task_view \<Rightarrow> RetrievedBuffer list \<Rightarrow> bool" where
  "task_bufs p v rbs \<longleftrightarrow> length rbs = plan_ops p \<and> (\<forall>j < plan_ops p. rb_buffer (rbs ! j) = view_buf v j) \<and>
     (\<forall>j \<in> set (v_io v). rb_ret (rbs ! j) \<noteq> None) \<and> (v_ret v \<longrightarrow> rb_ret (rbs ! v_index v) \<noteq> None)"

definition task_data ::
  "(req_param \<Rightarrow> (nat \<Rightarrow> addr) \<Rightarrow> nat \<Rightarrow> task_op list) \<Rightarrow> req_param \<Rightarrow> task_view \<Rightarrow> 'm task_sm \<Rightarrow> bool" where
  "task_data ops p v s \<longleftrightarrow> t_param s = p \<and> t_total_bytes s = plan_total p \<and> t_pipeline_size s = plan_ps p \<and>
     t_pipeline_ops s = plan_ops p \<and> t_vecs s = plan_vecs p \<and>
     t_index s = v_index v \<and> v_index v \<le> plan_ops p \<and> t_cur_bytes s = plan_cur p (v_index v) \<and> t_p_siz s = v_siz v \<and>
     t_results s = v_res v \<and> t_ret s = last_error (v_res v) \<and>
     distinct (v_io v) \<and> set (v_io v) \<subseteq> {..< v_index v} \<and>
     (\<exists>rbs. t_rbuffer s = Some rbs \<and> task_bufs p v rbs) \<and>
     t_trace s = concat (map (ops p (v_addr v)) [0 ..< v_index v]) @ v_tail v \<and>
     mset (t_inflight s) = mset (v_ops v) + mset (map (io_op p (v_addr v)) (v_io v))"

lemma last_error_snoc: "last_error (rs @ [r]) = (if r \<noteq> ZFS_OK then r else last_error rs)"
  by (simp add: last_error_def)

lemma last_error_OK: "last_error rs = ZFS_OK \<longleftrightarrow> (\<forall>r \<in> set rs. r = ZFS_OK)"
  by (induction rs rule: rev_induct) (auto simp: last_error_snoc, simp add: last_error_def)

lemma last_error_mem: "last_error rs \<noteq> ZFS_OK \<Longrightarrow> last_error rs \<in> set rs"
proof (induction rs rule: rev_induct)
  case Nil
  then show ?case by (simp add: last_error_def)
next
  case (snoc r rs)
  then show ?case by (auto simp: last_error_snoc split: if_splits)
qed

text \<open>The view does not depend on the state of the machine.\<close>

lemma task_data_sm [simp]:
  "task_data ops p v (s\<lparr>sm_slots := xs\<rparr>) = task_data ops p v s"
  "task_data ops p v (s\<lparr>sm_next := n\<rparr>) = task_data ops p v s"
  "task_data ops p v (s\<lparr>sm_next_status := e\<rparr>) = task_data ops p v s"
  "task_data ops p v (s\<lparr>sm_running := c\<rparr>) = task_data ops p v s"
  "task_data ops p v (s\<lparr>sm_refs := k\<rparr>) = task_data ops p v s"
  "task_data ops p v (s\<lparr>sm_alive := c\<rparr>) = task_data ops p v s"
  "task_data ops p v (s\<lparr>sm_queued := k\<rparr>) = task_data ops p v s"
  "task_data ops p v (s\<lparr>t_barrier := c\<rparr>) = task_data ops p v s"
  "task_data ops p v (s\<lparr>t_ops_done := k\<rparr>) = task_data ops p v s"
  "task_data ops p v (setNextMethod m e s) = task_data ops p v s"
  by (simp_all add: task_data_def setNextMethod_def)

lemma task_bufs_view [simp]:
  "task_bufs p (v\<lparr>v_tail := t\<rparr>) rbs = task_bufs p v rbs"
  "task_bufs p (v\<lparr>v_ops := l\<rparr>) rbs = task_bufs p v rbs"
  "task_bufs p (v\<lparr>v_siz := z\<rparr>) rbs = task_bufs p v rbs"
  "task_bufs p (v\<lparr>v_res := r\<rparr>) rbs = task_bufs p v rbs"
  by (simp_all add: task_bufs_def view_buf_def)

lemma task_data_begin:
  assumes "task_data ops p v s"
  shows "task_data ops p (v\<lparr>v_tail := v_tail v @ [op], v_ops := op # v_ops v\<rparr>) (begin_op op s)"
  using assms by (simp add: task_data_def begin_op_def)

lemma mset_remove1_first: "mset xs = add_mset x M \<Longrightarrow> x \<in> set xs \<and> mset (remove1 x xs) = M"
  by (metis add_mset_remove_trivial mset_remove1 union_single_eq_member set_mset_mset)

lemma task_data_inflight:
  assumes "task_data ops p v s" "op \<in> set (t_inflight s)"
  shows "op \<in> set (v_ops v) \<or> (\<exists>j \<in> set (v_io v). op = io_op p (v_addr v) j)"
proof -
  have "mset (t_inflight s) = mset (v_ops v) + mset (map (io_op p (v_addr v)) (v_io v))"
    using assms(1) by (simp add: task_data_def)
  then have "set (t_inflight s) = set (v_ops v) \<union> set (map (io_op p (v_addr v)) (v_io v))"
    by (metis set_mset_mset set_mset_union)
  then show ?thesis using assms(2) by auto
qed

lemma inflight_data:
  assumes "task_data ops p v s"
  shows "set (v_ops v) \<subseteq> set (t_inflight s)" "io_op p (v_addr v) ` set (v_io v) \<subseteq> set (t_inflight s)"
proof -
  have "mset (t_inflight s) = mset (v_ops v) + mset (map (io_op p (v_addr v)) (v_io v))"
    using assms by (simp add: task_data_def)
  then have "set (t_inflight s) = set (v_ops v) \<union> set (map (io_op p (v_addr v)) (v_io v))"
    by (metis set_mset_mset set_mset_union)
  then show "set (v_ops v) \<subseteq> set (t_inflight s)" "io_op p (v_addr v) ` set (v_io v) \<subseteq> set (t_inflight s)" by auto
qed

text \<open>What a step keeps of the members that only the write task uses.\<close>

definition same_count :: "'m task_sm \<Rightarrow> 'm task_sm \<Rightarrow> bool" where
  "same_count s s1 \<longleftrightarrow> t_ops_done s1 = t_ops_done s \<and> t_parallel s1 = t_parallel s \<and> t_barrier s1 = t_barrier s"

text \<open>Operations that bring nothing, and the allocation of the current buffer.\<close>

definition plain_op :: "task_op \<Rightarrow> bool" where
  "plain_op op \<longleftrightarrow> (case op of Op_Net i n \<Rightarrow> True | Op_NetAll i \<Rightarrow> True | Op_Reply r \<Rightarrow> True | _ \<Rightarrow> False)"

definition own_ops :: "(req_param \<Rightarrow> (nat \<Rightarrow> addr) \<Rightarrow> nat \<Rightarrow> task_op list) \<Rightarrow> bool" where
  "own_ops ops \<longleftrightarrow> (\<forall>p b b' j. b j = b' j \<longrightarrow> ops p b j = ops p b' j)"

lemma end_plain:
  assumes "task_data ops p v s" "v_ops v = [op]" "plain_op op"
  shows "\<exists>s1. end_op op x s = Some s1 \<and> task_data ops p (v\<lparr>v_ops := []\<rparr>) s1 \<and> same_count s s1"
proof -
  let ?s = "s\<lparr>t_inflight := remove1 op (t_inflight s)\<rparr>"
  have m: "op \<in> set (t_inflight s) \<and> mset (remove1 op (t_inflight s)) = mset (map (io_op p (v_addr v)) (v_io v))"
    by (rule mset_remove1_first) (use assms in \<open>simp add: task_data_def\<close>)
  moreover have "op_effect op x ?s = Some ?s" using assms(3) by (cases op) (simp_all add: plain_op_def)
  ultimately have "end_op op x s = Some ?s" by (simp add: end_op_def)
  moreover have "task_data ops p (v\<lparr>v_ops := []\<rparr>) ?s"
    using assms m by (simp add: task_data_def)
  ultimately show ?thesis by (simp add: same_count_def)
qed

lemma end_alloc:
  assumes "task_data ops p v s" "v_ops v = [Op_Alloc (v_index v)]" "v_index v < plan_ops p" "\<not> v_hold v" "own_ops ops"
  shows "\<exists>s1. end_op (Op_Alloc (v_index v)) x s = Some s1 \<and> same_count s s1 \<and>
    task_data ops p (v\<lparr>v_ops := [], v_hold := True, v_addr := (v_addr v)(v_index v := fst x)\<rparr>) s1"
proof -
  let ?i = "v_index v" let ?op = "Op_Alloc ?i" let ?b = "(v_addr v)(?i := fst x)"
  let ?s = "s\<lparr>t_inflight := remove1 ?op (t_inflight s)\<rparr>"
  obtain rbs where rbs: "t_rbuffer s = Some rbs" "task_bufs p v rbs" using assms(1) by (auto simp: task_data_def)
  let ?rb = "(rbs ! ?i)\<lparr>rb_buffer := Some (fst x)\<rparr>"
  have io: "?i \<notin> set (v_io v)" using assms(1) by (auto simp: task_data_def)
  have m: "?op \<in> set (t_inflight s) \<and> mset (remove1 ?op (t_inflight s)) = mset (map (io_op p (v_addr v)) (v_io v))"
    by (rule mset_remove1_first) (use assms in \<open>simp add: task_data_def\<close>)
  have "op_effect ?op x ?s = Some (?s\<lparr>t_rbuffer := Some (rbs[?i := ?rb])\<rparr>)"
    using rbs assms(3) by (simp add: get_rbuffer_def set_rbuffer_def task_bufs_def)
  then have "end_op ?op x s = Some (?s\<lparr>t_rbuffer := Some (rbs[?i := ?rb])\<rparr>)" using m by (simp add: end_op_def)
  moreover have "image_mset (io_op p ?b) (mset (v_io v)) = image_mset (io_op p (v_addr v)) (mset (v_io v))"
    using io by (intro image_mset_cong) (auto simp: io_op_def)
  moreover have "concat (map (ops p ?b) [0 ..< ?i]) = concat (map (ops p (v_addr v)) [0 ..< ?i])"
  proof (rule arg_cong [OF map_cong [OF refl]])
    fix j assume "j \<in> set [0 ..< ?i]"
    then have "?b j = v_addr v j" by simp
    then show "ops p ?b j = ops p (v_addr v) j" using assms(5) unfolding own_ops_def by blast
  qed
  moreover have "task_bufs p (v\<lparr>v_ops := [], v_hold := True, v_addr := ?b\<rparr>) (rbs[?i := ?rb])"
    using rbs(2) io assms(3,4) by (auto simp: task_bufs_def view_buf_def nth_list_update)
  ultimately show ?thesis
    using assms(1) m by (intro exI [of _ "?s\<lparr>t_rbuffer := Some (rbs[?i := ?rb])\<rparr>"])
      (simp add: task_data_def same_count_def)
qed

lemma get_rbuffer_data:
  assumes "task_data ops p v s" "j < plan_ops p"
  shows "\<exists>rb. get_rbuffer j s = Some rb \<and> rb_buffer rb = view_buf v j"
  using assms by (auto simp: task_data_def task_bufs_def get_rbuffer_def)

text \<open>
  Starting an operation that uses the slot: the task falls asleep, or goes straight to the method it
  would wake up in.
\<close>

lemma start_op_data:
  fixes s :: "'m task_sm"
  assumes "sm_body s" "task_data ops p v s" "v_ops v = []"
    and fin: "\<And>x (s0 :: 'm task_sm). task_data ops p (v\<lparr>v_tail := v_tail v @ [op], v_ops := [op]\<rparr>) s0 \<Longrightarrow>
      \<exists>s1. end_op op x s0 = Some s1 \<and> same_count s0 s1 \<and> task_data ops p (w x) s1"
  shows "\<exists>s1. start_op early op n s = Some s1 \<and> same_count s s1 \<and>
    (case early of
       None \<Rightarrow> sm_asleep n s1 \<and> task_data ops p (v\<lparr>v_tail := v_tail v @ [op], v_ops := [op]\<rparr>) s1
     | Some x \<Rightarrow> sm_at n s1 \<and> task_data ops p (w x) s1)"
proof -
  have b: "task_data ops p (v\<lparr>v_tail := v_tail v @ [op], v_ops := [op]\<rparr>) (begin_op op s)"
    using task_data_begin [OF assms(2), of op] assms(3) by simp
  show ?thesis
  proof (cases early)
    case None
    obtain xs where "start_op None op n s = Some ((begin_op op s)\<lparr>sm_slots := xs, sm_refs := 2\<rparr>)"
      "sm_asleep n ((begin_op op s)\<lparr>sm_slots := xs, sm_refs := 2\<rparr>)"
      using start_op_late [OF assms(1)] by blast
    then show ?thesis using None b
      by (intro exI [of _ "(begin_op op s)\<lparr>sm_slots := xs, sm_refs := 2\<rparr>"]) (simp add: same_count_def begin_op_def)
  next
    case (Some x)
    obtain s1 where s1: "end_op op x (begin_op op s) = Some s1" "same_count (begin_op op s) s1" "task_data ops p (w x) s1"
      using fin [OF b] by blast
    obtain xs where
      "start_op (Some x) op n s = Some (s1\<lparr>sm_slots := xs, sm_refs := 1, sm_next := Some n, sm_next_status := CB_None\<rparr>)"
      "sm_at n (s1\<lparr>sm_slots := xs, sm_refs := 1, sm_next := Some n, sm_next_status := CB_None\<rparr>)"
      using start_op_early [OF assms(1) s1(1)] by blast
    then show ?thesis using Some s1(2,3)
      by (intro exI [of _ "s1\<lparr>sm_slots := xs, sm_refs := 1, sm_next := Some n, sm_next_status := CB_None\<rparr>"])
        (simp add: same_count_def begin_op_def)
  qed
qed

text \<open>The two kinds of operations the pipelines start this way.\<close>

definition started :: "'m \<Rightarrow> bool \<Rightarrow> 'm task_sm \<Rightarrow> bool" where
  "started n late s \<longleftrightarrow> (if late then sm_asleep n s else sm_at n s)"

lemma start_plain:
  fixes s :: "'m task_sm"
  assumes "sm_body s" "task_data ops p v s" "v_ops v = []" "plain_op op"
  shows "\<exists>s1. start_op early op n s = Some s1 \<and> same_count s s1 \<and> started n (early = None) s1 \<and>
    task_data ops p (v\<lparr>v_tail := v_tail v @ [op], v_ops := (if early = None then [op] else [])\<rparr>) s1"
proof -
  have "\<exists>s1. start_op early op n s = Some s1 \<and> same_count s s1 \<and>
    (case early of
       None \<Rightarrow> sm_asleep n s1 \<and> task_data ops p (v\<lparr>v_tail := v_tail v @ [op], v_ops := [op]\<rparr>) s1
     | Some x \<Rightarrow> sm_at n s1 \<and> task_data ops p (v\<lparr>v_tail := v_tail v @ [op], v_ops := []\<rparr>) s1)"
  proof (rule start_op_data [OF assms(1-3)])
    fix x and s0 :: "'m task_sm"
    assume "task_data ops p (v\<lparr>v_tail := v_tail v @ [op], v_ops := [op]\<rparr>) s0"
    from end_plain [OF this _ assms(4), of x]
    show "\<exists>s1. end_op op x s0 = Some s1 \<and> same_count s0 s1 \<and>
      task_data ops p (v\<lparr>v_tail := v_tail v @ [op], v_ops := []\<rparr>) s1" by auto
  qed
  then show ?thesis by (cases early) (auto simp: started_def)
qed

definition alloc_view :: "(addr \<times> int) option \<Rightarrow> task_view \<Rightarrow> task_view" where
  "alloc_view early v =
     (case early of
        None \<Rightarrow> v\<lparr>v_tail := v_tail v @ [Op_Alloc (v_index v)], v_ops := [Op_Alloc (v_index v)]\<rparr>
      | Some x \<Rightarrow> v\<lparr>v_tail := v_tail v @ [Op_Alloc (v_index v)], v_ops := [], v_hold := True,
          v_addr := (v_addr v)(v_index v := fst x)\<rparr>)"

lemma start_alloc:
  fixes s :: "'m task_sm"
  assumes "sm_body s" "task_data ops p v s" "v_ops v = []" "v_index v < plan_ops p" "\<not> v_hold v" "own_ops ops"
  shows "\<exists>s1. start_op early (Op_Alloc (v_index v)) n s = Some s1 \<and> same_count s s1 \<and> started n (early = None) s1 \<and>
    task_data ops p (alloc_view early v) s1"
proof -
  let ?op = "Op_Alloc (v_index v)"
  have "\<exists>s1. start_op early ?op n s = Some s1 \<and> same_count s s1 \<and>
    (case early of
       None \<Rightarrow> sm_asleep n s1 \<and> task_data ops p (v\<lparr>v_tail := v_tail v @ [?op], v_ops := [?op]\<rparr>) s1
     | Some x \<Rightarrow> sm_at n s1 \<and> task_data ops p (alloc_view (Some x) v) s1)"
  proof (rule start_op_data [OF assms(1-3)])
    fix x and s0 :: "'m task_sm"
    assume "task_data ops p (v\<lparr>v_tail := v_tail v @ [?op], v_ops := [?op]\<rparr>) s0"
    from end_alloc [OF this _ _ _ assms(6), of x] assms(4,5)
    show "\<exists>s1. end_op ?op x s0 = Some s1 \<and> same_count s0 s1 \<and> task_data ops p (alloc_view (Some x) v) s1"
      by (simp add: alloc_view_def)
  qed
  then show ?thesis by (cases early) (auto simp: started_def alloc_view_def)
qed

subsection \<open>From the request to the view\<close>

definition fresh_task :: "req_param \<Rightarrow> 'm task_sm \<Rightarrow> bool" where
  "fresh_task p s \<longleftrightarrow> t_param s = p \<and> t_total_bytes s = 0 \<and> t_cur_bytes s = 0 \<and> t_index s = 0 \<and> t_ops_done s = 0 \<and>
     t_ret s = ZFS_OK \<and> t_inflight s = [] \<and> t_trace s = [] \<and> t_results s = []"

definition first_view :: "'m task_sm \<Rightarrow> task_view" where
  "first_view s = \<lparr>v_addr = (\<lambda>j. 0), v_index = 0, v_io = [], v_tail = [], v_ops = [], v_hold = False, v_ret = False, v_siz = t_p_siz s, v_res = []\<rparr>"

lemma decode_data:
  assumes "good_pipeline p" "fresh_task p s" "sm_body s"
  shows "\<exists>s1. task_decode a m s = Some (setNextMethod m CB_None s1) \<and> task_data ops p (first_view s) s1 \<and>
    same_count s s1 \<and> sm_body s1"
proof -
  let ?s = "s\<lparr>t_total_bytes := plan_total p, t_pipeline_size := plan_ps p, t_pipeline_ops := plan_ops p,
    t_vecs := plan_vecs p, t_rbuffer := Some (plan_buffers (plan_total p) (plan_ps p) (plan_ops p))\<rparr>"
  have tot: "t_total_bytes s + sum_list (rp_mem_sizes (t_param s)) = plan_total p" "t_param s = p"
    using assms(2) by (simp_all add: fresh_task_def plan_total_def)
  have "plan_ps p \<noteq> 0" "rp_pipeline_size p \<noteq> 0" "plan_total p < 9007199254740992" "int (plan_ops p) < 2147483648"
    using assms(1) good_pipeline_ps [OF assms(1)] by (auto simp: good_pipeline_def word_gt_0)
  then have "task_decode a m s = Some (setNextMethod m CB_None ?s)"
    using plan_vecs_Some(1) [OF assms(1)] tot
    by (simp add: task_decode_def Let_def plan_ops_def flip: plan_ps_def)
  moreover have "task_bufs p (first_view s) (plan_buffers (plan_total p) (plan_ps p) (plan_ops p))"
    by (simp add: task_bufs_def first_view_def view_buf_def plan_buffers_def new_RetrievedBuffer_def)
  then have "task_data ops p (first_view s) ?s"
    using assms(2) by (simp add: task_data_def fresh_task_def first_view_def plan_cur_0 last_error_def)
  moreover have "sm_body ?s" using assms(3) by (simp add: sm_state_defs)
  ultimately show ?thesis by (intro exI [of _ ?s]) (simp add: same_count_def)
qed

text \<open>The arrays of the current buffer: it must have been allocated.\<close>

lemma arrays_data:
  assumes "good_pipeline p" "task_data ops p v s" "v_hold v" "v_index v < plan_ops p"
  shows "\<exists>rb rbs. get_rbuffer (v_index v) s = Some rb \<and>
    task_arrays (set_rbuffer (v_index v) (rb\<lparr>rb_siz := z, rb_off := o'\<rparr>) s) =
      Some (s\<lparr>t_rbuffer := Some rbs\<rparr>, plan_arrays p (v_addr v (v_index v)) (v_index v)) \<and>
    task_bufs p v rbs \<and> rb_ret (rbs ! v_index v) \<noteq> None"
proof -
  let ?i = "v_index v"
  obtain rbs where rbs: "t_rbuffer s = Some rbs" "task_bufs p v rbs" using assms(2) by (auto simp: task_data_def)
  have io: "?i \<notin> set (v_io v)" and i: "t_index s = ?i" "t_vecs s = plan_vecs p" using assms(2) by (auto simp: task_data_def)
  let ?rb = "(rbs ! ?i)\<lparr>rb_siz := z, rb_off := o'\<rparr>"
  let ?rb2 = "?rb\<lparr>rb_arrays := Some (plan_arrays p (v_addr v ?i) ?i), rb_ret := Some 0\<rparr>"
  have len: "?i < length rbs" and b: "rb_buffer (rbs ! ?i) = Some (v_addr v ?i)"
    using rbs(2) assms(3,4) by (auto simp: task_bufs_def view_buf_def)
  have "get_rbuffer ?i s = Some (rbs ! ?i)" using rbs(1) len by (simp add: get_rbuffer_def)
  moreover have "task_arrays (set_rbuffer ?i ?rb s) = Some (s\<lparr>t_rbuffer := Some (rbs[?i := ?rb2])\<rparr>, plan_arrays p (v_addr v ?i) ?i)"
    using rbs(1) len b i plan_arrays_Some(1) [OF assms(1,4), of "v_addr v ?i"]
    by (simp add: task_arrays_def get_rbuffer_def set_rbuffer_def)
  moreover have "task_bufs p v (rbs[?i := ?rb2])"
    using rbs(2) io len b by (auto simp: task_bufs_def nth_list_update)
  moreover have "rb_ret (rbs[?i := ?rb2] ! ?i) \<noteq> None" using len by simp
  ultimately show ?thesis by blast
qed

text \<open>The completion of an I/O call, its result and the release of its buffer.\<close>

lemma release_data:
  assumes "j \<in> set (v_io v)" "j < plan_ops p" "t_rbuffer s = Some rbs" "task_bufs p v rbs" "distinct (v_io v)"
    "\<not> (v_hold v \<and> j = v_index v)"
  shows "\<exists>rbs'. task_release j s = Some (s\<lparr>t_rbuffer := Some rbs'\<rparr>) \<and> task_bufs p (v\<lparr>v_io := remove1 j (v_io v)\<rparr>) rbs'"
proof -
  have len: "j < length rbs" and b: "rb_buffer (rbs ! j) = Some (v_addr v j)"
    using assms(1,2,4) by (auto simp: task_bufs_def view_buf_def)
  have "task_release j s = Some (s\<lparr>t_rbuffer := Some (rbs[j := (rbs ! j)\<lparr>rb_buffer := None\<rparr>])\<rparr>)"
    using assms(3) len b by (simp add: task_release_def releaseBuffer_def get_rbuffer_def set_rbuffer_def)
  moreover have "task_bufs p (v\<lparr>v_io := remove1 j (v_io v)\<rparr>) (rbs[j := (rbs ! j)\<lparr>rb_buffer := None\<rparr>])"
    using assms(4,5,6) len by (auto simp: task_bufs_def view_buf_def nth_list_update)
  ultimately show ?thesis by blast
qed

text \<open>The completion of an I/O call that was started with the slot, for the current buffer.\<close>

lemma end_io:
  assumes "task_data ops p v s" "v_ops v = [io_op p (v_addr v) (v_index v)]" "v_index v < plan_ops p"
  shows "\<exists>s1. end_op (io_op p (v_addr v) (v_index v)) x s = Some s1 \<and> same_count s s1 \<and> task_data ops p (v\<lparr>v_ops := []\<rparr>) s1"
proof -
  let ?i = "v_index v" let ?op = "io_op p (v_addr v) ?i"
  obtain rbs where rbs: "t_rbuffer s = Some rbs" "task_bufs p v rbs" using assms(1) by (auto simp: task_data_def)
  let ?rbs = "rbs[?i := (rbs ! ?i)\<lparr>rb_ret := Some (snd x)\<rparr>]"
  let ?s = "s\<lparr>t_inflight := remove1 ?op (t_inflight s), t_rbuffer := Some ?rbs\<rparr>"
  have len: "?i < length rbs" using rbs(2) assms(3) by (simp add: task_bufs_def)
  have m: "?op \<in> set (t_inflight s) \<and> mset (remove1 ?op (t_inflight s)) = mset (map (io_op p (v_addr v)) (v_io v))"
    by (rule mset_remove1_first) (use assms in \<open>simp add: task_data_def\<close>)
  then have "end_op ?op x s = Some ?s" using rbs(1) len by (simp add: end_op_def io_op_def get_rbuffer_def set_rbuffer_def)
  moreover have "task_bufs p v ?rbs" using rbs(2) len by (auto simp: task_bufs_def nth_list_update)
  then have "task_data ops p (v\<lparr>v_ops := []\<rparr>) ?s" using assms(1) m by (simp add: task_data_def)
  ultimately show ?thesis by (simp add: same_count_def)
qed

lemma start_io:
  fixes s :: "'m task_sm"
  assumes "sm_body s" "task_data ops p v s" "v_ops v = []" "v_index v < plan_ops p"
  shows "\<exists>s1. start_op early (io_op p (v_addr v) (v_index v)) n s = Some s1 \<and> same_count s s1 \<and> started n (early = None) s1 \<and>
    task_data ops p (v\<lparr>v_tail := v_tail v @ [io_op p (v_addr v) (v_index v)],
      v_ops := (if early = None then [io_op p (v_addr v) (v_index v)] else [])\<rparr>) s1"
proof -
  let ?op = "io_op p (v_addr v) (v_index v)"
  have "\<exists>s1. start_op early ?op n s = Some s1 \<and> same_count s s1 \<and>
    (case early of
       None \<Rightarrow> sm_asleep n s1 \<and> task_data ops p (v\<lparr>v_tail := v_tail v @ [?op], v_ops := [?op]\<rparr>) s1
     | Some x \<Rightarrow> sm_at n s1 \<and> task_data ops p (v\<lparr>v_tail := v_tail v @ [?op], v_ops := []\<rparr>) s1)"
  proof (rule start_op_data [OF assms(1-3)])
    fix x and s0 :: "'m task_sm"
    assume "task_data ops p (v\<lparr>v_tail := v_tail v @ [?op], v_ops := [?op]\<rparr>) s0"
    from end_io [OF this, of x] assms(4)
    show "\<exists>s1. end_op ?op x s0 = Some s1 \<and> same_count s0 s1 \<and> task_data ops p (v\<lparr>v_tail := v_tail v @ [?op], v_ops := []\<rparr>) s1"
      by simp
  qed
  then show ?thesis by (cases early) (auto simp: started_def)
qed

end
