(* ===== verification/Write_Task.thy ===== *)
theory Write_Task
  imports Task_Plan
begin

text \<open>
  The write task (\<open>src/iofwd/tasksm/WriteTaskSM.hh\<close>, \<open>src/iofwd/tasksm/WriteTaskSM.cpp\<close>): a state machine
  that receives the data of a client and writes it, either in one piece or as a pipeline of buffers. In
  pipeline mode the writes run in parallel and a barrier holds back the reply until all are done.
\<close>

datatype write_method =
    W_init | W_decodeInputParams
  | W_postAllocateSingleBuffer | W_waitAllocateSingleBuffer
  | W_postRecvInputBuffers | W_waitRecvInputBuffers
  | W_postEnqueueWrite | W_waitEnqueueWrite
  | W_postReply | W_waitReply
  | W_postAllocateBuffer | W_waitAllocateBuffer
  | W_postRecvPipelineBuffer | W_waitRecvPipelineBuffer
  | W_postPipelineEnqueueWrite | W_waitPipelineEnqueueWrite
  | W_waitWriteBarrier

type_synonym write_sm = "write_method task_sm"

subsection \<open>Operations\<close>

definition w_getSingleBuffer :: "(addr \<times> int) option \<Rightarrow> write_sm \<Rightarrow> write_sm option" where
  "w_getSingleBuffer early s = do { get_rbuffer 0 s; start_op early (Op_Alloc 0) W_waitAllocateSingleBuffer s }"

definition w_getBuffer :: "(addr \<times> int) option \<Rightarrow> write_sm \<Rightarrow> write_sm option" where
  "w_getBuffer early s = do { get_rbuffer (t_index s) s; start_op early (Op_Alloc (t_index s)) W_waitAllocateBuffer s }"

definition recvBuffers :: "(addr \<times> int) option \<Rightarrow> write_sm \<Rightarrow> write_sm option" where
  "recvBuffers early s = do { get_rbuffer 0 s; start_op early (Op_NetAll 0) W_waitRecvInputBuffers s }"

definition recvPipelineBuffer :: "(addr \<times> int) option \<Rightarrow> write_sm \<Rightarrow> write_sm option" where
  "recvPipelineBuffer early s = do {
     let s1 = s\<lparr>t_p_siz := min (t_pipeline_size s) (t_total_bytes s - t_cur_bytes s)\<rparr>;
     rb \<leftarrow> get_rbuffer (t_index s1) s1;
     rb_buffer rb;
     start_op early (Op_Net (t_index s1) (t_p_siz s1)) W_waitRecvPipelineBuffer s1
   }"

definition writeNormal :: "(addr \<times> int) option \<Rightarrow> write_sm \<Rightarrow> write_sm option" where
  "writeNormal early s = start_op early (Op_IOAll (param_extents (t_param s))) W_waitEnqueueWrite s"

text \<open>
  \<open>execPipelineIO\<close>. In parallel mode the call is made with \<open>slot_mutex_\<close> held, and its callback
  \<open>writeDoneCB\<close> takes the same mutex: a call that completes at once would never return.
\<close>

definition w_execPipelineIO :: "(addr \<times> int) option \<Rightarrow> write_sm \<Rightarrow> write_sm option" where
  "w_execPipelineIO early s = do {
     (s1, es) \<leftarrow> task_arrays s;
     if \<not> t_parallel s1 then start_op early (Op_IO (t_index s1) es) W_waitPipelineEnqueueWrite s1
     else do {
       let my_slot = t_index s1;
       let s2 = s1\<lparr>t_index := t_index s1 + 1, t_cur_bytes := t_cur_bytes s1 + t_p_siz s1\<rparr>;
       assert_that (early = None);
       let s3 = begin_op (Op_IO my_slot es) s2;
       if t_cur_bytes s3 = t_total_bytes s3
       then do { s4 \<leftarrow> slots_arm 0 s3; slots_wait 0 W_waitWriteBarrier (s4\<lparr>t_barrier := True\<rparr>) }
       else Some (setNextMethod W_waitPipelineEnqueueWrite CB_None s3)
     }
   }"

text \<open>
  The callback of a parallel write: the environment stores the result, the callback counts, keeps
  an error and frees the buffer; the last one passes the barrier.
\<close>

definition writeDoneCB :: "nat \<Rightarrow> write_sm \<Rightarrow> write_sm option" where
  "writeDoneCB my_slot s = do {
     s1 \<leftarrow> task_result my_slot (s\<lparr>t_ops_done := t_ops_done s + 1\<rparr>);
     s2 \<leftarrow> task_release my_slot s1;
     if t_ops_done s2 = t_pipeline_ops s2
     then do { assert_that (t_barrier s2); callbackhelper 0 CB_None s2 }
     else Some s2
   }"

subsection \<open>Methods\<close>

definition w_waitPipelineEnqueueWrite :: "cb_exception \<Rightarrow> write_sm \<Rightarrow> write_sm option" where
  "w_waitPipelineEnqueueWrite e s = do {
     assert_that (\<not> hasException e);
     if \<not> t_parallel s
     then do {
       s1 \<leftarrow> task_result (t_index s) s;
       s2 \<leftarrow> task_release (t_index s1) (s1\<lparr>t_cur_bytes := t_cur_bytes s1 + t_p_siz s1\<rparr>);
       let s3 = s2\<lparr>t_index := t_index s2 + 1\<rparr>;
       Some (setNextMethod (if t_cur_bytes s3 < t_total_bytes s3 then W_postAllocateBuffer else W_postReply) CB_None s3)
     }
     else Some (if t_cur_bytes s < t_total_bytes s then setNextMethod W_postAllocateBuffer CB_None s else s)
   }"

definition w_waitWriteBarrier :: "cb_exception \<Rightarrow> write_sm \<Rightarrow> write_sm option" where
  "w_waitWriteBarrier e s = do {
     assert_that (\<not> hasException e);
     Some (if t_ops_done s = t_pipeline_ops s then setNextMethod W_postReply CB_None s else s)
   }"

fun write_call :: "(addr \<times> int) option \<Rightarrow> write_method \<Rightarrow> cb_exception \<Rightarrow> write_sm \<Rightarrow> write_sm option" where
  "write_call early W_init e s = do { assert_that (\<not> hasException e); Some (setNextMethod W_decodeInputParams CB_None s) }"
| "write_call early W_decodeInputParams e s = do {
     assert_that (\<not> hasException e); task_decode W_postAllocateSingleBuffer W_postAllocateBuffer s }"
| "write_call early W_postAllocateSingleBuffer e s = do { assert_that (\<not> hasException e); w_getSingleBuffer early s }"
| "write_call early W_waitAllocateSingleBuffer e s = do {
     assert_that (\<not> hasException e);
     rb \<leftarrow> get_rbuffer 0 s;
     mem \<leftarrow> rb_buffer rb;
     Some (setNextMethod W_postRecvInputBuffers CB_None (s\<lparr>t_param := initRequestParams (t_param s) mem\<rparr>)) }"
| "write_call early W_postRecvInputBuffers e s = do { assert_that (\<not> hasException e); recvBuffers early s }"
| "write_call early W_waitRecvInputBuffers e s = do {
     assert_that (\<not> hasException e); Some (setNextMethod W_postEnqueueWrite CB_None s) }"
| "write_call early W_postEnqueueWrite e s = do { assert_that (\<not> hasException e); writeNormal early s }"
| "write_call early W_waitEnqueueWrite e s = do {
     assert_that (\<not> hasException e);
     s1 \<leftarrow> task_release 0 s;
     Some (setNextMethod W_postReply CB_None s1) }"
| "write_call early W_postReply e s = do { assert_that (\<not> hasException e); task_reply early W_waitReply s }"
| "write_call early W_waitReply e s = do { assert_that (\<not> hasException e); Some s }"
| "write_call early W_postAllocateBuffer e s = do { assert_that (\<not> hasException e); w_getBuffer early s }"
| "write_call early W_waitAllocateBuffer e s = do {
     assert_that (\<not> hasException e); Some (setNextMethod W_postRecvPipelineBuffer CB_None s) }"
| "write_call early W_postRecvPipelineBuffer e s = do { assert_that (\<not> hasException e); recvPipelineBuffer early s }"
| "write_call early W_waitRecvPipelineBuffer e s = do {
     assert_that (\<not> hasException e); Some (setNextMethod W_postPipelineEnqueueWrite CB_None s) }"
| "write_call early W_postPipelineEnqueueWrite e s = do {
     assert_that (\<not> hasException e);
     rb \<leftarrow> get_rbuffer (t_index s) s;
     w_execPipelineIO early (set_rbuffer (t_index s) (rb\<lparr>rb_siz := t_p_siz s, rb_off := t_cur_bytes s\<rparr>) s) }"
| "write_call early W_waitPipelineEnqueueWrite e s = w_waitPipelineEnqueueWrite e s"
| "write_call early W_waitWriteBarrier e s = w_waitWriteBarrier e s"

text \<open>A new write task, as the request handler creates it.\<close>

definition WriteTaskSM :: "req_param \<Rightarrow> write_sm" where
  "WriteTaskSM p = new_task 1 W_init True p"

subsection \<open>Steps\<close>

text \<open>
  The thread that executes the machine takes it from the pool, runs its methods and stops; the
  environment completes operations. Writes of the pipeline complete through \<open>writeDoneCB\<close>, in any
  order and also while the machine runs; all other operations through the slot.
\<close>

fun is_pipe_write :: "task_op \<Rightarrow> bool" where
  "is_pipe_write (Op_IO i es) = True"
| "is_pipe_write _ = False"

definition finish_write :: "nat \<Rightarrow> extent list \<Rightarrow> addr \<times> int \<Rightarrow> write_sm \<Rightarrow> write_sm option" where
  "finish_write i es v s = do { s1 \<leftarrow> end_op (Op_IO i es) v s; writeDoneCB i s1 }"

inductive wt_step :: "write_sm \<Rightarrow> write_sm \<Rightarrow> bool" where
  Start: "unit_start s = Some s1 \<Longrightarrow> exec_start s1 = Some s2 \<Longrightarrow> wt_step s s2"
| Method: "sm_running s \<Longrightarrow> exec_method (write_call early) s = Some s1 \<Longrightarrow> wt_step s s1"
| Stop: "sm_running s \<Longrightarrow> exec_stops s \<Longrightarrow> exec_end s = Some s1 \<Longrightarrow> sm_release s1 = Some s2 \<Longrightarrow> wt_step s s2"
| Complete: "\<not> sm_running s \<Longrightarrow> \<not> is_pipe_write op \<Longrightarrow> complete_op op v s = Some s1 \<Longrightarrow> wt_step s s1"
| Finish: "finish_write i es v s = Some s1 \<Longrightarrow> wt_step s s1"

subsection \<open>Where a write task is\<close>

text \<open>The operations for one buffer, in order.\<close>

definition write_ops :: "req_param \<Rightarrow> (nat \<Rightarrow> addr) \<Rightarrow> nat \<Rightarrow> task_op list" where
  "write_ops p b i = [Op_Alloc i, Op_Net i (plan_size p i), io_op p b i]"

text \<open>What the view is at each method of the pipeline, and in each sleep.\<close>

definition w_free :: "req_param \<Rightarrow> task_view \<Rightarrow> bool" where
  "w_free p v \<longleftrightarrow> v_index v < plan_ops p \<and> v_tail v = [] \<and> v_ops v = [] \<and> \<not> v_hold v"

definition w_held :: "req_param \<Rightarrow> task_view \<Rightarrow> bool" where
  "w_held p v \<longleftrightarrow> v_index v < plan_ops p \<and> v_tail v = [Op_Alloc (v_index v)] \<and> v_ops v = [] \<and> v_hold v"

definition w_full :: "req_param \<Rightarrow> task_view \<Rightarrow> bool" where
  "w_full p v \<longleftrightarrow> v_index v < plan_ops p \<and> v_tail v = [Op_Alloc (v_index v), Op_Net (v_index v) (plan_size p (v_index v))] \<and>
     v_ops v = [] \<and> v_hold v \<and> v_siz v = plan_size p (v_index v)"

definition w_over :: "req_param \<Rightarrow> task_view \<Rightarrow> bool" where
  "w_over p v \<longleftrightarrow> v_index v = plan_ops p \<and> v_io v = [] \<and> \<not> v_hold v"

fun w_ok :: "req_param \<Rightarrow> write_method ctl \<Rightarrow> task_view \<Rightarrow> bool" where
  "w_ok p (At W_postAllocateBuffer) v = w_free p v"
| "w_ok p (At W_waitPipelineEnqueueWrite) v = w_free p v"
| "w_ok p (At W_waitAllocateBuffer) v = w_held p v"
| "w_ok p (At W_postRecvPipelineBuffer) v = w_held p v"
| "w_ok p (At W_waitRecvPipelineBuffer) v = w_full p v"
| "w_ok p (At W_postPipelineEnqueueWrite) v = w_full p v"
| "w_ok p (At W_waitWriteBarrier) v = (w_over p v \<and> v_tail v = [] \<and> v_ops v = [])"
| "w_ok p (At W_postReply) v = (w_over p v \<and> v_tail v = [] \<and> v_ops v = [])"
| "w_ok p (At W_waitReply) v = (w_over p v \<and> v_tail v = [Op_Reply (last_error (v_res v))] \<and> v_ops v = [])"
| "w_ok p (Asleep W_waitAllocateBuffer) v =
     (v_index v < plan_ops p \<and> v_tail v = [Op_Alloc (v_index v)] \<and> v_ops v = [Op_Alloc (v_index v)] \<and> \<not> v_hold v)"
| "w_ok p (Asleep W_waitRecvPipelineBuffer) v =
     (w_full p (v\<lparr>v_ops := []\<rparr>) \<and> v_ops v = [Op_Net (v_index v) (plan_size p (v_index v))])"
| "w_ok p (Asleep W_waitWriteBarrier) v =
     (v_index v = plan_ops p \<and> v_io v \<noteq> [] \<and> \<not> v_hold v \<and> v_tail v = [] \<and> v_ops v = [])"
| "w_ok p (Asleep W_waitReply) v =
     (w_over p v \<and> v_tail v = [Op_Reply (last_error (v_res v))] \<and> v_ops v = [Op_Reply (last_error (v_res v))])"
| "w_ok p Done v = (w_over p v \<and> v_tail v = [Op_Reply (last_error (v_res v))] \<and> v_ops v = [])"
| "w_ok p Dead v = (w_over p v \<and> v_tail v = [Op_Reply (last_error (v_res v))] \<and> v_ops v = [])"
| "w_ok p _ v = False"

definition w_count :: "write_method ctl \<Rightarrow> task_view \<Rightarrow> write_sm \<Rightarrow> bool" where
  "w_count c v s \<longleftrightarrow> t_parallel s \<and> t_ops_done s + length (v_io v) = v_index v \<and> length (v_res v) = t_ops_done s \<and>
     (c = Asleep W_waitWriteBarrier \<longrightarrow> t_barrier s)"

definition w_at :: "req_param \<Rightarrow> write_method ctl \<Rightarrow> task_view \<Rightarrow> write_sm \<Rightarrow> bool" where
  "w_at p c v s \<longleftrightarrow> sm_ctl c s \<and> task_data write_ops p v s \<and> w_ok p c v \<and> w_count c v s"

definition w_inv :: "req_param \<Rightarrow> write_sm \<Rightarrow> bool" where
  "w_inv p s \<longleftrightarrow> (\<exists>c. sm_ctl c s \<and> (c = At W_init \<or> c = At W_decodeInputParams) \<and> fresh_task p s \<and> t_parallel s) \<or>
     (\<exists>c v. w_at p c v s)"

lemma w_atI: "w_at p c v s \<Longrightarrow> w_inv p s"
  by (auto simp: w_inv_def)

lemma w_freshI: "sm_ctl c s \<Longrightarrow> c = At W_init \<or> c = At W_decodeInputParams \<Longrightarrow> fresh_task p s \<Longrightarrow> t_parallel s \<Longrightarrow> w_inv p s"
  by (auto simp: w_inv_def)

lemma w_inv_cases:
  assumes "w_inv p s"
  obtains (fresh) c where "sm_ctl c s" "c = At W_init \<or> c = At W_decodeInputParams" "fresh_task p s" "t_parallel s"
    | (pipe) c v where "w_at p c v s"
  using assms unfolding w_inv_def by blast

lemma own_write_ops: "own_ops write_ops"
  by (simp add: own_ops_def write_ops_def io_op_def)

subsection \<open>The methods keep it\<close>

lemma w_count_same: "w_count c v s \<Longrightarrow> same_count s s1 \<Longrightarrow> v_index w = v_index v \<Longrightarrow> v_io w = v_io v \<Longrightarrow> v_res w = v_res v \<Longrightarrow>
    c' \<noteq> Asleep W_waitWriteBarrier \<Longrightarrow> w_count c' w s1"
  by (simp add: w_count_def same_count_def)

lemma w_post_alloc:
  assumes "sm_body s" "task_data write_ops p v s" "w_free p v" "w_count c v s"
  shows "\<exists>s1. w_getBuffer early s = Some s1 \<and> w_inv p s1"
proof -
  let ?i = "v_index v" let ?m = W_waitAllocateBuffer
  have i: "t_index s = ?i" "?i < plan_ops p" "v_tail v = []" "v_ops v = []" "\<not> v_hold v"
    using assms(2,3) by (auto simp: task_data_def w_free_def)
  obtain s1 where s1: "start_op early (Op_Alloc ?i) ?m s = Some s1" "same_count s s1" "started ?m (early = None) s1"
    "task_data write_ops p (alloc_view early v) s1"
    using start_alloc [OF assms(1,2) i(4,2,5) own_write_ops] by blast
  have "w_at p (if early = None then Asleep ?m else At ?m) (alloc_view early v) s1"
    using s1 i w_count_same [OF assms(4) s1(2)]
    by (cases early) (auto simp: w_at_def started_def alloc_view_def w_held_def)
  then show ?thesis
    using s1(1) get_rbuffer_data [OF assms(2) i(2)] i(1) w_atI by (auto simp: w_getBuffer_def)
qed

lemma w_post_recv:
  assumes "sm_body s" "task_data write_ops p v s" "w_held p v" "w_count c v s"
  shows "\<exists>s1. recvPipelineBuffer early s = Some s1 \<and> w_inv p s1"
proof -
  let ?i = "v_index v" let ?m = W_waitRecvPipelineBuffer let ?z = "plan_size p ?i" let ?s = "s\<lparr>t_p_siz := ?z\<rparr>"
  let ?v = "v\<lparr>v_siz := ?z\<rparr>" let ?op = "Op_Net ?i ?z"
  let ?w = "?v\<lparr>v_tail := v_tail ?v @ [?op], v_ops := (if early = None then [?op] else [])\<rparr>"
  have i: "t_index s = ?i" "?i < plan_ops p" "v_tail v = [Op_Alloc ?i]" "v_ops v = []" "v_hold v"
    and z: "min (t_pipeline_size s) (t_total_bytes s - t_cur_bytes s) = ?z"
    using assms(2,3) by (auto simp: task_data_def w_held_def plan_size_def)
  have d: "sm_body ?s" "task_data write_ops p ?v ?s" "v_ops ?v = []" "plain_op ?op"
    using assms(1,2) i(4) by (simp_all add: sm_state_defs task_data_def plain_op_def)
  obtain s1 where s1: "start_op early ?op ?m ?s = Some s1" "same_count ?s s1" "started ?m (early = None) s1"
    "task_data write_ops p ?w s1"
    using start_plain [OF d] by blast
  have "same_count s s1" using s1(2) by (simp add: same_count_def)
  then have "w_at p (if early = None then Asleep ?m else At ?m) ?w s1"
    using s1 i w_count_same [OF assms(4)] by (auto simp: w_at_def started_def w_full_def)
  then show ?thesis
    using s1(1) get_rbuffer_data [OF assms(2) i(2)] i(1,5) z w_atI
    by (auto simp: recvPipelineBuffer_def view_buf_def Let_def)
qed

lemma w_post_reply:
  assumes "sm_body s" "task_data write_ops p v s" "w_over p v" "v_tail v = []" "v_ops v = []" "w_count c v s"
  shows "\<exists>s1. task_reply early W_waitReply s = Some s1 \<and> w_inv p s1"
proof -
  let ?m = W_waitReply let ?op = "Op_Reply (last_error (v_res v))"
  let ?w = "v\<lparr>v_tail := v_tail v @ [?op], v_ops := (if early = None then [?op] else [])\<rparr>"
  have r: "t_ret s = last_error (v_res v)" using assms(2) by (simp add: task_data_def)
  have "plain_op ?op" by (simp add: plain_op_def)
  then obtain s1 where s1: "start_op early ?op ?m s = Some s1" "same_count s s1" "started ?m (early = None) s1"
    "task_data write_ops p ?w s1"
    using start_plain [OF assms(1,2,5)] by blast
  then have "w_at p (if early = None then Asleep ?m else At ?m) ?w s1"
    using assms(3,4) w_count_same [OF assms(6)] by (auto simp: w_at_def started_def w_over_def)
  then show ?thesis using s1(1) r w_atI by (auto simp: task_reply_def)
qed

lemma w_exec_data:
  assumes "good_pipeline p" "task_data write_ops p v s" "w_full p v" "task_bufs p v rbs" "rb_ret (rbs ! v_index v) \<noteq> None"
  shows "task_data write_ops p
    (v\<lparr>v_index := Suc (v_index v), v_io := v_index v # v_io v, v_tail := [], v_ops := [], v_hold := False, v_ret := False\<rparr>)
    (begin_op (io_op p (v_addr v) (v_index v))
      (s\<lparr>t_rbuffer := Some rbs, t_index := t_index s + 1, t_cur_bytes := t_cur_bytes s + t_p_siz s\<rparr>))"
proof -
  let ?i = "v_index v"
  let ?v = "v\<lparr>v_index := Suc ?i, v_io := ?i # v_io v, v_tail := [], v_ops := [], v_hold := False, v_ret := False\<rparr>"
  have i: "?i < plan_ops p" "v_hold v" "v_siz v = plan_size p ?i" using assms(3) by (auto simp: w_full_def)
  have "view_buf ?v = view_buf v" using i(2) by (auto simp: view_buf_def fun_eq_iff)
  then have "task_bufs p ?v rbs" using assms(4,5) by (auto simp: task_bufs_def)
  moreover have "plan_cur p ?i + plan_size p ?i = plan_cur p (Suc ?i)" by (rule plan_cur_Suc [OF assms(1) i(1)])
  moreover have "set (?i # v_io v) \<subseteq> {..< Suc ?i}" "distinct (?i # v_io v)" using assms(2) by (auto simp: task_data_def)
  ultimately show ?thesis
    using assms(2,3) i by (simp add: task_data_def begin_op_def w_full_def write_ops_def io_op_def)
qed

lemma w_post_write:
  assumes "good_pipeline p" "sm_body s" "task_data write_ops p v s" "w_full p v" "w_count c v s"
  shows "\<exists>s1. write_call None W_postPipelineEnqueueWrite CB_None s = Some s1 \<and> w_inv p s1"
proof -
  let ?i = "v_index v"
  let ?v = "v\<lparr>v_index := Suc ?i, v_io := ?i # v_io v, v_tail := [], v_ops := [], v_hold := False, v_ret := False\<rparr>"
  have i: "?i < plan_ops p" "v_hold v" "t_index s = ?i" "t_parallel s" "t_ops_done s + length (v_io v) = ?i"
    "length (v_res v) = t_ops_done s"
    using assms(3-5) by (auto simp: w_full_def task_data_def w_count_def)
  obtain rb rbs where rb: "get_rbuffer ?i s = Some rb"
    "task_arrays (set_rbuffer ?i (rb\<lparr>rb_siz := t_p_siz s, rb_off := t_cur_bytes s\<rparr>) s) =
      Some (s\<lparr>t_rbuffer := Some rbs\<rparr>, plan_arrays p (v_addr v ?i) ?i)"
    "task_bufs p v rbs" "rb_ret (rbs ! ?i) \<noteq> None"
    using arrays_data [OF assms(1,3) i(2,1)] by blast
  let ?s = "begin_op (io_op p (v_addr v) ?i)
      (s\<lparr>t_rbuffer := Some rbs, t_index := t_index s + 1, t_cur_bytes := t_cur_bytes s + t_p_siz s\<rparr>)"
  have d: "task_data write_ops p ?v ?s" by (rule w_exec_data [OF assms(1,3,4) rb(3,4)])
  have n: "t_cur_bytes ?s = t_total_bytes ?s \<longleftrightarrow> Suc ?i = plan_ops p"
    using d plan_cur_end(1) [OF assms(1) i(1)] by (simp add: task_data_def)
  have b: "sm_body ?s" using assms(2) by (simp add: sm_state_defs begin_op_def)
  have cnt: "w_count (At W_waitPipelineEnqueueWrite) ?v ?s" using i by (simp add: w_count_def begin_op_def)
  have call: "write_call None W_postPipelineEnqueueWrite CB_None s =
      (if Suc ?i = plan_ops p
       then do { s4 \<leftarrow> slots_arm 0 ?s; slots_wait 0 W_waitWriteBarrier (s4\<lparr>t_barrier := True\<rparr>) }
       else Some (setNextMethod W_waitPipelineEnqueueWrite CB_None ?s))"
    using rb i n by (simp add: w_execPipelineIO_def Let_def io_op_def)
  show ?thesis
  proof (cases "Suc ?i = plan_ops p")
    case False
    then have "w_at p (At W_waitPipelineEnqueueWrite) ?v (setNextMethod W_waitPipelineEnqueueWrite CB_None ?s)"
      using d i(1) cnt sm_at_set_next [OF b, of W_waitPipelineEnqueueWrite]
      by (simp add: w_at_def w_free_def w_count_def setNextMethod_def)
    then show ?thesis using call False w_atI by auto
  next
    case True
    obtain k where k: "slots_arm 0 ?s = Some (?s\<lparr>sm_slots := waiting_slot None # replicate k new_Slot, sm_refs := 2\<rparr>)"
      using slots_arm_body [OF b] by blast
    let ?t = "?s\<lparr>sm_slots := waiting_slot None # replicate k new_Slot, sm_refs := 2, t_barrier := True\<rparr>"
    obtain xs where xs: "slots_wait 0 W_waitWriteBarrier ?t = Some (?t\<lparr>sm_slots := xs\<rparr>)"
      "sm_asleep W_waitWriteBarrier (?t\<lparr>sm_slots := xs\<rparr>)"
      using wait_late [of ?t k W_waitWriteBarrier] b by (auto simp: sm_body_def)
    then have "w_at p (Asleep W_waitWriteBarrier) ?v (?t\<lparr>sm_slots := xs\<rparr>)"
      using d True cnt by (simp add: w_at_def w_count_def)
    then show ?thesis using call True k xs(1) w_atI by auto
  qed
qed

text \<open>Every method that the machine comes to runs without a failed assertion and leads to the next point.\<close>

lemma w_method:
  assumes "good_pipeline p" "w_inv p s" "sm_at m s" "sm_running s" "early = None \<or> m \<noteq> W_postPipelineEnqueueWrite"
  shows "\<exists>s1. exec_method (write_call early) s = Some s1 \<and> w_inv p s1"
proof -
  let ?s = "s\<lparr>sm_next := None, sm_next_status := CB_None\<rparr>"
  have call: "exec_method (write_call early) s = write_call early m CB_None ?s" and b: "sm_body ?s"
    using exec_method_at [OF assms(3,4)] by simp_all
  have next_at: "w_inv p (setNextMethod n CB_None ?s)" if "w_at p (At n) v (setNextMethod n CB_None ?s)" for n v
    using that by (rule w_atI)
  consider (first) "m = W_init" "fresh_task p s" "t_parallel s" | (dec) "m = W_decodeInputParams" "fresh_task p s" "t_parallel s"
    | (pipe) v where "w_at p (At m) v s"
  proof -
    have c: "c = At m" if "sm_ctl c s" for c using ctl_at [OF that assms(3)] .
    from assms(2) show thesis unfolding w_inv_def
    proof (elim disjE exE conjE)
      fix c v assume "w_at p c v s"
      moreover from this have "c = At m" using c by (simp add: w_at_def)
      ultimately show thesis using pipe by simp
    next
      fix c assume f: "sm_ctl c s" "c = At W_init" "fresh_task p s" "t_parallel s"
      then have "m = W_init" using c [OF f(1)] by simp
      then show thesis using f(3,4) by (rule first)
    next
      fix c assume f: "sm_ctl c s" "c = At W_decodeInputParams" "fresh_task p s" "t_parallel s"
      then have "m = W_decodeInputParams" using c [OF f(1)] by simp
      then show thesis using f(3,4) by (rule dec)
    qed
  qed
  then show ?thesis
  proof cases
    case first
    have "sm_at W_decodeInputParams (setNextMethod W_decodeInputParams CB_None ?s)" by (rule sm_at_set_next [OF b])
    moreover have "fresh_task p (setNextMethod W_decodeInputParams CB_None ?s)" "t_parallel (setNextMethod W_decodeInputParams CB_None ?s)"
      using first by (simp_all add: fresh_task_def setNextMethod_def)
    ultimately have "w_inv p (setNextMethod W_decodeInputParams CB_None ?s)" unfolding w_inv_def
      by (intro disjI1 exI [of _ "At W_decodeInputParams"]) simp
    then show ?thesis using call first by simp
  next
    case dec
    have "fresh_task p ?s" using dec by (simp add: fresh_task_def)
    from decode_data [OF assms(1) this b, of W_postAllocateSingleBuffer W_postAllocateBuffer write_ops]
    obtain s1 where s1: "task_decode W_postAllocateSingleBuffer W_postAllocateBuffer ?s = Some (setNextMethod W_postAllocateBuffer CB_None s1)"
      "task_data write_ops p (first_view ?s) s1" "same_count ?s s1" "sm_body s1" by (elim exE conjE)
    have "w_at p (At W_postAllocateBuffer) (first_view ?s) (setNextMethod W_postAllocateBuffer CB_None s1)"
      using s1(2,3) sm_at_set_next [OF s1(4), of W_postAllocateBuffer] plan_ops_pos [OF assms(1)] dec
      by (simp add: w_at_def w_free_def first_view_def w_count_def same_count_def setNextMethod_def fresh_task_def)
    then show ?thesis using call dec s1(1) w_atI by auto
  next
    case (pipe v)
    have d: "task_data write_ops p v ?s" "w_ok p (At m) v" "w_count (At m) v ?s"
      using pipe by (simp_all add: w_at_def w_count_def)
    have go: "w_inv p (setNextMethod n CB_None ?s)" if "w_ok p (At n) v" for n
      using d(1,3) that sm_at_set_next [OF b, of n] w_atI [of p "At n" v]
      by (simp add: w_at_def w_count_def setNextMethod_def)
    show ?thesis
    proof (cases m)
      case W_postAllocateBuffer
      then show ?thesis using call d w_post_alloc [OF b d(1) _ d(3), of early] by simp
    next
      case W_waitAllocateBuffer
      then show ?thesis using call d go [of W_postRecvPipelineBuffer] by simp
    next
      case W_postRecvPipelineBuffer
      then show ?thesis using call d w_post_recv [OF b d(1) _ d(3), of early] by simp
    next
      case W_waitRecvPipelineBuffer
      then show ?thesis using call d go [of W_postPipelineEnqueueWrite] by simp
    next
      case W_postPipelineEnqueueWrite
      then show ?thesis using call d assms(5) w_post_write [OF assms(1) b d(1) _ d(3)] by simp
    next
      case W_waitPipelineEnqueueWrite
      have "t_cur_bytes ?s < t_total_bytes ?s"
        using d plan_ops_less [OF assms(1)] W_waitPipelineEnqueueWrite
        by (simp add: task_data_def w_free_def word_less_nat_alt unat_plan_cur)
      moreover have "t_parallel ?s" using d(3) by (simp add: w_count_def)
      ultimately show ?thesis using call d go [of W_postAllocateBuffer] W_waitPipelineEnqueueWrite
        by (simp add: w_waitPipelineEnqueueWrite_def)
    next
      case W_waitWriteBarrier
      then have "t_ops_done ?s = t_pipeline_ops ?s" using d by (simp add: task_data_def w_over_def w_count_def)
      then show ?thesis using call d go [of W_postReply] W_waitWriteBarrier
        by (simp add: w_waitWriteBarrier_def)
    next
      case W_postReply
      then show ?thesis using call d w_post_reply [OF b d(1) _ _ _ d(3), of early] by simp
    next
      case W_waitReply
      have "w_at p Done v ?s" using d b W_waitReply by (simp add: w_at_def w_count_def)
      then show ?thesis using call W_waitReply w_atI by auto
    qed (use d in simp_all)
  qed
qed

text \<open>A completion through the slot wakes the machine up at the next point.\<close>

lemma w_complete:
  assumes "w_inv p s" "\<not> sm_running s" "\<not> is_pipe_write op" "complete_op op x s = Some s1"
  shows "w_inv p s1"
proof -
  obtain s0 where s0: "end_op op x s = Some s0" using assms(4) by (auto simp: complete_op_def elim!: fault_elims)
  have op: "op \<in> set (t_inflight s)" using s0 by (auto simp: end_op_def elim!: fault_elims)
  obtain c v where w: "w_at p c v s"
    using assms(1) op unfolding w_inv_def by (auto simp: fresh_task_def)
  have d: "task_data write_ops p v s" "w_ok p c v" "w_count c v s" "sm_ctl c s" using w by (simp_all add: w_at_def)
  have ops: "op \<in> set (v_ops v)" using task_data_inflight [OF d(1) op] assms(3) by (auto simp: io_op_def)
  have wake: "w_inv p s1" if m: "sm_asleep m s" and e: "end_op op x s = Some s0" "same_count s s0" "task_data write_ops p u s0"
    and u: "w_ok p (At m) u" "v_index u = v_index v" "v_io u = v_io v" "v_res u = v_res v" for m u
  proof -
    obtain xs where xs: "complete_op op x s = Some (s0\<lparr>sm_slots := xs, sm_next := Some m, sm_next_status := CB_None, sm_queued := 1\<rparr>)"
      "sm_at m (s0\<lparr>sm_slots := xs, sm_next := Some m, sm_next_status := CB_None, sm_queued := 1\<rparr>)"
      using complete_op_Some [OF m assms(2) e(1)] by blast
    have "w_count (At m) u (s0\<lparr>sm_slots := xs, sm_next := Some m, sm_next_status := CB_None, sm_queued := 1\<rparr>)"
      using w_count_same [OF d(3) e(2), of u "At m"] u by (simp add: w_count_def)
    then have "w_at p (At m) u s1" using xs e(3) u(1) assms(4) by (simp add: w_at_def)
    then show ?thesis by (rule w_atI)
  qed
  have plain: "same_count s s0 \<and> task_data write_ops p (v\<lparr>v_ops := []\<rparr>) s0" if "v_ops v = [op]" "plain_op op"
    using end_plain [OF d(1) that, of x] s0 by auto
  have one: "v_ops v = [op]" using d(2) ops by (induction p c v rule: w_ok.induct) (auto simp: w_free_def w_held_def w_full_def)
  show ?thesis
  proof (cases c)
    case (Asleep m)
    show ?thesis
    proof (cases m)
      case W_waitAllocateBuffer
      then have v: "v_index v < plan_ops p" "v_tail v = [Op_Alloc (v_index v)]" "op = Op_Alloc (v_index v)" "\<not> v_hold v"
        using d(2) Asleep one by auto
      then show ?thesis
        using wake [of m] end_alloc [OF d(1) _ v(1,4) own_write_ops, of x] s0 one d(4) Asleep W_waitAllocateBuffer
        by (auto simp: w_held_def)
    next
      case W_waitRecvPipelineBuffer
      then have "plain_op op" "w_full p (v\<lparr>v_ops := []\<rparr>)" using d(2) Asleep one by (auto simp: plain_op_def)
      then show ?thesis using wake [of m "v\<lparr>v_ops := []\<rparr>"] plain one s0 d(4) Asleep W_waitRecvPipelineBuffer by simp
    next
      case W_waitReply
      then have "plain_op op" using d(2) Asleep one by (auto simp: plain_op_def)
      then show ?thesis using wake [of m "v\<lparr>v_ops := []\<rparr>"] plain one s0 d(2,4) Asleep W_waitReply by (simp add: w_over_def)
    qed (use d(2) Asleep one in simp_all)
  next
    case (At m)
    then show ?thesis using d(2) one by (cases m) (auto simp: w_free_def w_held_def w_full_def)
  qed (use d(2) one in simp_all)
qed

text \<open>A write of the pipeline completes at any time; the last one passes the barrier.\<close>

lemma mset_map_remove1: "j \<in> set xs \<Longrightarrow> mset (map f xs) = add_mset (f j) (mset (map f (remove1 j xs)))"
  by (induction xs) auto

lemma finish_data:
  assumes "task_data ops p v s" "j \<in> set (v_io v)" "es = plan_arrays p (v_addr v j) j"
  shows "\<exists>s1 s2 s3. end_op (Op_IO j es) x s = Some s1 \<and> task_result j (s1\<lparr>t_ops_done := k\<rparr>) = Some s2 \<and>
    task_release j s2 = Some s3 \<and> t_ops_done s1 = t_ops_done s \<and> t_ops_done s3 = k \<and> t_parallel s3 = t_parallel s \<and>
    t_barrier s3 = t_barrier s \<and> (\<forall>c. sm_ctl c s3 = sm_ctl c s) \<and> sm_running s3 = sm_running s \<and>
    task_data ops p (v\<lparr>v_io := remove1 j (v_io v), v_res := v_res v @ [snd x]\<rparr>) s3"
proof -
  let ?op = "Op_IO j es"
  obtain rbs where rbs: "t_rbuffer s = Some rbs" "task_bufs p v rbs" using assms(1) by (auto simp: task_data_def)
  have j: "j < v_index v" "j < plan_ops p" "distinct (v_io v)" using assms(1,2) by (auto simp: task_data_def)
  let ?rbs = "rbs[j := (rbs ! j)\<lparr>rb_ret := Some (snd x)\<rparr>]"
  have len: "j < length rbs" using rbs(2) j by (simp add: task_bufs_def)
  have bufs: "task_bufs p v ?rbs" using rbs(2) len by (auto simp: task_bufs_def nth_list_update)
  let ?M = "mset (v_ops v) + mset (map (io_op p (v_addr v)) (remove1 j (v_io v)))"
  have "mset (map (io_op p (v_addr v)) (v_io v)) = add_mset ?op (mset (map (io_op p (v_addr v)) (remove1 j (v_io v))))"
    using mset_map_remove1 [OF assms(2), of "io_op p (v_addr v)"] assms(3) by (simp add: io_op_def)
  then have m: "?op \<in> set (t_inflight s) \<and> mset (remove1 ?op (t_inflight s)) = ?M"
    using assms(1) by (intro mset_remove1_first) (simp add: task_data_def)
  let ?s1 = "s\<lparr>t_inflight := remove1 ?op (t_inflight s), t_rbuffer := Some ?rbs\<rparr>"
  have e: "end_op ?op x s = Some ?s1"
    using m rbs(1) len by (simp add: end_op_def get_rbuffer_def set_rbuffer_def)
  let ?s2 = "?s1\<lparr>t_ops_done := k, t_ret := last_error (v_res v @ [snd x]), t_results := v_res v @ [snd x]\<rparr>"
  have r: "task_result j (?s1\<lparr>t_ops_done := k\<rparr>) = Some ?s2"
    using len assms(1) by (simp add: task_result_def get_rbuffer_def task_data_def last_error_snoc)
  obtain rbs' where rel: "task_release j ?s2 = Some (?s2\<lparr>t_rbuffer := Some rbs'\<rparr>)"
    "task_bufs p (v\<lparr>v_io := remove1 j (v_io v)\<rparr>) rbs'"
    using release_data [OF assms(2) j(2) _ bufs j(3), of ?s2] j(1) by auto
  let ?s3 = "?s2\<lparr>t_rbuffer := Some rbs'\<rparr>"
  have "sm_ctl c ?s3 = sm_ctl c s" for c by (cases c) (simp_all add: sm_state_defs sm_dead_def)
  moreover have "set (remove1 j (v_io v)) \<subseteq> set (v_io v)" by (rule set_remove1_subset)
  then have "task_data ops p (v\<lparr>v_io := remove1 j (v_io v), v_res := v_res v @ [snd x]\<rparr>) ?s3"
    using assms(1) m rel(2) j(3) by (auto simp: task_data_def)
  ultimately show ?thesis using e r rel(1)
    by (intro exI [of _ ?s1] exI [of _ ?s2] exI [of _ ?s3]) simp
qed

lemma w_finish:
  assumes "w_inv p s" "finish_write j es x s = Some s1"
  shows "w_inv p s1"
proof -
  have op: "Op_IO j es \<in> set (t_inflight s)" using assms(2) by (auto simp: finish_write_def end_op_def elim!: fault_elims)
  obtain c v where w: "w_at p c v s"
    using assms(1) op unfolding w_inv_def by (auto simp: fresh_task_def)
  have d: "task_data write_ops p v s" "w_ok p c v" "w_count c v s" "sm_ctl c s" using w by (simp_all add: w_at_def)
  have "Op_IO j es \<notin> set (v_ops v)" using d(2) by (induction p c v rule: w_ok.induct) (auto simp: w_free_def w_held_def w_full_def)
  then have j: "j \<in> set (v_io v)" "es = plan_arrays p (v_addr v j) j"
    using task_data_inflight [OF d(1) op] by (auto simp: io_op_def)
  let ?v = "v\<lparr>v_io := remove1 j (v_io v), v_res := v_res v @ [snd x]\<rparr>"
  obtain t1 t2 t3 where t: "end_op (Op_IO j es) x s = Some t1" "task_result j (t1\<lparr>t_ops_done := t_ops_done s + 1\<rparr>) = Some t2"
    "task_release j t2 = Some t3" "t_ops_done t1 = t_ops_done s" "t_ops_done t3 = t_ops_done s + 1"
    "t_parallel t3 = t_parallel s" "t_barrier t3 = t_barrier s"
    "\<forall>c. sm_ctl c t3 = sm_ctl c s" "sm_running t3 = sm_running s" "task_data write_ops p ?v t3"
    using finish_data [OF d(1) j, of x "t_ops_done s + 1"] by (elim exE conjE)
  have len: "length (remove1 j (v_io v)) + 1 = length (v_io v)" using j(1) length_pos_if_in_set [OF j(1)] by (simp add: length_remove1)
  have n: "t_pipeline_ops t3 = plan_ops p" "v_index v \<le> plan_ops p" using t(10) d(1) by (auto simp: task_data_def)
  have "t_ops_done t3 = plan_ops p \<longleftrightarrow> v_index v = plan_ops p \<and> length (remove1 j (v_io v)) = 0"
    using d(3) t(5) len n unfolding w_count_def by linarith
  then have "t_ops_done t3 = plan_ops p \<longleftrightarrow> v_index v = plan_ops p \<and> remove1 j (v_io v) = []"
    by (simp only: length_0_conv)
  then have s1: "(if v_index v = plan_ops p \<and> remove1 j (v_io v) = []
      then do { assert_that (t_barrier t3); callbackhelper 0 CB_None t3 } else Some t3) = Some s1"
    using assms(2) t n by (simp add: finish_write_def writeDoneCB_def)
  have cnt: "w_count c ?v t3" using d(3) t(5-7) len by (simp add: w_count_def)
  show ?thesis
  proof (cases "v_index v = plan_ops p \<and> remove1 j (v_io v) = []")
    case False
    have "w_ok p c ?v" using d(2) j(1) False
      by (induction p c v rule: w_ok.induct) (auto simp: w_free_def w_held_def w_full_def w_over_def)
    then have "w_at p c ?v t3" using t(8,10) d(4) cnt by (simp add: w_at_def)
    then show ?thesis using s1 False w_atI by auto
  next
    case True
    have c: "c = Asleep W_waitWriteBarrier" "\<not> v_hold v" "v_tail v = []" "v_ops v = []"
      using d(2) j(1) True by (induction p c v rule: w_ok.induct) (auto simp: w_free_def w_held_def w_full_def w_over_def)
    then have a: "sm_asleep W_waitWriteBarrier t3" using t(8) [rule_format, of "Asleep W_waitWriteBarrier"] d(4) by simp
    have cb: "callbackhelper 0 CB_None t3 = Some s1" using s1 True by (auto elim!: fault_elims)
    then have "\<not> sm_running t3" using a
      by (auto simp: sm_asleep_def slots_are_def waiting_slot_def callbackhelper_def slots_callback_def resumeSM_def sm_set_slot_def elim!: fault_elims)
    from callback_resumes [OF a this] cb
    have "w_at p (At W_waitWriteBarrier) ?v s1" using t(10) c True cnt by (auto simp: w_at_def w_over_def w_count_def)
    then show ?thesis by (rule w_atI)
  qed
qed

lemma w_step:
  assumes "good_pipeline p" "wt_step s s1" "w_inv p s"
  shows "w_inv p s1"
  using assms(2)
proof (cases rule: wt_step.cases)
  case (Start s0)
  from assms(3) show ?thesis
  proof (cases rule: w_inv_cases)
    case c: (fresh c)
    have "sm_ctl c s1 \<and> s1 = s\<lparr>sm_queued := 0, sm_running := True\<rparr>" using ctl_start [OF c(1)] Start by blast
    moreover from this have "fresh_task p s1" "t_parallel s1" using c by (auto simp: fresh_task_def)
    ultimately show ?thesis using c(2) w_freshI by blast
  next
    case w: (pipe c v)
    then have "sm_ctl c s1 \<and> s1 = s\<lparr>sm_queued := 0, sm_running := True\<rparr>" using ctl_start Start by (auto simp: w_at_def)
    then have "w_at p c v s1" using w by (auto simp: w_at_def w_count_def)
    then show ?thesis by (rule w_atI)
  qed
next
  case (Method early)
  have "\<exists>m. sm_next s = Some m" using Method by (auto simp: exec_method_def elim!: fault_elims)
  then obtain m where m: "sm_next s = Some m" by blast
  obtain c where c: "sm_ctl c s" using assms(3) by (auto simp: w_inv_def w_at_def)
  have at: "sm_at m s" using ctl_next [OF c Method(1) m] c by simp
  have "early = None \<or> m \<noteq> W_postPipelineEnqueueWrite"
  proof (rule ccontr)
    assume n: "\<not> (early = None \<or> m \<noteq> W_postPipelineEnqueueWrite)"
    then have "w_execPipelineIO early t = None" if "t_parallel t" for t
      using that by (auto simp: w_execPipelineIO_def task_arrays_def set_rbuffer_def Let_def split: Option.bind_splits)
    moreover have "t_parallel s" using assms(3) by (auto simp: w_inv_def w_at_def w_count_def)
    ultimately show False
      using Method n exec_method_at(1) [OF at Method(1), of "write_call early"]
      by (auto simp: set_rbuffer_def elim!: fault_elims)
  qed
  from w_method [OF assms(1,3) at Method(1) this] Method(2) show ?thesis by auto
next
  case (Stop s0)
  from assms(3) show ?thesis
  proof (cases rule: w_inv_cases)
    case c: (fresh c)
    then show ?thesis using ctl_stop [OF c(1)] Stop by auto
  next
    case w: (pipe c v)
    then have "sm_ctl c s" by (simp add: w_at_def)
    from ctl_stop [OF this Stop]
    show ?thesis
    proof (elim disjE exE conjE)
      fix m assume "c = Asleep m" "sm_ctl c s1" "s1 = s\<lparr>sm_running := False, sm_refs := 1\<rparr>"
      then have "w_at p c v s1" using w by (auto simp: w_at_def w_count_def)
      then show ?thesis by (rule w_atI)
    next
      assume "c = Done" "sm_ctl Dead s1" "s1 = s\<lparr>sm_running := False, sm_refs := 0, sm_alive := False\<rparr>"
      then have "w_at p Dead v s1" using w by (auto simp: w_at_def w_count_def)
      then show ?thesis by (rule w_atI)
    qed
  qed
next
  case (Complete op x)
  then show ?thesis using w_complete [OF assms(3)] by blast
next
  case (Finish i es x)
  then show ?thesis using w_finish [OF assms(3)] by blast
qed

lemma w_reachable:
  assumes "good_pipeline p" "wt_step\<^sup>*\<^sup>* (WriteTaskSM p) s"
  shows "w_inv p s"
  using assms(2)
proof (induction rule: rtranclp_induct)
  case base
  have "sm_ctl (At W_init) (WriteTaskSM p)" "fresh_task p (WriteTaskSM p)" "t_parallel (WriteTaskSM p)"
    by (simp_all add: WriteTaskSM_def new_task_def sm_at_def slots_are_def fresh_task_def)
  then show ?case by (intro w_freshI) auto
next
  case (step s s1)
  then show ?case using w_step [OF assms(1)] by blast
qed

subsection \<open>What the environment may do\<close>

text \<open>Completing an operation that is in flight succeeds.\<close>

lemma w_inflight:
  assumes "w_inv p s" "op \<in> set (t_inflight s)"
  obtains c v where "w_at p c v s" "task_data write_ops p v s" "w_ok p c v" "w_count c v s" "sm_ctl c s"
    "v_ops v = [op] \<or> (\<exists>j \<in> set (v_io v). op = io_op p (v_addr v) j)"
proof -
  obtain c v where w: "w_at p c v s" using assms unfolding w_inv_def by (auto simp: fresh_task_def)
  then have d: "task_data write_ops p v s" "w_ok p c v" by (simp_all add: w_at_def)
  have "v_ops v = [op]" if "op \<in> set (v_ops v)"
    using d(2) that by (induction p c v rule: w_ok.induct) (auto simp: w_free_def w_held_def w_full_def)
  then show ?thesis using that [OF w] w task_data_inflight [OF d(1) assms(2)] by (auto simp: w_at_def)
qed

lemma w_complete_ok:
  assumes "w_inv p s" "\<not> sm_running s" "op \<in> set (t_inflight s)" "\<not> is_pipe_write op"
  shows "complete_op op x s \<noteq> None"
proof -
  obtain c v where d: "task_data write_ops p v s" "w_ok p c v" "sm_ctl c s" "v_ops v = [op]"
    using w_inflight [OF assms(1,3)] assms(4) by (metis io_op_def is_pipe_write.simps(1))
  have "(\<exists>m. c = Asleep m) \<and> (plain_op op \<or> op = Op_Alloc (v_index v) \<and> v_index v < plan_ops p \<and> \<not> v_hold v)"
    using d(2,4) by (induction p c v rule: w_ok.induct) (auto simp: w_free_def w_held_def w_full_def plain_op_def)
  then obtain m where m: "c = Asleep m" and "plain_op op \<or> op = Op_Alloc (v_index v) \<and> v_index v < plan_ops p \<and> \<not> v_hold v"
    by blast
  then obtain s1 where "end_op op x s = Some s1"
    using end_plain [OF d(1,4), of x] end_alloc [OF d(1) _ _ _ own_write_ops, of x] d(4) by auto
  then show ?thesis using complete_op_Some [of m s op x s1] d(3) m assms(2) by auto
qed

lemma w_finish_ok:
  assumes "w_inv p s" "Op_IO j es \<in> set (t_inflight s)" "\<not> sm_running s \<or> t_ops_done s + 1 < plan_ops p"
  shows "finish_write j es x s \<noteq> None"
proof -
  obtain c v where d: "task_data write_ops p v s" "w_ok p c v" "w_count c v s" "sm_ctl c s"
    "v_ops v = [Op_IO j es] \<or> (\<exists>i \<in> set (v_io v). Op_IO j es = io_op p (v_addr v) i)"
    using w_inflight [OF assms(1,2)] by metis
  have "v_ops v \<noteq> [Op_IO j es]"
    using d(2) by (induction p c v rule: w_ok.induct) (auto simp: w_free_def w_held_def w_full_def)
  then have j: "j \<in> set (v_io v)" "es = plan_arrays p (v_addr v j) j" using d(5) by (auto simp: io_op_def)
  obtain t1 t2 t3 where t: "end_op (Op_IO j es) x s = Some t1" "task_result j (t1\<lparr>t_ops_done := t_ops_done s + 1\<rparr>) = Some t2"
    "task_release j t2 = Some t3" "t_ops_done t1 = t_ops_done s" "t_ops_done t3 = t_ops_done s + 1"
    "t_parallel t3 = t_parallel s" "t_barrier t3 = t_barrier s"
    "\<forall>c. sm_ctl c t3 = sm_ctl c s" "sm_running t3 = sm_running s"
    "task_data write_ops p (v\<lparr>v_io := remove1 j (v_io v), v_res := v_res v @ [snd x]\<rparr>) t3"
    using finish_data [OF d(1) j, of x "t_ops_done s + 1"] by (elim exE conjE)
  have n: "t_pipeline_ops t3 = plan_ops p" "v_index v \<le> plan_ops p" using t(10) d(1) by (auto simp: task_data_def)
  have call: "finish_write j es x s = (if t_ops_done s + 1 = plan_ops p
      then do { assert_that (t_barrier s); callbackhelper 0 CB_None t3 } else Some t3)"
    using t n by (simp add: finish_write_def writeDoneCB_def)
  show ?thesis
  proof (cases "t_ops_done s + 1 = plan_ops p")
    case True
    have "0 < length (v_io v)" using length_pos_if_in_set [OF j(1)] .
    then have i: "v_index v = plan_ops p" using d(3) n True unfolding w_count_def by linarith
    have c: "c = Asleep W_waitWriteBarrier"
      using d(2) j(1) i by (induction p c v rule: w_ok.induct) (auto simp: w_free_def w_held_def w_full_def w_over_def)
    then have "sm_asleep W_waitWriteBarrier t3" "t_barrier s" "\<not> sm_running t3"
      using t(8) [rule_format, of c] d(3,4) t(9) assms(3) True by (auto simp: w_count_def)
    then show ?thesis using call True callback_resumes [of W_waitWriteBarrier t3] by auto
  qed (use call in simp)
qed

lemma w_asleep_step:
  assumes "w_at p (Asleep m) v s" "\<not> sm_running s"
  shows "\<exists>s1. wt_step s s1"
proof -
  have d: "task_data write_ops p v s" "w_ok p (Asleep m) v" using assms(1) by (simp_all add: w_at_def)
  have inv: "w_inv p s" by (rule w_atI [OF assms(1)])
  consider (slot) op where "v_ops v = [op]" "\<not> is_pipe_write op" | (io) "v_io v \<noteq> []"
    using d(2) by (cases m) auto
  then show ?thesis
  proof cases
    case (slot op)
    then have "complete_op op (0, 0) s \<noteq> None"
      using w_complete_ok [OF inv assms(2)] inflight_data(1) [OF d(1)] by simp
    then show ?thesis using wt_step.Complete [OF assms(2) slot(2)] by blast
  next
    case io
    let ?j = "hd (v_io v)"
    have "io_op p (v_addr v) ?j \<in> set (t_inflight s)" using inflight_data(2) [OF d(1)] io by auto
    then have "finish_write ?j (plan_arrays p (v_addr v ?j) ?j) (0, 0) s \<noteq> None"
      using w_finish_ok [OF inv] assms(2) by (auto simp: io_op_def)
    then show ?thesis using wt_step.Finish by blast
  qed
qed

lemma w_alive_step:
  assumes "good_pipeline p" "w_inv p s" "sm_alive s"
  shows "\<exists>s1. wt_step s s1"
proof -
  obtain c where c: "sm_ctl c s" and pipe: "(\<exists>m. c = At m) \<or> (\<exists>v. w_at p c v s)"
    using assms(2) by (cases rule: w_inv_cases) (auto simp: w_at_def)
  show ?thesis
  proof (cases c)
    case (At m)
    then have at: "sm_at m s" using c by simp
    show ?thesis
    proof (cases "sm_running s")
      case True
      then show ?thesis using w_method [OF assms(1,2) at, of None] wt_step.Method [OF True, of None] by blast
    next
      case False
      then have "0 < sm_queued s" using at by (simp add: sm_at_def)
      then show ?thesis using start_at [OF at] wt_step.Start by blast
    qed
  next
    case (Asleep m)
    then have a: "sm_asleep m s" using c by simp
    show ?thesis
    proof (cases "sm_running s")
      case True
      then have "exec_stops s" using a by (simp add: sm_asleep_def exec_stops_def)
      then show ?thesis using stop_asleep [OF a True] wt_step.Stop [OF True] by blast
    next
      case False
      then show ?thesis using pipe Asleep w_asleep_step by blast
    qed
  next
    case Done
    then have b: "sm_body s" using c by simp
    then have "sm_running s" "exec_stops s" by (simp_all add: sm_body_def exec_stops_def)
    then show ?thesis using stop_dead [OF b] wt_step.Stop by blast
  next
    case Dead
    then show ?thesis using c assms(3) by (simp add: sm_dead_def)
  qed
qed

subsection \<open>Runs\<close>

text \<open>A run as a script, and a small request: five bytes in two extents, with buffers of three bytes.\<close>

datatype wt_action =
    Do_Start | Do_Method "(addr \<times> int) option" | Do_Stop | Do_Complete task_op "addr \<times> int" | Do_Finish nat "extent list" "addr \<times> int"

fun wt_do :: "wt_action \<Rightarrow> write_sm \<Rightarrow> write_sm option" where
  "wt_do Do_Start s = do { s1 \<leftarrow> unit_start s; exec_start s1 }"
| "wt_do (Do_Method early) s = do { assert_that (sm_running s); exec_method (write_call early) s }"
| "wt_do Do_Stop s = do { assert_that (sm_running s \<and> exec_stops s); s1 \<leftarrow> exec_end s; sm_release s1 }"
| "wt_do (Do_Complete op x) s = do { assert_that (\<not> sm_running s \<and> \<not> is_pipe_write op); complete_op op x s }"
| "wt_do (Do_Finish i es x) s = finish_write i es x s"

fun wt_run :: "wt_action list \<Rightarrow> write_sm \<Rightarrow> write_sm option" where
  "wt_run [] s = Some s"
| "wt_run (a # as) s = do { s1 \<leftarrow> wt_do a s; wt_run as s1 }"

lemma wt_do_step: "wt_do a s = Some s1 \<Longrightarrow> wt_step s s1"
  by (cases a) (auto intro: wt_step.intros elim!: fault_elims)

lemma wt_run_steps: "wt_run as s = Some s1 \<Longrightarrow> wt_step\<^sup>*\<^sup>* s s1"
  by (induction as s rule: wt_run.induct) (auto intro: converse_rtranclp_into_rtranclp wt_do_step elim!: fault_elims)

definition small_write :: req_param where
  "small_write = \<lparr>rp_mem_starts = [], rp_mem_sizes = [2, 3], rp_mem_total_size = 0, rp_file_starts = [100, 200],
     rp_file_sizes = [2, 3], rp_pipeline_size = 3, rp_max_buffer_size = 8\<rparr>"

definition small_run :: "wt_action list" where
  "small_run = [Do_Start, Do_Method None, Do_Method None, Do_Method (Some (10, 0)), Do_Method None, Do_Method (Some (0, 0)),
     Do_Method None, Do_Method None, Do_Method None, Do_Method None, Do_Stop, Do_Complete (Op_Alloc 1) (20, 0), Do_Start,
     Do_Method None, Do_Method (Some (0, 0)), Do_Method None, Do_Method None, Do_Stop,
     Do_Finish 1 [\<lparr>x_mem = 20, x_msize = 2, x_start = 201, x_size = 2\<rparr>] (0, 5),
     Do_Finish 0 [\<lparr>x_mem = 10, x_msize = 2, x_start = 100, x_size = 2\<rparr>, \<lparr>x_mem = 12, x_msize = 1, x_start = 200, x_size = 1\<rparr>] (0, 0),
     Do_Start, Do_Method None, Do_Method (Some (0, 0)), Do_Method None, Do_Stop]"

lemma good_small: "good_pipeline small_write"
  by code_simp

lemma small_run_state:
  "map_option (\<lambda>s. (sm_alive s, t_results s, Op_Reply 5 \<in> set (t_trace s), trace_bytes (t_trace s))) (wt_run small_run (WriteTaskSM small_write)) =
     Some (False, [5, 0], True, [100, 101, 200, 201, 202])"
  by code_simp

subsection \<open>Properties\<close>

text \<open>
  (C21) A pipelined write runs without a failed assertion and never gets stuck. In every reachable state, the
  method the machine is to run returns (unless a write completes inside the call that starts it), every
  operation in flight can complete, and as long as the machine exists there is a next step, whatever the
  order in which buffer allocations, transfers and writes have completed.
\<close>

theorem write_task_never_stuck:
  assumes "good_pipeline p" "wt_step\<^sup>*\<^sup>* (WriteTaskSM p) s"
  shows "(\<forall>early m. sm_running s \<and> sm_next s = Some m \<and> (early = None \<or> m \<noteq> W_postPipelineEnqueueWrite) \<longrightarrow>
      exec_method (write_call early) s \<noteq> None) \<and>
    (\<forall>op x. op \<in> set (t_inflight s) \<and> \<not> is_pipe_write op \<and> \<not> sm_running s \<longrightarrow> complete_op op x s \<noteq> None) \<and>
    (\<forall>j es x. Op_IO j es \<in> set (t_inflight s) \<and> (\<not> sm_running s \<or> t_ops_done s + 1 < plan_ops p) \<longrightarrow>
      finish_write j es x s \<noteq> None) \<and>
    (sm_alive s \<longrightarrow> (\<exists>s1. wt_step s s1))"
proof -
  have inv: "w_inv p s" by (rule w_reachable [OF assms])
  have run: "exec_method (write_call early) s \<noteq> None"
    if "sm_running s" "sm_next s = Some m" "early = None \<or> m \<noteq> W_postPipelineEnqueueWrite" for early m
  proof -
    obtain c where c: "sm_ctl c s" using inv by (auto simp: w_inv_def w_at_def)
    have "sm_at m s" using ctl_next [OF c that(1,2)] c by simp
    from w_method [OF assms(1) inv this that(1,3)] show ?thesis by auto
  qed
  show ?thesis
    using run w_complete_ok [OF inv] w_finish_ok [OF inv] w_alive_step [OF assms(1) inv] by blast
qed

theorem write_task_never_stuck_witness:
  "\<exists>s. wt_run (take 8 small_run) (WriteTaskSM small_write) = Some s \<and> sm_alive s \<and> length (t_inflight s) = 1 \<and> (\<exists>s1. wt_step s s1)"
proof -
  have "map_option (\<lambda>s. (sm_alive s, length (t_inflight s))) (wt_run (take 8 small_run) (WriteTaskSM small_write)) = Some (True, 1)"
    by code_simp
  then obtain s where s: "wt_run (take 8 small_run) (WriteTaskSM small_write) = Some s" "sm_alive s" "length (t_inflight s) = 1"
    by auto
  then show ?thesis using write_task_never_stuck [OF good_small wt_run_steps [OF s(1)]] by blast
qed

text \<open>
  (C11) The reply of a pipelined write is sent after every buffer was allocated, received and written: at the
  time the reply is started no operation but the reply itself is outstanding, one result for each of the
  buffers has been collected, the code in the reply is OK exactly when all writes were, and otherwise is the
  code of one that failed.
\<close>

theorem write_reply_after_all_writes:
  assumes "good_pipeline p" "wt_step\<^sup>*\<^sup>* (WriteTaskSM p) s" "Op_Reply r \<in> set (t_trace s)"
  shows "set (t_inflight s) \<subseteq> {Op_Reply r} \<and> length (t_results s) = plan_ops p \<and>
    (r = ZFS_OK \<longleftrightarrow> (\<forall>x \<in> set (t_results s). x = ZFS_OK)) \<and> (r \<noteq> ZFS_OK \<longrightarrow> r \<in> set (t_results s)) \<and>
    (\<exists>b. t_trace s = concat (map (write_ops p b) [0 ..< plan_ops p]) @ [Op_Reply r])"
  using w_reachable [OF assms(1,2)]
proof (cases rule: w_inv_cases)
  case (pipe c v)
  then have d: "task_data write_ops p v s" "w_ok p c v" "w_count c v s" by (simp_all add: w_at_def)
  have "Op_Reply r \<notin> set (concat (map (write_ops p (v_addr v)) [0 ..< v_index v]))" by (auto simp: write_ops_def io_op_def)
  then have "Op_Reply r \<in> set (v_tail v)" using d(1) assms(3) by (simp add: task_data_def)
  then have v: "v_index v = plan_ops p" "v_io v = []" "v_tail v = [Op_Reply r]" "r = last_error (v_res v)"
    "set (v_ops v) \<subseteq> {Op_Reply r}"
    using d(2) by (induction p c v rule: w_ok.induct) (auto simp: w_free_def w_held_def w_full_def w_over_def)
  then have "set (t_inflight s) \<subseteq> {Op_Reply r}" using task_data_inflight [OF d(1)] by auto
  moreover have "t_trace s = concat (map (write_ops p (v_addr v)) [0 ..< plan_ops p]) @ [Op_Reply r]"
    "t_results s = v_res v" "length (t_results s) = plan_ops p"
    using d v by (auto simp: task_data_def w_count_def)
  ultimately show ?thesis using v(4) last_error_OK [of "v_res v"] last_error_mem [of "v_res v"] by auto
qed (use assms(3) in \<open>auto simp: fresh_task_def\<close>)

theorem write_reply_after_all_writes_witness:
  "\<exists>s. wt_run small_run (WriteTaskSM small_write) = Some s \<and> Op_Reply 5 \<in> set (t_trace s) \<and> length (t_results s) = 2 \<and>
    (5 :: int) \<in> set (t_results s)"
proof -
  obtain s where s: "wt_run small_run (WriteTaskSM small_write) = Some s" "Op_Reply 5 \<in> set (t_trace s)"
    using small_run_state by auto
  moreover have "plan_ops small_write = 2" by code_simp
  ultimately show ?thesis using write_reply_after_all_writes [OF good_small wt_run_steps [OF s(1)] s(2)] by auto
qed

text \<open>
  (C12) A pipelined write that has ended did all its work and kept nothing: no operation is in flight, every
  buffer has been given back, the reply has been sent, and the write calls together name every byte of the
  file extents of the request, in order and each exactly once.
\<close>

theorem write_task_complete:
  assumes "good_pipeline p" "wt_step\<^sup>*\<^sup>* (WriteTaskSM p) s" "\<not> sm_alive s"
  shows "t_inflight s = [] \<and> (\<forall>rb \<in> set (the (t_rbuffer s)). rb_buffer rb = None) \<and> (\<exists>r. last (t_trace s) = Op_Reply r) \<and>
    trace_bytes (t_trace s) = seg_bytes (rp_file_starts p) (rp_file_sizes p)"
  using w_reachable [OF assms(1,2)]
proof (cases rule: w_inv_cases)
  case (fresh c)
  then show ?thesis using assms(3) by (auto simp: sm_at_def)
next
  case (pipe c v)
  then have d: "task_data write_ops p v s" "w_ok p c v" "sm_ctl c s" by (simp_all add: w_at_def)
  have "c = Dead" using d(3) assms(3) by (cases c) (auto simp: sm_state_defs)
  then have v: "v_index v = plan_ops p" "v_io v = []" "\<not> v_hold v" "v_ops v = []"
    "v_tail v = [Op_Reply (last_error (v_res v))]" using d(2) by (auto simp: w_over_def)
  have "t_inflight s = []" using d(1) v by (simp add: task_data_def)
  moreover have "\<forall>rb \<in> set (the (t_rbuffer s)). rb_buffer rb = None"
    using d(1) v by (auto simp: task_data_def task_bufs_def view_buf_def in_set_conv_nth)
  moreover have t: "t_trace s = concat (map (write_ops p (v_addr v)) [0 ..< plan_ops p]) @ [Op_Reply (last_error (v_res v))]"
    using d(1) v by (simp add: task_data_def)
  moreover have "trace_bytes (concat (map (write_ops p (v_addr v)) is)) = concat (map (\<lambda>i. io_bytes (plan_arrays p (v_addr v i) i)) is)"
    for "is" by (induction "is") (simp_all add: trace_bytes_def write_ops_def io_op_def)
  then have "trace_bytes (t_trace s) = seg_bytes (rp_file_starts p) (rp_file_sizes p)"
    using plan_arrays_cover [OF assms(1), of "v_addr v"] t by (simp add: trace_bytes_def)
  ultimately show ?thesis by simp
qed

theorem write_task_complete_witness:
  "\<exists>s. wt_run small_run (WriteTaskSM small_write) = Some s \<and> \<not> sm_alive s \<and> t_inflight s = [] \<and>
    seg_bytes (rp_file_starts small_write) (rp_file_sizes small_write) = [100, 101, 200, 201, 202] \<and>
    trace_bytes (t_trace s) = seg_bytes (rp_file_starts small_write) (rp_file_sizes small_write)"
proof -
  obtain s where s: "wt_run small_run (WriteTaskSM small_write) = Some s" "\<not> sm_alive s"
    using small_run_state by auto
  moreover have "seg_bytes (rp_file_starts small_write) (rp_file_sizes small_write) = [100, 101, 200, 201, 202]" by code_simp
  ultimately show ?thesis using write_task_complete [OF good_small wt_run_steps [OF s(1)] s(2)] by blast
qed

end
