(* ===== verification/Read_Task.thy ===== *)
theory Read_Task
  imports Task_Plan
begin

text \<open>
  The read task (\<open>src/iofwd/tasksm/ReadTaskSM.hh\<close>, \<open>src/iofwd/tasksm/ReadTaskSM.cpp\<close>): a state machine that
  reads the data a client asks for and sends it, in one piece or buffer by buffer. The test for the serial
  mode, \<open>(mode_ & READSM_SERIAL_IO_PIPELINE) == 0\<close> with a constant that is zero, holds in every
  mode, so the parallel branch of \<open>execPipelineIO\<close> is never taken and every operation uses slot 0.
\<close>

datatype read_method =
    R_init | R_decodeInputParams
  | R_postAllocateSingleBuffer | R_waitAllocateSingleBuffer
  | R_postSendInputBuffers | R_waitSendInputBuffers
  | R_postEnqueueRead | R_waitEnqueueRead
  | R_postReply | R_waitReply
  | R_postAllocateBuffer | R_waitAllocateBuffer
  | R_postSendPipelineBuffer | R_waitSendPipelineBuffer
  | R_postPipelineEnqueueRead | R_waitPipelineEnqueueRead
  | R_readBarrier

type_synonym read_sm = "read_method task_sm"

subsection \<open>Operations\<close>

definition r_getSingleBuffer :: "(addr \<times> int) option \<Rightarrow> read_sm \<Rightarrow> read_sm option" where
  "r_getSingleBuffer early s = do { get_rbuffer 0 s; start_op early (Op_Alloc 0) R_waitAllocateSingleBuffer s }"

definition r_getBuffer :: "(addr \<times> int) option \<Rightarrow> read_sm \<Rightarrow> read_sm option" where
  "r_getBuffer early s = do { get_rbuffer (t_index s) s; start_op early (Op_Alloc (t_index s)) R_waitAllocateBuffer s }"

definition sendBuffers :: "(addr \<times> int) option \<Rightarrow> read_sm \<Rightarrow> read_sm option" where
  "sendBuffers early s = do { get_rbuffer 0 s; start_op early (Op_NetAll 0) R_waitSendInputBuffers s }"

definition sendPipelineBuffer :: "(addr \<times> int) option \<Rightarrow> read_sm \<Rightarrow> read_sm option" where
  "sendPipelineBuffer early s = do {
     rb \<leftarrow> get_rbuffer (t_index s) s;
     rb_buffer rb;
     start_op early (Op_Net (t_index s) (t_p_siz s)) R_waitSendPipelineBuffer s
   }"

definition readNormal :: "(addr \<times> int) option \<Rightarrow> read_sm \<Rightarrow> read_sm option" where
  "readNormal early s = start_op early (Op_IOAll (param_extents (t_param s))) R_waitEnqueueRead s"

definition r_execPipelineIO :: "(addr \<times> int) option \<Rightarrow> read_sm \<Rightarrow> read_sm option" where
  "r_execPipelineIO early s = do {
     (s1, es) \<leftarrow> task_arrays s;
     start_op early (Op_IO (t_index s1) es) R_waitPipelineEnqueueRead s1
   }"

definition readBarrier :: "read_sm \<Rightarrow> read_sm" where
  "readBarrier s =
     (let s1 = s\<lparr>t_ops_done := t_ops_done s + 1\<rparr>
      in if t_ops_done s1 = t_pipeline_ops s1 then setNextMethod R_postReply CB_None s1 else s1)"

subsection \<open>Methods\<close>

definition r_waitSendPipelineBuffer :: "cb_exception \<Rightarrow> read_sm \<Rightarrow> read_sm option" where
  "r_waitSendPipelineBuffer e s = do {
     assert_that (\<not> hasException e);
     s1 \<leftarrow> task_result (t_index s) s;
     s2 \<leftarrow> task_release (t_index s1) (s1\<lparr>t_cur_bytes := t_cur_bytes s1 + t_p_siz s1\<rparr>);
     let s3 = s2\<lparr>t_index := t_index s2 + 1\<rparr>;
     Some (setNextMethod (if t_cur_bytes s3 < t_total_bytes s3 then R_postAllocateBuffer else R_postReply) CB_None s3)
   }"

definition r_postPipelineEnqueueRead :: "(addr \<times> int) option \<Rightarrow> cb_exception \<Rightarrow> read_sm \<Rightarrow> read_sm option" where
  "r_postPipelineEnqueueRead early e s = do {
     assert_that (\<not> hasException e);
     let s1 = s\<lparr>t_p_siz := min (t_pipeline_size s) (t_total_bytes s - t_cur_bytes s)\<rparr>;
     rb \<leftarrow> get_rbuffer (t_index s1) s1;
     r_execPipelineIO early (set_rbuffer (t_index s1) (rb\<lparr>rb_siz := t_p_siz s1, rb_off := t_cur_bytes s1\<rparr>) s1)
   }"

fun read_call :: "(addr \<times> int) option \<Rightarrow> read_method \<Rightarrow> cb_exception \<Rightarrow> read_sm \<Rightarrow> read_sm option" where
  "read_call early R_init e s = do { assert_that (\<not> hasException e); Some (setNextMethod R_decodeInputParams CB_None s) }"
| "read_call early R_decodeInputParams e s = do {
     assert_that (\<not> hasException e); task_decode R_postAllocateSingleBuffer R_postAllocateBuffer s }"
| "read_call early R_postAllocateSingleBuffer e s = do { assert_that (\<not> hasException e); r_getSingleBuffer early s }"
| "read_call early R_waitAllocateSingleBuffer e s = do {
     assert_that (\<not> hasException e);
     rb \<leftarrow> get_rbuffer 0 s;
     mem \<leftarrow> rb_buffer rb;
     Some (setNextMethod R_postEnqueueRead CB_None (s\<lparr>t_param := initRequestParams (t_param s) mem\<rparr>)) }"
| "read_call early R_postSendInputBuffers e s = do { assert_that (\<not> hasException e); sendBuffers early s }"
| "read_call early R_waitSendInputBuffers e s = do {
     assert_that (\<not> hasException e);
     s1 \<leftarrow> task_release 0 s;
     Some (setNextMethod R_postReply CB_None s1) }"
| "read_call early R_postEnqueueRead e s = do { assert_that (\<not> hasException e); readNormal early s }"
| "read_call early R_waitEnqueueRead e s = do {
     assert_that (\<not> hasException e); Some (setNextMethod R_postSendInputBuffers CB_None s) }"
| "read_call early R_postReply e s = do { assert_that (\<not> hasException e); task_reply early R_waitReply s }"
| "read_call early R_waitReply e s = do { assert_that (\<not> hasException e); Some s }"
| "read_call early R_postAllocateBuffer e s = do { assert_that (\<not> hasException e); r_getBuffer early s }"
| "read_call early R_waitAllocateBuffer e s = do {
     assert_that (\<not> hasException e); Some (setNextMethod R_postPipelineEnqueueRead CB_None s) }"
| "read_call early R_postSendPipelineBuffer e s = do { assert_that (\<not> hasException e); sendPipelineBuffer early s }"
| "read_call early R_waitSendPipelineBuffer e s = r_waitSendPipelineBuffer e s"
| "read_call early R_postPipelineEnqueueRead e s = r_postPipelineEnqueueRead early e s"
| "read_call early R_waitPipelineEnqueueRead e s = do {
     assert_that (\<not> hasException e); Some (setNextMethod R_postSendPipelineBuffer CB_None s) }"
| "read_call early R_readBarrier e s = do { assert_that (\<not> hasException e); Some (readBarrier s) }"

definition ReadTaskSM :: "req_param \<Rightarrow> read_sm" where
  "ReadTaskSM p = new_task 129 R_init False p"

subsection \<open>Steps\<close>

inductive rt_step :: "read_sm \<Rightarrow> read_sm \<Rightarrow> bool" where
  Start: "unit_start s = Some s1 \<Longrightarrow> exec_start s1 = Some s2 \<Longrightarrow> rt_step s s2"
| Method: "sm_running s \<Longrightarrow> exec_method (read_call early) s = Some s1 \<Longrightarrow> rt_step s s1"
| Stop: "sm_running s \<Longrightarrow> exec_stops s \<Longrightarrow> exec_end s = Some s1 \<Longrightarrow> sm_release s1 = Some s2 \<Longrightarrow> rt_step s s2"
| Complete: "\<not> sm_running s \<Longrightarrow> complete_op op v s = Some s1 \<Longrightarrow> rt_step s s1"

subsection \<open>Where a read task is\<close>

definition read_ops :: "req_param \<Rightarrow> (nat \<Rightarrow> addr) \<Rightarrow> nat \<Rightarrow> task_op list" where
  "read_ops p b i = [Op_Alloc i, io_op p b i, Op_Net i (plan_size p i)]"

text \<open>The pipeline for the current buffer after its first \<open>k\<close> operations.\<close>

definition r_stage :: "req_param \<Rightarrow> nat \<Rightarrow> task_view \<Rightarrow> bool" where
  "r_stage p k v \<longleftrightarrow> v_index v < plan_ops p \<and> v_tail v = take k (read_ops p (v_addr v) (v_index v)) \<and>
     (v_hold v \<longleftrightarrow> 0 < k) \<and> (2 \<le> k \<longrightarrow> v_ret v \<and> v_siz v = plan_size p (v_index v))"

definition r_over :: "req_param \<Rightarrow> task_view \<Rightarrow> bool" where
  "r_over p v \<longleftrightarrow> v_index v = plan_ops p \<and> \<not> v_hold v"

fun r_ok :: "req_param \<Rightarrow> read_method ctl \<Rightarrow> task_view \<Rightarrow> bool" where
  "r_ok p (At R_postAllocateBuffer) v = (r_stage p 0 v \<and> v_ops v = [])"
| "r_ok p (At R_waitAllocateBuffer) v = (r_stage p 1 v \<and> v_ops v = [])"
| "r_ok p (At R_postPipelineEnqueueRead) v = (r_stage p 1 v \<and> v_ops v = [])"
| "r_ok p (At R_waitPipelineEnqueueRead) v = (r_stage p 2 v \<and> v_ops v = [])"
| "r_ok p (At R_postSendPipelineBuffer) v = (r_stage p 2 v \<and> v_ops v = [])"
| "r_ok p (At R_waitSendPipelineBuffer) v = (r_stage p 3 v \<and> v_ops v = [])"
| "r_ok p (At R_postReply) v = (r_over p v \<and> v_tail v = [] \<and> v_ops v = [])"
| "r_ok p (At R_waitReply) v = (r_over p v \<and> v_tail v = [Op_Reply (last_error (v_res v))] \<and> v_ops v = [])"
| "r_ok p (Asleep R_waitAllocateBuffer) v =
     (r_stage p 0 (v\<lparr>v_tail := []\<rparr>) \<and> v_tail v = [Op_Alloc (v_index v)] \<and> v_ops v = [Op_Alloc (v_index v)])"
| "r_ok p (Asleep R_waitPipelineEnqueueRead) v = (r_stage p 2 v \<and> v_ops v = [io_op p (v_addr v) (v_index v)])"
| "r_ok p (Asleep R_waitSendPipelineBuffer) v = (r_stage p 3 v \<and> v_ops v = [Op_Net (v_index v) (plan_size p (v_index v))])"
| "r_ok p (Asleep R_waitReply) v =
     (r_over p v \<and> v_tail v = [Op_Reply (last_error (v_res v))] \<and> v_ops v = [Op_Reply (last_error (v_res v))])"
| "r_ok p Done v = (r_over p v \<and> v_tail v = [Op_Reply (last_error (v_res v))] \<and> v_ops v = [])"
| "r_ok p Dead v = (r_over p v \<and> v_tail v = [Op_Reply (last_error (v_res v))] \<and> v_ops v = [])"
| "r_ok p _ v = False"

definition r_count :: "task_view \<Rightarrow> bool" where
  "r_count v \<longleftrightarrow> v_io v = [] \<and> length (v_res v) = v_index v"

definition r_at :: "req_param \<Rightarrow> read_method ctl \<Rightarrow> task_view \<Rightarrow> read_sm \<Rightarrow> bool" where
  "r_at p c v s \<longleftrightarrow> sm_ctl c s \<and> task_data read_ops p v s \<and> r_ok p c v \<and> r_count v"

definition r_inv :: "req_param \<Rightarrow> read_sm \<Rightarrow> bool" where
  "r_inv p s \<longleftrightarrow> (\<exists>c. sm_ctl c s \<and> (c = At R_init \<or> c = At R_decodeInputParams) \<and> fresh_task p s) \<or> (\<exists>c v. r_at p c v s)"

lemma r_atI: "r_at p c v s \<Longrightarrow> r_inv p s"
  by (auto simp: r_inv_def)

lemma r_freshI: "sm_ctl c s \<Longrightarrow> c = At R_init \<or> c = At R_decodeInputParams \<Longrightarrow> fresh_task p s \<Longrightarrow> r_inv p s"
  by (auto simp: r_inv_def)

lemma r_inv_cases:
  assumes "r_inv p s"
  obtains (fresh) c where "sm_ctl c s" "c = At R_init \<or> c = At R_decodeInputParams" "fresh_task p s"
    | (pipe) c v where "r_at p c v s"
  using assms unfolding r_inv_def by blast

lemma own_read_ops: "own_ops read_ops"
  by (simp add: own_ops_def read_ops_def io_op_def)

text \<open>A method that starts an operation leads to the sleep, or at once to the method after it.\<close>

lemma r_started:
  assumes "started m (early = None) s" "task_data read_ops p v s" "r_count v"
    "r_ok p (if early = None then Asleep m else At m) v"
  shows "r_inv p s"
  using assms r_atI [of p "if early = None then Asleep m else At m" v s]
  by (cases "early = None") (simp_all add: r_at_def started_def)

lemma take_read_ops [simp]:
  "take 0 (read_ops p b i) = []" "take (Suc 0) (read_ops p b i) = [Op_Alloc i]" "take 2 (read_ops p b i) = [Op_Alloc i, io_op p b i]"
  "take 3 (read_ops p b i) = [Op_Alloc i, io_op p b i, Op_Net i (plan_size p i)]"
  by (simp_all add: read_ops_def)

subsection \<open>The methods keep it\<close>

lemma r_post_alloc:
  assumes "sm_body s" "task_data read_ops p v s" "r_stage p 0 v" "v_ops v = []" "r_count v"
  shows "\<exists>s1. r_getBuffer early s = Some s1 \<and> r_inv p s1"
proof -
  let ?i = "v_index v" let ?m = R_waitAllocateBuffer
  have i: "t_index s = ?i" "?i < plan_ops p" "v_tail v = []" "\<not> v_hold v"
    using assms(2,3) by (auto simp: task_data_def r_stage_def)
  obtain s1 where s1: "start_op early (Op_Alloc ?i) ?m s = Some s1" "started ?m (early = None) s1"
    "task_data read_ops p (alloc_view early v) s1"
    using start_alloc [OF assms(1,2,4) i(2,4) own_read_ops] by blast
  have "r_inv p s1"
    by (rule r_started [OF s1(2,3)])
      (use assms(3,5) i in \<open>cases early; simp add: alloc_view_def r_count_def r_stage_def\<close>)+
  then show ?thesis using s1(1) get_rbuffer_data [OF assms(2) i(2)] i(1) by (auto simp: r_getBuffer_def)
qed

lemma r_post_read:
  assumes "good_pipeline p" "sm_body s" "task_data read_ops p v s" "r_stage p 1 v" "v_ops v = []" "r_count v"
  shows "\<exists>s1. r_postPipelineEnqueueRead early CB_None s = Some s1 \<and> r_inv p s1"
proof -
  let ?i = "v_index v" let ?m = R_waitPipelineEnqueueRead let ?z = "plan_size p ?i"
  let ?v = "v\<lparr>v_siz := ?z\<rparr>" let ?op = "io_op p (v_addr v) ?i"
  have i: "?i < plan_ops p" "v_hold v" "t_index s = ?i" "v_tail v = [Op_Alloc ?i]"
    and z: "min (t_pipeline_size s) (t_total_bytes s - t_cur_bytes s) = ?z"
    using assms(3,4) by (auto simp: r_stage_def task_data_def plan_size_def)
  let ?s = "s\<lparr>t_p_siz := ?z\<rparr>"
  have d: "task_data read_ops p ?v ?s" using assms(3) by (simp add: task_data_def)
  obtain rb rbs where rb: "get_rbuffer ?i ?s = Some rb"
    "task_arrays (set_rbuffer ?i (rb\<lparr>rb_siz := ?z, rb_off := t_cur_bytes s\<rparr>) ?s) =
      Some (?s\<lparr>t_rbuffer := Some rbs\<rparr>, plan_arrays p (v_addr v ?i) ?i)"
    "task_bufs p ?v rbs" "rb_ret (rbs ! ?i) \<noteq> None"
    using arrays_data [OF assms(1) d, where z = ?z and o' = "t_cur_bytes s"] i(1,2) by auto
  let ?s1 = "?s\<lparr>t_rbuffer := Some rbs\<rparr>" let ?u = "?v\<lparr>v_ret := True\<rparr>"
  have "task_bufs p ?u rbs" using rb(3,4) by (simp add: task_bufs_def view_buf_def)
  then have d1: "sm_body ?s1" "task_data read_ops p ?u ?s1" "v_ops ?u = []" "v_index ?u < plan_ops p"
    using assms(2,5) d i(1) by (auto simp: sm_state_defs task_data_def)
  obtain s1 where s1: "start_op early ?op ?m ?s1 = Some s1" "started ?m (early = None) s1"
    "task_data read_ops p (?u\<lparr>v_tail := v_tail ?u @ [?op], v_ops := (if early = None then [?op] else [])\<rparr>) s1"
    using start_io [OF d1, of early ?m] by (cases early) auto
  have "r_inv p s1"
    by (rule r_started [OF s1(2,3)]) (use assms(4,6) i in \<open>simp add: r_count_def r_stage_def\<close>)+
  then show ?thesis using s1(1) rb(1,2) i(3) z by (simp add: r_postPipelineEnqueueRead_def r_execPipelineIO_def Let_def io_op_def)
qed

lemma r_post_send:
  assumes "sm_body s" "task_data read_ops p v s" "r_stage p 2 v" "v_ops v = []" "r_count v"
  shows "\<exists>s1. sendPipelineBuffer early s = Some s1 \<and> r_inv p s1"
proof -
  let ?i = "v_index v" let ?m = R_waitSendPipelineBuffer let ?op = "Op_Net ?i (plan_size p ?i)"
  have i: "t_index s = ?i" "?i < plan_ops p" "v_hold v" "t_p_siz s = plan_size p ?i"
    using assms(2,3) by (auto simp: task_data_def r_stage_def)
  have "plain_op ?op" by (simp add: plain_op_def)
  then obtain s1 where s1: "start_op early ?op ?m s = Some s1" "started ?m (early = None) s1"
    "task_data read_ops p (v\<lparr>v_tail := v_tail v @ [?op], v_ops := (if early = None then [?op] else [])\<rparr>) s1"
    using start_plain [OF assms(1,2,4)] by blast
  have "r_inv p s1"
    by (rule r_started [OF s1(2,3)]) (use assms(3,5) in \<open>simp add: r_count_def r_stage_def\<close>)+
  then show ?thesis
    using s1(1) get_rbuffer_data [OF assms(2) i(2)] i by (auto simp: sendPipelineBuffer_def view_buf_def)
qed

lemma r_post_reply:
  assumes "sm_body s" "task_data read_ops p v s" "r_over p v" "v_tail v = []" "v_ops v = []" "r_count v"
  shows "\<exists>s1. task_reply early R_waitReply s = Some s1 \<and> r_inv p s1"
proof -
  let ?m = R_waitReply let ?op = "Op_Reply (last_error (v_res v))"
  have r: "t_ret s = last_error (v_res v)" using assms(2) by (simp add: task_data_def)
  have "plain_op ?op" by (simp add: plain_op_def)
  then obtain s1 where s1: "start_op early ?op ?m s = Some s1" "started ?m (early = None) s1"
    "task_data read_ops p (v\<lparr>v_tail := v_tail v @ [?op], v_ops := (if early = None then [?op] else [])\<rparr>) s1"
    using start_plain [OF assms(1,2,5)] by blast
  have "r_inv p s1"
    by (rule r_started [OF s1(2,3)]) (use assms(3,4,6) in \<open>simp add: r_count_def r_over_def\<close>)+
  then show ?thesis using s1(1) r by (auto simp: task_reply_def)
qed

lemma r_wait_send:
  assumes "good_pipeline p" "sm_body s" "task_data read_ops p v s" "r_stage p 3 v" "v_ops v = []" "r_count v"
  shows "\<exists>s1. r_waitSendPipelineBuffer CB_None s = Some s1 \<and> r_inv p s1"
proof -
  let ?i = "v_index v"
  have i: "?i < plan_ops p" "v_hold v" "v_ret v" "t_index s = ?i" "t_p_siz s = plan_size p ?i" "v_io v = []"
    "t_cur_bytes s = plan_cur p ?i" "t_total_bytes s = plan_total p" "t_results s = v_res v" "t_ret s = last_error (v_res v)"
    using assms(3,4,6) by (auto simp: r_stage_def task_data_def r_count_def)
  obtain rbs where rbs: "t_rbuffer s = Some rbs" "task_bufs p v rbs" using assms(3) by (auto simp: task_data_def)
  then obtain r where r: "rb_ret (rbs ! ?i) = Some r" "?i < length rbs" "rb_buffer (rbs ! ?i) \<noteq> None"
    using i(1-3) by (auto simp: task_bufs_def view_buf_def)
  let ?rbs = "rbs[?i := (rbs ! ?i)\<lparr>rb_buffer := None\<rparr>]" let ?res = "v_res v @ [r]"
  let ?s1 = "s\<lparr>t_ret := last_error ?res, t_results := ?res\<rparr>"
  let ?s3 = "?s1\<lparr>t_cur_bytes := plan_cur p (Suc ?i), t_rbuffer := Some ?rbs, t_index := Suc ?i\<rparr>"
  let ?v = "v\<lparr>v_index := Suc ?i, v_tail := [], v_hold := False, v_ret := False, v_res := ?res\<rparr>"
  let ?n = "if Suc ?i < plan_ops p then R_postAllocateBuffer else R_postReply"
  have res: "task_result ?i s = Some ?s1"
    using rbs(1) r i by (simp add: task_result_def get_rbuffer_def last_error_snoc)
  have cur: "plan_cur p ?i + plan_size p ?i = plan_cur p (Suc ?i)" by (rule plan_cur_Suc [OF assms(1) i(1)])
  have rel: "task_release ?i (?s1\<lparr>t_cur_bytes := plan_cur p (Suc ?i)\<rparr>) =
      Some (?s1\<lparr>t_cur_bytes := plan_cur p (Suc ?i), t_rbuffer := Some ?rbs\<rparr>)"
    using rbs(1) r by (simp add: task_release_def releaseBuffer_def get_rbuffer_def set_rbuffer_def)
  have call: "r_waitSendPipelineBuffer CB_None s = Some (setNextMethod ?n CB_None ?s3)"
    using res rel i cur plan_cur_end(2) [OF assms(1) i(1)] by (simp add: r_waitSendPipelineBuffer_def Let_def)
  have "task_bufs p ?v ?rbs"
    using rbs(2) i(2,6) r(2) by (auto simp: task_bufs_def view_buf_def nth_list_update)
  moreover have "v_tail v = read_ops p (v_addr v) ?i" using assms(4) by (simp add: r_stage_def read_ops_def)
  ultimately have "task_data read_ops p ?v ?s3"
    using assms(3,5) i by (simp add: task_data_def)
  moreover have "sm_at ?n (setNextMethod ?n CB_None ?s3)"
    using sm_at_set_next [of ?s3 ?n] assms(2) by (simp add: sm_state_defs)
  moreover have "r_ok p (At ?n) ?v" "r_count ?v"
    using i(1,6) assms(5,6) by (auto simp: r_stage_def r_over_def r_count_def)
  ultimately have "r_at p (At ?n) ?v (setNextMethod ?n CB_None ?s3)" by (simp add: r_at_def)
  then show ?thesis using call r_atI by blast
qed

lemma r_method:
  assumes "good_pipeline p" "r_inv p s" "sm_at m s" "sm_running s"
  shows "\<exists>s1. exec_method (read_call early) s = Some s1 \<and> r_inv p s1"
proof -
  let ?s = "s\<lparr>sm_next := None, sm_next_status := CB_None\<rparr>"
  have call: "exec_method (read_call early) s = read_call early m CB_None ?s" and b: "sm_body ?s"
    using exec_method_at [OF assms(3,4)] by simp_all
  have at: "c = At m" if "sm_ctl c s" for c using ctl_at [OF that assms(3)] .
  from assms(2) show ?thesis
  proof (cases rule: r_inv_cases)
    case (fresh c)
    then have m: "m = R_init \<or> m = R_decodeInputParams" and f: "fresh_task p ?s" using at by (auto simp: fresh_task_def)
    have "fresh_task p (setNextMethod R_decodeInputParams CB_None ?s)" using f by (simp add: fresh_task_def setNextMethod_def)
    then have init: "r_inv p (setNextMethod R_decodeInputParams CB_None ?s)"
      using sm_at_set_next [OF b, of R_decodeInputParams] by (intro r_freshI [of "At R_decodeInputParams"]) simp_all
    from decode_data [OF assms(1) f b, of R_postAllocateSingleBuffer R_postAllocateBuffer read_ops]
    obtain s1 where s1: "task_decode R_postAllocateSingleBuffer R_postAllocateBuffer ?s = Some (setNextMethod R_postAllocateBuffer CB_None s1)"
      "task_data read_ops p (first_view ?s) s1" "same_count ?s s1" "sm_body s1" by (elim exE conjE)
    have "r_at p (At R_postAllocateBuffer) (first_view ?s) (setNextMethod R_postAllocateBuffer CB_None s1)"
      using s1(2) sm_at_set_next [OF s1(4), of R_postAllocateBuffer] plan_ops_pos [OF assms(1)]
      by (simp add: r_at_def r_stage_def first_view_def r_count_def)
    then have "r_inv p (setNextMethod R_postAllocateBuffer CB_None s1)" by (rule r_atI)
    then show ?thesis using m call init s1(1) by auto
  next
    case (pipe c v)
    then have d: "task_data read_ops p v ?s" "r_ok p (At m) v" "r_count v"
      using at by (auto simp: r_at_def)
    have go: "r_inv p (setNextMethod n CB_None ?s)" if "r_ok p (At n) v" for n
      using d(1,3) that sm_at_set_next [OF b, of n] r_atI [of p "At n" v] by (simp add: r_at_def)
    show ?thesis
    proof (cases m)
      case R_postAllocateBuffer
      then show ?thesis using call d r_post_alloc [OF b d(1) _ _ d(3), of early] by simp
    next
      case R_waitAllocateBuffer
      then show ?thesis using call d go [of R_postPipelineEnqueueRead] by simp
    next
      case R_postPipelineEnqueueRead
      then show ?thesis using call d r_post_read [OF assms(1) b d(1) _ _ d(3), of early] by simp
    next
      case R_waitPipelineEnqueueRead
      then show ?thesis using call d go [of R_postSendPipelineBuffer] by simp
    next
      case R_postSendPipelineBuffer
      then show ?thesis using call d r_post_send [OF b d(1) _ _ d(3), of early] by simp
    next
      case R_waitSendPipelineBuffer
      then show ?thesis using call d r_wait_send [OF assms(1) b d(1) _ _ d(3)] by simp
    next
      case R_postReply
      then show ?thesis using call d r_post_reply [OF b d(1) _ _ _ d(3), of early] by simp
    next
      case R_waitReply
      have "r_at p Done v ?s" using d b R_waitReply by (simp add: r_at_def)
      then show ?thesis using call R_waitReply r_atI by auto
    qed (use d in simp_all)
  qed
qed

text \<open>Completions.\<close>

lemma r_complete:
  assumes "r_inv p s" "\<not> sm_running s" "op \<in> set (t_inflight s)"
  shows "\<exists>s1. complete_op op x s = Some s1 \<and> r_inv p s1"
  using assms(1)
proof (cases rule: r_inv_cases)
  case (pipe c v)
  then have d: "task_data read_ops p v s" "r_ok p c v" "r_count v" "sm_ctl c s" by (simp_all add: r_at_def)
  have ops: "op \<in> set (v_ops v)" using task_data_inflight [OF d(1) assms(3)] d(3) by (auto simp: r_count_def)
  obtain m where m: "c = Asleep m" and one: "v_ops v = [op]"
    and kind: "plain_op op \<or> op = Op_Alloc (v_index v) \<and> v_index v < plan_ops p \<and> \<not> v_hold v \<or>
      op = io_op p (v_addr v) (v_index v) \<and> v_index v < plan_ops p"
    using d(2) ops by (induction p c v rule: r_ok.induct) (auto simp: r_stage_def plain_op_def)
  obtain s0 u where e: "end_op op x s = Some s0" "task_data read_ops p u s0" "r_ok p (At m) u" "r_count u"
  proof -
    consider (alloc) "op = Op_Alloc (v_index v)" "v_index v < plan_ops p" "\<not> v_hold v"
      | (other) "\<exists>s0. end_op op x s = Some s0 \<and> task_data read_ops p (v\<lparr>v_ops := []\<rparr>) s0" "op \<noteq> Op_Alloc (v_index v)"
    proof -
      have "op \<noteq> Op_Alloc (v_index v)" if "plain_op op \<or> op = io_op p (v_addr v) (v_index v)"
        using that by (auto simp: plain_op_def io_op_def)
      moreover have "\<exists>s0. end_op op x s = Some s0 \<and> task_data read_ops p (v\<lparr>v_ops := []\<rparr>) s0" if "plain_op op"
        using end_plain [OF d(1) one that, of x] by blast
      moreover have "\<exists>s0. end_op op x s = Some s0 \<and> task_data read_ops p (v\<lparr>v_ops := []\<rparr>) s0"
        if "op = io_op p (v_addr v) (v_index v)" "v_index v < plan_ops p"
        using end_io [OF d(1) _ that(2), of x] one that(1) by blast
      ultimately show thesis using kind alloc other by blast
    qed
    then show thesis
    proof cases
      case alloc
      have "r_ok p (At m) (v\<lparr>v_ops := [], v_hold := True, v_addr := (v_addr v)(v_index v := fst x)\<rparr>)"
        using d(2) m one alloc by (cases m) (auto simp: r_stage_def io_op_def)
      then show thesis
        using that [of _ "v\<lparr>v_ops := [], v_hold := True, v_addr := (v_addr v)(v_index v := fst x)\<rparr>"]
          end_alloc [OF d(1) _ alloc(2,3) own_read_ops, of x] one alloc(1) d(3) by (auto simp: r_count_def)
    next
      case other
      have "r_ok p (At m) (v\<lparr>v_ops := []\<rparr>)" using d(2) m one other(2) by (cases m) (auto simp: r_stage_def r_over_def)
      then show thesis using that [of _ "v\<lparr>v_ops := []\<rparr>"] other(1) d(3) by (auto simp: r_count_def)
    qed
  qed
  have "sm_asleep m s" using d(4) m by simp
  from complete_op_Some [OF this assms(2) e(1)] obtain xs where
    xs: "complete_op op x s = Some (s0\<lparr>sm_slots := xs, sm_next := Some m, sm_next_status := CB_None, sm_queued := 1\<rparr>)"
      "sm_at m (s0\<lparr>sm_slots := xs, sm_next := Some m, sm_next_status := CB_None, sm_queued := 1\<rparr>)" by blast
  then have "r_at p (At m) u (s0\<lparr>sm_slots := xs, sm_next := Some m, sm_next_status := CB_None, sm_queued := 1\<rparr>)"
    using e by (simp add: r_at_def)
  then show ?thesis using xs(1) r_atI by blast
qed (use assms(3) in \<open>auto simp: fresh_task_def\<close>)

lemma r_step:
  assumes "good_pipeline p" "rt_step s s1" "r_inv p s"
  shows "r_inv p s1"
  using assms(2)
proof (cases rule: rt_step.cases)
  case (Start s0)
  from assms(3) show ?thesis
  proof (cases rule: r_inv_cases)
    case c: (fresh c)
    have "sm_ctl c s1 \<and> s1 = s\<lparr>sm_queued := 0, sm_running := True\<rparr>" using ctl_start [OF c(1)] Start by blast
    moreover from this have "fresh_task p s1" using c by (auto simp: fresh_task_def)
    ultimately show ?thesis using c(2) r_freshI by blast
  next
    case w: (pipe c v)
    then have "sm_ctl c s1 \<and> s1 = s\<lparr>sm_queued := 0, sm_running := True\<rparr>" using ctl_start Start by (auto simp: r_at_def)
    then have "r_at p c v s1" using w by (auto simp: r_at_def)
    then show ?thesis by (rule r_atI)
  qed
next
  case (Method early)
  have "\<exists>m. sm_next s = Some m" using Method by (auto simp: exec_method_def elim!: fault_elims)
  then obtain m where m: "sm_next s = Some m" by blast
  obtain c where c: "sm_ctl c s" using assms(3) by (auto simp: r_inv_def r_at_def)
  have at: "sm_at m s" using ctl_next [OF c Method(1) m] c by simp
  from r_method [OF assms(1,3) at Method(1), of early] Method(2) show ?thesis by auto
next
  case (Stop s0)
  from assms(3) show ?thesis
  proof (cases rule: r_inv_cases)
    case c: (fresh c)
    then show ?thesis using ctl_stop [OF c(1)] Stop by auto
  next
    case w: (pipe c v)
    then have "sm_ctl c s" by (simp add: r_at_def)
    from ctl_stop [OF this Stop]
    show ?thesis
    proof (elim disjE exE conjE)
      fix m assume "c = Asleep m" "sm_ctl c s1" "s1 = s\<lparr>sm_running := False, sm_refs := 1\<rparr>"
      then have "r_at p c v s1" using w by (auto simp: r_at_def)
      then show ?thesis by (rule r_atI)
    next
      assume "c = Done" "sm_ctl Dead s1" "s1 = s\<lparr>sm_running := False, sm_refs := 0, sm_alive := False\<rparr>"
      then have "r_at p Dead v s1" using w by (auto simp: r_at_def)
      then show ?thesis by (rule r_atI)
    qed
  qed
next
  case (Complete op x)
  have "op \<in> set (t_inflight s)" using Complete(2) by (auto simp: complete_op_def end_op_def elim!: fault_elims)
  from r_complete [OF assms(3) Complete(1) this, of x] Complete(2) show ?thesis by auto
qed

lemma r_reachable:
  assumes "good_pipeline p" "rt_step\<^sup>*\<^sup>* (ReadTaskSM p) s"
  shows "r_inv p s"
  using assms(2)
proof (induction rule: rtranclp_induct)
  case base
  have "slots_are new_Slot (ReadTaskSM p)"
    unfolding slots_are_def ReadTaskSM_def new_task_def by (intro exI [of _ 128]) (simp add: numeral_eq_Suc)
  then have "sm_ctl (At R_init) (ReadTaskSM p)" "fresh_task p (ReadTaskSM p)"
    by (simp_all add: ReadTaskSM_def new_task_def sm_at_def slots_are_def fresh_task_def)
  then show ?case by (intro r_freshI) auto
next
  case (step s s1)
  then show ?case using r_step [OF assms(1)] by blast
qed

lemma r_alive_step:
  assumes "good_pipeline p" "r_inv p s" "sm_alive s"
  shows "\<exists>s1. rt_step s s1"
proof -
  obtain c where c: "sm_ctl c s" and pipe: "(\<exists>m. c = At m) \<or> (\<exists>v. r_at p c v s)"
    using assms(2) by (cases rule: r_inv_cases) (auto simp: r_at_def)
  show ?thesis
  proof (cases c)
    case (At m)
    then have at: "sm_at m s" using c by simp
    show ?thesis
    proof (cases "sm_running s")
      case True
      then show ?thesis using r_method [OF assms(1,2) at True, of None] rt_step.Method [OF True, of None] by blast
    next
      case False
      then have "0 < sm_queued s" using at by (simp add: sm_at_def)
      then show ?thesis using start_at [OF at] rt_step.Start by blast
    qed
  next
    case (Asleep m)
    then have a: "sm_asleep m s" using c by simp
    show ?thesis
    proof (cases "sm_running s")
      case True
      then have "exec_stops s" using a by (simp add: sm_asleep_def exec_stops_def)
      then show ?thesis using stop_asleep [OF a True] rt_step.Stop [OF True] by blast
    next
      case False
      obtain v where v: "r_at p (Asleep m) v s" using pipe Asleep by blast
      then have "r_ok p (Asleep m) v" "task_data read_ops p v s" by (simp_all add: r_at_def)
      then obtain op where "op \<in> set (t_inflight s)" using inflight_data(1) [of read_ops p v s] by (cases m) auto
      then show ?thesis using r_complete [OF assms(2) False] rt_step.Complete [OF False] by blast
    qed
  next
    case Done
    then have b: "sm_body s" using c by simp
    then have "sm_running s" "exec_stops s" by (simp_all add: sm_body_def exec_stops_def)
    then show ?thesis using stop_dead [OF b] rt_step.Stop by blast
  next
    case Dead
    then show ?thesis using c assms(3) by (simp add: sm_dead_def)
  qed
qed

subsection \<open>Runs\<close>

datatype rt_action = Do_Start | Do_Method "(addr \<times> int) option" | Do_Stop | Do_Complete task_op "addr \<times> int"

fun rt_do :: "rt_action \<Rightarrow> read_sm \<Rightarrow> read_sm option" where
  "rt_do Do_Start s = do { s1 \<leftarrow> unit_start s; exec_start s1 }"
| "rt_do (Do_Method early) s = do { assert_that (sm_running s); exec_method (read_call early) s }"
| "rt_do Do_Stop s = do { assert_that (sm_running s \<and> exec_stops s); s1 \<leftarrow> exec_end s; sm_release s1 }"
| "rt_do (Do_Complete op x) s = do { assert_that (\<not> sm_running s); complete_op op x s }"

fun rt_run :: "rt_action list \<Rightarrow> read_sm \<Rightarrow> read_sm option" where
  "rt_run [] s = Some s"
| "rt_run (a # as) s = do { s1 \<leftarrow> rt_do a s; rt_run as s1 }"

lemma rt_do_step: "rt_do a s = Some s1 \<Longrightarrow> rt_step s s1"
  by (cases a) (auto intro: rt_step.intros elim!: fault_elims)

lemma rt_run_steps: "rt_run as s = Some s1 \<Longrightarrow> rt_step\<^sup>*\<^sup>* s s1"
  by (induction as s rule: rt_run.induct) (auto intro: converse_rtranclp_into_rtranclp rt_do_step elim!: fault_elims)

definition small_read :: req_param where
  "small_read = \<lparr>rp_mem_starts = [], rp_mem_sizes = [5], rp_mem_total_size = 0, rp_file_starts = [100, 200],
     rp_file_sizes = [2, 3], rp_pipeline_size = 3, rp_max_buffer_size = 8\<rparr>"

definition small_read_run :: "rt_action list" where
  "small_read_run = [Do_Start, Do_Method None, Do_Method None, Do_Method (Some (10, 0)), Do_Method None, Do_Method (Some (0, 7)),
     Do_Method None, Do_Method (Some (0, 0)), Do_Method None, Do_Method None, Do_Stop, Do_Complete (Op_Alloc 1) (20, 0), Do_Start,
     Do_Method None, Do_Method (Some (0, 0)), Do_Method None, Do_Method (Some (0, 0)), Do_Method None,
     Do_Method (Some (0, 0)), Do_Method None, Do_Stop]"

lemma good_small_read: "good_pipeline small_read"
  by code_simp

lemma small_read_state:
  "map_option (\<lambda>s. (sm_alive s, t_results s, Op_Reply 7 \<in> set (t_trace s), trace_bytes (t_trace s))) (rt_run small_read_run (ReadTaskSM small_read)) =
     Some (False, [7, 0], True, [100, 101, 200, 201, 202])"
  by code_simp

subsection \<open>Properties\<close>

text \<open>
  (C22) A pipelined read runs without a failed assertion and never gets stuck: in every reachable state the
  method the machine is to run returns, whether its operation completes at once or later, every operation
  in flight can complete, and as long as the machine exists there is a next step.
\<close>

theorem read_task_never_stuck:
  assumes "good_pipeline p" "rt_step\<^sup>*\<^sup>* (ReadTaskSM p) s"
  shows "(\<forall>early m. sm_running s \<and> sm_next s = Some m \<longrightarrow> exec_method (read_call early) s \<noteq> None) \<and>
    (\<forall>op x. op \<in> set (t_inflight s) \<and> \<not> sm_running s \<longrightarrow> complete_op op x s \<noteq> None) \<and>
    (sm_alive s \<longrightarrow> (\<exists>s1. rt_step s s1))"
proof -
  have inv: "r_inv p s" by (rule r_reachable [OF assms])
  have "exec_method (read_call early) s \<noteq> None" if "sm_running s" "sm_next s = Some m" for early m
  proof -
    obtain c where c: "sm_ctl c s" using inv by (auto simp: r_inv_def r_at_def)
    have "sm_at m s" using ctl_next [OF c that] c by simp
    from r_method [OF assms(1) inv this that(1), of early] show ?thesis by auto
  qed
  moreover have "complete_op op x s \<noteq> None" if "op \<in> set (t_inflight s)" "\<not> sm_running s" for op x
    using r_complete [OF inv that(2,1), of x] by auto
  ultimately show ?thesis using r_alive_step [OF assms(1) inv] by blast
qed

theorem read_task_never_stuck_witness:
  "\<exists>s. rt_run (take 10 small_read_run) (ReadTaskSM small_read) = Some s \<and> sm_alive s \<and> t_inflight s = [Op_Alloc 1] \<and> (\<exists>s1. rt_step s s1)"
proof -
  have "map_option (\<lambda>s. (sm_alive s, t_inflight s)) (rt_run (take 10 small_read_run) (ReadTaskSM small_read)) = Some (True, [Op_Alloc 1])"
    by code_simp
  then obtain s where s: "rt_run (take 10 small_read_run) (ReadTaskSM small_read) = Some s" "sm_alive s" "t_inflight s = [Op_Alloc 1]"
    by auto
  then show ?thesis using read_task_never_stuck [OF good_small_read rt_run_steps [OF s(1)]] by blast
qed

text \<open>
  (C13) A pipelined read that has ended did all its work and kept nothing. For each buffer it allocated, read
  and then sent the data, one buffer after the other, and sent one reply at the end, whose code is OK exactly
  when all reads were and otherwise the code of one that failed; no operation is in flight, every buffer has
  been given back, and the read calls together name every byte of the file extents of the request, in order
  and each exactly once.
\<close>

theorem read_task_complete:
  assumes "good_pipeline p" "rt_step\<^sup>*\<^sup>* (ReadTaskSM p) s" "\<not> sm_alive s"
  shows "t_inflight s = [] \<and> (\<forall>rb \<in> set (the (t_rbuffer s)). rb_buffer rb = None) \<and>
    (\<exists>b r. t_trace s = concat (map (read_ops p b) [0 ..< plan_ops p]) @ [Op_Reply r] \<and>
      (r = ZFS_OK \<longleftrightarrow> (\<forall>x \<in> set (t_results s). x = ZFS_OK)) \<and> (r \<noteq> ZFS_OK \<longrightarrow> r \<in> set (t_results s))) \<and>
    length (t_results s) = plan_ops p \<and> trace_bytes (t_trace s) = seg_bytes (rp_file_starts p) (rp_file_sizes p)"
  using r_reachable [OF assms(1,2)]
proof (cases rule: r_inv_cases)
  case (fresh c)
  then show ?thesis using assms(3) by (auto simp: sm_at_def)
next
  case (pipe c v)
  then have d: "task_data read_ops p v s" "r_ok p c v" "sm_ctl c s" "r_count v" by (simp_all add: r_at_def)
  have "c = Dead" using d(3) assms(3) by (cases c) (auto simp: sm_state_defs)
  then have v: "v_index v = plan_ops p" "v_io v = []" "\<not> v_hold v" "v_ops v = []"
    "v_tail v = [Op_Reply (last_error (v_res v))]" "length (v_res v) = plan_ops p"
    using d(2,4) by (auto simp: r_over_def r_count_def)
  have "t_inflight s = []" "t_results s = v_res v" using d(1) v by (simp_all add: task_data_def)
  moreover have "\<forall>rb \<in> set (the (t_rbuffer s)). rb_buffer rb = None"
    using d(1) v by (auto simp: task_data_def task_bufs_def view_buf_def in_set_conv_nth)
  moreover have t: "t_trace s = concat (map (read_ops p (v_addr v)) [0 ..< plan_ops p]) @ [Op_Reply (last_error (v_res v))]"
    using d(1) v by (simp add: task_data_def)
  moreover have "trace_bytes (concat (map (read_ops p (v_addr v)) is)) = concat (map (\<lambda>i. io_bytes (plan_arrays p (v_addr v i) i)) is)"
    for "is" by (induction "is") (simp_all add: trace_bytes_def read_ops_def io_op_def)
  then have "trace_bytes (t_trace s) = seg_bytes (rp_file_starts p) (rp_file_sizes p)"
    using plan_arrays_cover [OF assms(1), of "v_addr v"] t by (simp add: trace_bytes_def)
  ultimately show ?thesis
    using last_error_OK [of "v_res v"] last_error_mem [of "v_res v"] v(6) by auto
qed

theorem read_task_complete_witness:
  "\<exists>s. rt_run small_read_run (ReadTaskSM small_read) = Some s \<and> \<not> sm_alive s \<and> t_inflight s = [] \<and> length (t_results s) = 2 \<and>
    trace_bytes (t_trace s) = [100, 101, 200, 201, 202]"
proof -
  obtain s where s: "rt_run small_read_run (ReadTaskSM small_read) = Some s" "\<not> sm_alive s"
    using small_read_state by auto
  moreover have "seg_bytes (rp_file_starts small_read) (rp_file_sizes small_read) = [100, 101, 200, 201, 202]" by code_simp
  moreover have "plan_ops small_read = 2" by code_simp
  ultimately show ?thesis using read_task_complete [OF good_small_read rt_run_steps [OF s(1)] s(2)] by auto
qed

end
