(* ===== verification/Simple_Tasks.thy ===== *)
theory Simple_Tasks
  imports Hints Write_Task Read_Task
begin

text \<open>
  The tasks of all operations but reading and writing, and the factory that makes a task for a request
  (\<open>src/iofwd/tasksm/BaseTaskSM.hh\<close>, the classes derived from it in that directory,
  \<open>src/iofwd/tasksm/TaskSMFactory.cpp\<close>). Every such task is the state machine of \<open>BaseTaskSM\<close> on the slots of
  \<^theory_text>\<open>Sm_Slots\<close>: it decodes the parameters of its request, starts one operation of the I/O
  interface and sleeps until it completes, sends one reply and sleeps until it is sent. The derived classes
  give the methods \<open>postDecodeInput\<close>, \<open>postRunOp\<close> and \<open>postReply\<close>. The requests and the I/O interface are
  abstract classes; what a call of theirs was given is recorded, and what it brings is an input of the step
  that completes it.
\<close>

subsection \<open>Requests, calls and replies\<close>

text \<open>
  The parameters \<open>decodeParam\<close> returns, one constructor for each request class. A parent handle, component
  name and full path, each of which may be null, are a \<^typ>\<open>FileSpec\<close>.
\<close>

type_synonym zoidfs_handle = "byte list"

datatype task_param =
    LookupParam FileSpec op_hint
  | LinkParam FileSpec FileSpec op_hint
  | SymLinkParam FileSpec FileSpec zoidfs_sattr op_hint
  | MkdirParam FileSpec zoidfs_sattr op_hint
  | CreateParam FileSpec zoidfs_sattr op_hint
  | CommitParam zoidfs_handle op_hint
  | NullParam
  | ReadLinkParam zoidfs_handle u64 op_hint
  | ReadDirParam zoidfs_handle u64 u32 u32 op_hint
  | RenameParam FileSpec FileSpec op_hint
  | RemoveParam FileSpec op_hint
  | ResizeParam zoidfs_handle u64 op_hint
  | SetAttrParam zoidfs_handle zoidfs_sattr zoidfs_attr op_hint
  | GetAttrParam zoidfs_handle zoidfs_attr op_hint
  | WriteParam req_param
  | ReadParam req_param
  | NotImplementedParam

record request =
  rq_opid :: int
  rq_param :: task_param
  rq_returncode :: int

definition setReturnCode :: "int \<Rightarrow> request \<Rightarrow> request" where
  "setReturnCode ret r = r\<lparr>rq_returncode := ret\<rparr>"

abbreviation ZFSERR_NOTIMPL :: int where
  "ZFSERR_NOTIMPL \<equiv> 38"

definition NotImplementedRequest :: "int \<Rightarrow> int \<Rightarrow> request" where
  "NotImplementedRequest opid garbage =
     setReturnCode ZFSERR_NOTIMPL \<lparr>rq_opid = opid, rq_param = NotImplementedParam, rq_returncode = garbage\<rparr>"

datatype api_call =
    Api_null
  | Api_lookup FileSpec op_hint
  | Api_link FileSpec FileSpec op_hint
  | Api_symlink FileSpec FileSpec zoidfs_sattr op_hint
  | Api_mkdir FileSpec zoidfs_sattr op_hint
  | Api_create FileSpec zoidfs_sattr op_hint
  | Api_commit zoidfs_handle op_hint
  | Api_readlink zoidfs_handle u64 op_hint
  | Api_readdir zoidfs_handle u64 u64 u32 op_hint
  | Api_rename FileSpec FileSpec op_hint
  | Api_remove FileSpec op_hint
  | Api_resize zoidfs_handle u64 op_hint
  | Api_setattr zoidfs_handle zoidfs_sattr zoidfs_attr op_hint
  | Api_getattr zoidfs_handle zoidfs_attr op_hint

text \<open>The variables an operation writes its results to; \<open>None\<close> is one that was not written.\<close>

record task_out =
  o_handle :: "zoidfs_handle option"
  o_created :: "int option"
  o_attr :: "zoidfs_attr option"
  o_hint :: "zoidfs_cache_hint option"
  o_to_hint :: "zoidfs_cache_hint option"
  o_buffer :: "byte list option"
  o_entry_count :: "u64 option"
  o_entries :: "zoidfs_dirent list option"

definition no_out :: task_out where
  "no_out = \<lparr>o_handle = None, o_created = None, o_attr = None, o_hint = None, o_to_hint = None, o_buffer = None,
     o_entry_count = None, o_entries = None\<rparr>"

text \<open>An operation writes only where its call points to.\<close>

fun api_write :: "api_call \<Rightarrow> task_out \<Rightarrow> task_out" where
  "api_write (Api_lookup _ _) v = no_out\<lparr>o_handle := o_handle v\<rparr>"
| "api_write (Api_create _ _ _) v = no_out\<lparr>o_handle := o_handle v, o_created := o_created v\<rparr>"
| "api_write (Api_link _ _ _) v = no_out\<lparr>o_hint := o_hint v, o_to_hint := o_to_hint v\<rparr>"
| "api_write (Api_symlink _ _ _ _) v = no_out\<lparr>o_hint := o_hint v, o_to_hint := o_to_hint v\<rparr>"
| "api_write (Api_rename _ _ _) v = no_out\<lparr>o_hint := o_hint v, o_to_hint := o_to_hint v\<rparr>"
| "api_write (Api_mkdir _ _ _) v = no_out\<lparr>o_hint := o_hint v\<rparr>"
| "api_write (Api_remove _ _) v = no_out\<lparr>o_hint := o_hint v\<rparr>"
| "api_write (Api_readlink _ _ _) v = no_out\<lparr>o_buffer := o_buffer v\<rparr>"
| "api_write (Api_readdir _ _ _ _ _) v = no_out\<lparr>o_entry_count := o_entry_count v, o_entries := o_entries v, o_hint := o_hint v\<rparr>"
| "api_write (Api_setattr _ _ _ _) v = no_out\<lparr>o_attr := o_attr v\<rparr>"
| "api_write (Api_getattr _ _ _) v = no_out\<lparr>o_attr := o_attr v\<rparr>"
| "api_write _ v = no_out"

text \<open>
  The arguments of \<open>reply\<close>. A pointer argument is \<open>None\<close> when it is null; what it points to may
  itself not have been written.
\<close>

datatype reply_data =
    R_plain
  | R_handle "zoidfs_handle option option"
  | R_create "zoidfs_handle option option" int
  | R_buffer "byte list option" u64
  | R_entries u32 "zoidfs_dirent list option" "zoidfs_cache_hint option"
  | R_hint "zoidfs_cache_hint option option"
  | R_hints "zoidfs_cache_hint option" "zoidfs_cache_hint option"
  | R_attr "zoidfs_attr option"

datatype task_event = Ev_api api_call | Ev_reply int reply_data

subsection \<open>The state machine\<close>

datatype base_method = B_init | B_postDecodeInput | B_waitDecodeInput | B_postRunOp | B_waitRunOp | B_postReply | B_waitReply

datatype task_class =
    LookupTaskSM | LinkTaskSM | SymLinkTaskSM | MkdirTaskSM | CreateTaskSM | CommitTaskSM | NullTaskSM | ReadLinkTaskSM
  | ReadDirTaskSM | RenameTaskSM | RemoveTaskSM | ResizeTaskSM | SetAttrTaskSM | GetAttrTaskSM | NotImplementedTaskSM

text \<open>
  \<open>st_inflight\<close>, \<open>st_trace\<close> and \<open>st_result\<close> record the operations that have not completed, all operations so far,
  and what the operation of the I/O interface brought.
\<close>

record simple_sm = "base_method sm" +
  st_class :: task_class
  st_request :: request
  st_p :: "task_param option"
  st_ret :: int
  st_out :: task_out
  st_bufferlen :: u64
  st_entry_count :: u64
  st_inflight :: "task_event list"
  st_trace :: "task_event list"
  st_result :: "(int \<times> task_out) option"

text \<open>A new task of the given class, scheduled.\<close>

definition new_simple_task :: "task_class \<Rightarrow> request \<Rightarrow> simple_sm" where
  "new_simple_task c rq =
     \<lparr>sm_slots = [new_Slot], sm_next = Some B_init, sm_next_status = CB_None, sm_yield = False, sm_running = False,
      sm_refs = 1, sm_alive = True, sm_queued = 1,
      st_class = c, st_request = rq, st_p = None, st_ret = 0, st_out = no_out, st_bufferlen = 0, st_entry_count = 0,
      st_inflight = [], st_trace = [], st_result = None\<rparr>"

definition begin_event :: "task_event \<Rightarrow> simple_sm \<Rightarrow> simple_sm" where
  "begin_event ev s = s\<lparr>st_inflight := ev # st_inflight s, st_trace := st_trace s @ [ev]\<rparr>"

fun event_effect :: "task_event \<Rightarrow> int \<times> task_out \<Rightarrow> simple_sm \<Rightarrow> simple_sm" where
  "event_effect (Ev_api c) v s = s\<lparr>st_ret := fst v, st_out := api_write c (snd v), st_result := Some v\<rparr>"
| "event_effect (Ev_reply r d) v s = s"

definition end_event :: "task_event \<Rightarrow> int \<times> task_out \<Rightarrow> simple_sm \<Rightarrow> simple_sm option" where
  "end_event ev v s = do {
     assert_that (ev \<in> set (st_inflight s));
     Some (event_effect ev v (s\<lparr>st_inflight := remove1 ev (st_inflight s)\<rparr>))
   }"

text \<open>
  Starting an operation with the slot \<open>BASE_SLOT\<close> as its callback and waiting for it. With \<open>early = Some v\<close>
  the operation completes inside the call that starts it, otherwise later.
\<close>

definition start_event :: "(int \<times> task_out) option \<Rightarrow> task_event \<Rightarrow> base_method \<Rightarrow> simple_sm \<Rightarrow> simple_sm option" where
  "start_event early ev next s = do {
     s1 \<leftarrow> slots_arm 0 s;
     let s2 = begin_event ev s1;
     s3 \<leftarrow> (case early of None \<Rightarrow> Some s2 | Some v \<Rightarrow> do { s4 \<leftarrow> end_event ev v s2; callbackhelper 0 CB_None s4 });
     slots_wait 0 next s3
   }"

definition complete_event :: "task_event \<Rightarrow> int \<times> task_out \<Rightarrow> simple_sm \<Rightarrow> simple_sm option" where
  "complete_event ev v s = do { s1 \<leftarrow> end_event ev v s; callbackhelper 0 CB_None s1 }"

text \<open>Calling the I/O interface, and replying with the return code the request has by then.\<close>

definition run_api :: "(int \<times> task_out) option \<Rightarrow> api_call \<Rightarrow> simple_sm \<Rightarrow> simple_sm option" where
  "run_api early c s = start_event early (Ev_api c) B_waitRunOp s"

definition send_reply :: "(int \<times> task_out) option \<Rightarrow> reply_data \<Rightarrow> simple_sm \<Rightarrow> simple_sm option" where
  "send_reply early d s = start_event early (Ev_reply (rq_returncode (st_request s)) d) B_waitReply s"

definition set_code :: "simple_sm \<Rightarrow> simple_sm" where
  "set_code s = s\<lparr>st_request := setReturnCode (st_ret s) (st_request s)\<rparr>"

text \<open>A pointer that is handed out only when the operation succeeded.\<close>

definition when_ok :: "simple_sm \<Rightarrow> 'a \<Rightarrow> 'a option" where
  "when_ok s x = (if st_ret s = ZFS_OK then Some x else None)"

subsection \<open>The classes\<close>

type_synonym task_body = "(int \<times> task_out) option \<Rightarrow> simple_sm \<Rightarrow> simple_sm option"

text \<open>\<open>postDecodeInput\<close> of the classes that decode parameters, and of the two that do not.\<close>

definition decode_postDecodeInput :: "simple_sm \<Rightarrow> simple_sm option" where
  "decode_postDecodeInput s = Some (setNextMethod B_waitDecodeInput CB_None (s\<lparr>st_p := Some (rq_param (st_request s))\<rparr>))"

definition skip_postDecodeInput :: "simple_sm \<Rightarrow> simple_sm option" where
  "skip_postDecodeInput s = Some (setNextMethod B_waitDecodeInput CB_None s)"

definition lookup_postRunOp :: task_body where
  "lookup_postRunOp early s = (case st_p s of Some (LookupParam x h) \<Rightarrow> run_api early (Api_lookup x h) s | _ \<Rightarrow> None)"

definition lookup_postReply :: task_body where
  "lookup_postReply early s = (let s = set_code s in send_reply early (R_handle (when_ok s (o_handle (st_out s)))) s)"

definition link_postRunOp :: task_body where
  "link_postRunOp early s = (case st_p s of Some (LinkParam x y h) \<Rightarrow> run_api early (Api_link x y h) s | _ \<Rightarrow> None)"

definition link_postReply :: task_body where
  "link_postReply early s = (let s = set_code s in send_reply early (R_hints (o_hint (st_out s)) (o_to_hint (st_out s))) s)"

definition symlink_postRunOp :: task_body where
  "symlink_postRunOp early s = (case st_p s of Some (SymLinkParam x y a h) \<Rightarrow> run_api early (Api_symlink x y a h) s | _ \<Rightarrow> None)"

definition symlink_postReply :: task_body where
  "symlink_postReply early s = (let s = set_code s in send_reply early (R_hints (o_hint (st_out s)) (o_to_hint (st_out s))) s)"

definition mkdir_postRunOp :: task_body where
  "mkdir_postRunOp early s = (case st_p s of Some (MkdirParam x a h) \<Rightarrow> run_api early (Api_mkdir x a h) s | _ \<Rightarrow> None)"

definition mkdir_postReply :: task_body where
  "mkdir_postReply early s = (let s = set_code s in send_reply early (R_hint (Some (o_hint (st_out s)))) s)"

definition create_postRunOp :: task_body where
  "create_postRunOp early s = (case st_p s of Some (CreateParam x a h) \<Rightarrow> run_api early (Api_create x a h) s | _ \<Rightarrow> None)"

definition create_postReply :: task_body where
  "create_postReply early s = (let s = set_code s in send_reply early (R_create (when_ok s (o_handle (st_out s))) (case o_created (st_out s) of None \<Rightarrow> 0 | Some n \<Rightarrow> n)) s)"

definition commit_postRunOp :: task_body where
  "commit_postRunOp early s = (case st_p s of Some (CommitParam x h) \<Rightarrow> run_api early (Api_commit x h) s | _ \<Rightarrow> None)"

definition commit_postReply :: task_body where
  "commit_postReply early s = (let s = set_code s in send_reply early (R_plain) s)"

definition null_postRunOp :: task_body where
  "null_postRunOp early s = run_api early Api_null s"

definition null_postReply :: task_body where
  "null_postReply early s = (let s = set_code s in send_reply early (R_plain) s)"

definition readlink_postRunOp :: task_body where
  "readlink_postRunOp early s = (case st_p s of Some (ReadLinkParam x n h) \<Rightarrow>
       (let len = (if n > of_nat (ZOIDFS_PATH_MAX + 1) then of_nat (ZOIDFS_PATH_MAX + 1) else n)
        in run_api early (Api_readlink x len h) (s\<lparr>st_bufferlen := len\<rparr>))
     | _ \<Rightarrow> None)"

definition readlink_postReply :: task_body where
  "readlink_postReply early s = (let s = set_code s in send_reply early (R_buffer (o_buffer (st_out s)) (st_bufferlen s)) s)"

text \<open>The count is a \<open>uint32_t\<close> in the parameters and in the reply and a \<open>size_t\<close> in between.\<close>

definition readdir_postRunOp :: task_body where
  "readdir_postRunOp early s = (case st_p s of Some (ReadDirParam x cookie n flags h) \<Rightarrow>
       run_api early (Api_readdir x cookie (ucast n) flags h) (s\<lparr>st_entry_count := ucast n\<rparr>)
     | _ \<Rightarrow> None)"

definition readdir_postReply :: task_body where
  "readdir_postReply early s = (let s = set_code s in
     send_reply early (R_entries (ucast (case o_entry_count (st_out s) of None \<Rightarrow> st_entry_count s | Some n \<Rightarrow> n))
       (o_entries (st_out s)) (o_hint (st_out s))) s)"

definition rename_postRunOp :: task_body where
  "rename_postRunOp early s = (case st_p s of Some (RenameParam x y h) \<Rightarrow> run_api early (Api_rename x y h) s | _ \<Rightarrow> None)"

definition rename_postReply :: task_body where
  "rename_postReply early s = (let s = set_code s in send_reply early (R_hints (o_hint (st_out s)) (o_to_hint (st_out s))) s)"

definition remove_postRunOp :: task_body where
  "remove_postRunOp early s = (case st_p s of Some (RemoveParam x h) \<Rightarrow> run_api early (Api_remove x h) s | _ \<Rightarrow> None)"

definition remove_postReply :: task_body where
  "remove_postReply early s = (let s = set_code s in send_reply early (R_hint (when_ok s (o_hint (st_out s)))) s)"

definition resize_postRunOp :: task_body where
  "resize_postRunOp early s = (case st_p s of Some (ResizeParam x n h) \<Rightarrow> run_api early (Api_resize x n h) s | _ \<Rightarrow> None)"

definition resize_postReply :: task_body where
  "resize_postReply early s = (let s = set_code s in send_reply early (R_plain) s)"

definition setattr_postRunOp :: task_body where
  "setattr_postRunOp early s = (case st_p s of Some (SetAttrParam x a attr h) \<Rightarrow> run_api early (Api_setattr x a attr h) s | _ \<Rightarrow> None)"

definition setattr_postReply :: task_body where
  "setattr_postReply early s = (case st_p s of Some (SetAttrParam x a attr h) \<Rightarrow>
       (let s = set_code s in
        send_reply early (R_attr (when_ok s (case o_attr (st_out s) of None \<Rightarrow> attr | Some b \<Rightarrow> b))) s)
     | _ \<Rightarrow> None)"

definition getattr_postRunOp :: task_body where
  "getattr_postRunOp early s = (case st_p s of Some (GetAttrParam x attr h) \<Rightarrow> run_api early (Api_getattr x attr h) s | _ \<Rightarrow> None)"

definition getattr_postReply :: task_body where
  "getattr_postReply early s = (case st_p s of Some (GetAttrParam x attr h) \<Rightarrow>
       (let s = set_code s in
        send_reply early (R_attr (when_ok s (case o_attr (st_out s) of None \<Rightarrow> attr | Some b \<Rightarrow> b))) s)
     | _ \<Rightarrow> None)"

text \<open>A request for an unknown operation is not executed; the reply has the code its constructor set.\<close>

definition notimpl_postRunOp :: task_body where
  "notimpl_postRunOp early s = Some (setNextMethod B_waitRunOp CB_None s)"

definition notimpl_postReply :: task_body where
  "notimpl_postReply early s = send_reply early R_plain s"

subsection \<open>Running a task\<close>

text \<open>The virtual methods of a task, by its class.\<close>

fun postDecodeInput :: "task_class \<Rightarrow> simple_sm \<Rightarrow> simple_sm option" where
  "postDecodeInput NullTaskSM s = skip_postDecodeInput s"
| "postDecodeInput NotImplementedTaskSM s = skip_postDecodeInput s"
| "postDecodeInput _ s = decode_postDecodeInput s"

fun postRunOp :: "task_class \<Rightarrow> task_body" where
  "postRunOp LookupTaskSM = lookup_postRunOp"
| "postRunOp LinkTaskSM = link_postRunOp"
| "postRunOp SymLinkTaskSM = symlink_postRunOp"
| "postRunOp MkdirTaskSM = mkdir_postRunOp"
| "postRunOp CreateTaskSM = create_postRunOp"
| "postRunOp CommitTaskSM = commit_postRunOp"
| "postRunOp NullTaskSM = null_postRunOp"
| "postRunOp ReadLinkTaskSM = readlink_postRunOp"
| "postRunOp ReadDirTaskSM = readdir_postRunOp"
| "postRunOp RenameTaskSM = rename_postRunOp"
| "postRunOp RemoveTaskSM = remove_postRunOp"
| "postRunOp ResizeTaskSM = resize_postRunOp"
| "postRunOp SetAttrTaskSM = setattr_postRunOp"
| "postRunOp GetAttrTaskSM = getattr_postRunOp"
| "postRunOp NotImplementedTaskSM = notimpl_postRunOp"

fun base_postReply :: "task_class \<Rightarrow> task_body" where
  "base_postReply LookupTaskSM = lookup_postReply"
| "base_postReply LinkTaskSM = link_postReply"
| "base_postReply SymLinkTaskSM = symlink_postReply"
| "base_postReply MkdirTaskSM = mkdir_postReply"
| "base_postReply CreateTaskSM = create_postReply"
| "base_postReply CommitTaskSM = commit_postReply"
| "base_postReply NullTaskSM = null_postReply"
| "base_postReply ReadLinkTaskSM = readlink_postReply"
| "base_postReply ReadDirTaskSM = readdir_postReply"
| "base_postReply RenameTaskSM = rename_postReply"
| "base_postReply RemoveTaskSM = remove_postReply"
| "base_postReply ResizeTaskSM = resize_postReply"
| "base_postReply SetAttrTaskSM = setattr_postReply"
| "base_postReply GetAttrTaskSM = getattr_postReply"
| "base_postReply NotImplementedTaskSM = notimpl_postReply"

fun base_call :: "(int \<times> task_out) option \<Rightarrow> base_method \<Rightarrow> cb_exception \<Rightarrow> simple_sm \<Rightarrow> simple_sm option" where
  "base_call early B_init e s = do { assert_that (\<not> hasException e); Some (setNextMethod B_postDecodeInput CB_None s) }"
| "base_call early B_postDecodeInput e s = do { assert_that (\<not> hasException e); postDecodeInput (st_class s) s }"
| "base_call early B_waitDecodeInput e s = do { assert_that (\<not> hasException e); Some (setNextMethod B_postRunOp CB_None s) }"
| "base_call early B_postRunOp e s = do { assert_that (\<not> hasException e); postRunOp (st_class s) early s }"
| "base_call early B_waitRunOp e s = do { assert_that (\<not> hasException e); Some (setNextMethod B_postReply CB_None s) }"
| "base_call early B_postReply e s = do { assert_that (\<not> hasException e); base_postReply (st_class s) early s }"
| "base_call early B_waitReply e s = do { assert_that (\<not> hasException e); Some s }"

text \<open>
  The factory. The cast in a task's constructor to the request class of its operation is a
  \<open>static_cast\<close>: on a request of another class the task's use of the parameters is undefined.
\<close>

datatype scheduled = Sch_simple simple_sm | Sch_write write_sm | Sch_read read_sm

definition simple_class :: "int \<Rightarrow> task_class" where
  "simple_class opid =
     (if opid = 3 then LookupTaskSM
      else if opid = 15 then LinkTaskSM
      else if opid = 9 then SymLinkTaskSM
      else if opid = 10 then MkdirTaskSM
      else if opid = 6 then CreateTaskSM
      else if opid = 5 then CommitTaskSM
      else if opid = 0 then NullTaskSM
      else if opid = 4 then ReadLinkTaskSM
      else if opid = 11 then ReadDirTaskSM
      else if opid = 8 then RenameTaskSM
      else if opid = 7 then RemoveTaskSM
      else if opid = 12 then ResizeTaskSM
      else if opid = 2 then SetAttrTaskSM
      else if opid = 1 then GetAttrTaskSM
      else NotImplementedTaskSM)"

definition TaskSMFactory :: "request \<Rightarrow> scheduled option" where
  "TaskSMFactory rq =
     (if rq_opid rq = 13 then (case rq_param rq of WriteParam p \<Rightarrow> Some (Sch_write (WriteTaskSM p)) | _ \<Rightarrow> None)
      else if rq_opid rq = 14 then (case rq_param rq of ReadParam p \<Rightarrow> Some (Sch_read (ReadTaskSM p)) | _ \<Rightarrow> None)
      else Some (Sch_simple (new_simple_task (simple_class (rq_opid rq)) rq)))"

text \<open>The thread pool runs the methods and the environment completes the operations.\<close>

inductive st_step :: "simple_sm \<Rightarrow> simple_sm \<Rightarrow> bool" where
  Start: "unit_start s = Some s1 \<Longrightarrow> exec_start s1 = Some s2 \<Longrightarrow> st_step s s2"
| Method: "sm_running s \<Longrightarrow> exec_method (base_call early) s = Some s1 \<Longrightarrow> st_step s s1"
| Stop: "sm_running s \<Longrightarrow> exec_stops s \<Longrightarrow> exec_end s = Some s1 \<Longrightarrow> sm_release s1 = Some s2 \<Longrightarrow> st_step s s2"
| Complete: "\<not> sm_running s \<Longrightarrow> complete_event ev v s = Some s1 \<Longrightarrow> st_step s s1"

subsection \<open>What a task has to do\<close>

text \<open>
  The specification: the call of the I/O interface for a request, the answer for what the call brought, and
  with them the operations of a task, first to last.
\<close>

fun task_call :: "task_param \<Rightarrow> api_call option" where
  "task_call (LookupParam x h) = Some (Api_lookup x h)"
| "task_call (LinkParam x y h) = Some (Api_link x y h)"
| "task_call (SymLinkParam x y a h) = Some (Api_symlink x y a h)"
| "task_call (MkdirParam x a h) = Some (Api_mkdir x a h)"
| "task_call (CreateParam x a h) = Some (Api_create x a h)"
| "task_call (CommitParam x h) = Some (Api_commit x h)"
| "task_call NullParam = Some Api_null"
| "task_call (ReadLinkParam x n h) = Some (Api_readlink x (min n 4097) h)"
| "task_call (ReadDirParam x cookie n flags h) = Some (Api_readdir x cookie (ucast n) flags h)"
| "task_call (RenameParam x y h) = Some (Api_rename x y h)"
| "task_call (RemoveParam x h) = Some (Api_remove x h)"
| "task_call (ResizeParam x n h) = Some (Api_resize x n h)"
| "task_call (SetAttrParam x a attr h) = Some (Api_setattr x a attr h)"
| "task_call (GetAttrParam x attr h) = Some (Api_getattr x attr h)"
| "task_call _ = None"

definition if_ok :: "int \<times> task_out \<Rightarrow> 'a \<Rightarrow> 'a option" where
  "if_ok v x = (if fst v = ZFS_OK then Some x else None)"

fun task_answer :: "task_param \<Rightarrow> int \<times> task_out \<Rightarrow> reply_data" where
  "task_answer (LookupParam x h) v = R_handle (if_ok v (o_handle (snd v)))"
| "task_answer (LinkParam x y h) v = R_hints (o_hint (snd v)) (o_to_hint (snd v))"
| "task_answer (SymLinkParam x y a h) v = R_hints (o_hint (snd v)) (o_to_hint (snd v))"
| "task_answer (MkdirParam x a h) v = R_hint (Some (o_hint (snd v)))"
| "task_answer (CreateParam x a h) v = R_create (if_ok v (o_handle (snd v))) (case o_created (snd v) of None \<Rightarrow> 0 | Some n \<Rightarrow> n)"
| "task_answer (ReadLinkParam x n h) v = R_buffer (o_buffer (snd v)) (min n 4097)"
| "task_answer (ReadDirParam x cookie n flags h) v =
     R_entries (case o_entry_count (snd v) of None \<Rightarrow> n | Some k \<Rightarrow> ucast k) (o_entries (snd v)) (o_hint (snd v))"
| "task_answer (RenameParam x y h) v = R_hints (o_hint (snd v)) (o_to_hint (snd v))"
| "task_answer (RemoveParam x h) v = R_hint (if_ok v (o_hint (snd v)))"
| "task_answer (SetAttrParam x a attr h) v = R_attr (if_ok v (case o_attr (snd v) of None \<Rightarrow> attr | Some b \<Rightarrow> b))"
| "task_answer (GetAttrParam x attr h) v = R_attr (if_ok v (case o_attr (snd v) of None \<Rightarrow> attr | Some b \<Rightarrow> b))"
| "task_answer _ v = R_plain"

definition task_reply_event :: "request \<Rightarrow> int \<times> task_out \<Rightarrow> task_event" where
  "task_reply_event rq v = (case task_call (rq_param rq) of
     None \<Rightarrow> Ev_reply (rq_returncode rq) R_plain | Some c \<Rightarrow> Ev_reply (fst v) (task_answer (rq_param rq) v))"

definition task_events :: "request \<Rightarrow> int \<times> task_out \<Rightarrow> task_event list" where
  "task_events rq v = (case task_call (rq_param rq) of None \<Rightarrow> [] | Some c \<Rightarrow> [Ev_api c]) @ [task_reply_event rq v]"

text \<open>The request class that belongs to an operation.\<close>

fun param_class :: "task_param \<Rightarrow> task_class option" where
  "param_class (LookupParam _ _) = Some LookupTaskSM"
| "param_class (LinkParam _ _ _) = Some LinkTaskSM"
| "param_class (SymLinkParam _ _ _ _) = Some SymLinkTaskSM"
| "param_class (MkdirParam _ _ _) = Some MkdirTaskSM"
| "param_class (CreateParam _ _ _) = Some CreateTaskSM"
| "param_class (CommitParam _ _) = Some CommitTaskSM"
| "param_class NullParam = Some NullTaskSM"
| "param_class (ReadLinkParam _ _ _) = Some ReadLinkTaskSM"
| "param_class (ReadDirParam _ _ _ _ _) = Some ReadDirTaskSM"
| "param_class (RenameParam _ _ _) = Some RenameTaskSM"
| "param_class (RemoveParam _ _) = Some RemoveTaskSM"
| "param_class (ResizeParam _ _ _) = Some ResizeTaskSM"
| "param_class (SetAttrParam _ _ _ _) = Some SetAttrTaskSM"
| "param_class (GetAttrParam _ _ _) = Some GetAttrTaskSM"
| "param_class NotImplementedParam = Some NotImplementedTaskSM"
| "param_class _ = None"

definition request_ok :: "request \<Rightarrow> bool" where
  "request_ok rq \<longleftrightarrow> (if rq_opid rq = 13 then (\<exists>p. rq_param rq = WriteParam p)
     else if rq_opid rq = 14 then (\<exists>p. rq_param rq = ReadParam p)
     else param_class (rq_param rq) = Some (simple_class (rq_opid rq)))"

subsection \<open>Operations of a task\<close>

lemma event_effect_keeps [simp]:
  "sm_alive (event_effect ev v s) = sm_alive s" "sm_yield (event_effect ev v s) = sm_yield s"
  "sm_next (event_effect ev v s) = sm_next s" "sm_running (event_effect ev v s) = sm_running s"
  "sm_queued (event_effect ev v s) = sm_queued s" "sm_slots (event_effect ev v s) = sm_slots s"
  "sm_refs (event_effect ev v s) = sm_refs s"
  by (cases ev; simp)+

lemma event_effect_sm:
  "event_effect ev v (s\<lparr>sm_slots := xs, sm_refs := r\<rparr>) = (event_effect ev v s)\<lparr>sm_slots := xs, sm_refs := r\<rparr>"
  by (cases ev) simp_all

text \<open>After an operation that has completed, in the call or later.\<close>

definition after_event :: "task_event \<Rightarrow> int \<times> task_out \<Rightarrow> simple_sm \<Rightarrow> simple_sm" where
  "after_event ev v s = event_effect ev v (s\<lparr>st_trace := st_trace s @ [ev]\<rparr>)"

lemma start_event_late:
  assumes "sm_body s"
  shows "\<exists>xs. start_event None ev n s = Some ((begin_event ev s)\<lparr>sm_slots := xs, sm_refs := 2\<rparr>) \<and>
    sm_asleep n ((begin_event ev s)\<lparr>sm_slots := xs, sm_refs := 2\<rparr>)"
proof -
  obtain k where k: "slots_arm 0 s = Some (s\<lparr>sm_slots := waiting_slot None # replicate k new_Slot, sm_refs := 2\<rparr>)"
    using slots_arm_body [OF assms] by blast
  let ?s = "begin_event ev (s\<lparr>sm_slots := waiting_slot None # replicate k new_Slot, sm_refs := 2\<rparr>)"
  from wait_late [of ?s k n] assms
  obtain xs where "slots_wait 0 n ?s = Some (?s\<lparr>sm_slots := xs\<rparr>)" "sm_asleep n (?s\<lparr>sm_slots := xs\<rparr>)"
    by (auto simp: sm_body_def begin_event_def)
  moreover have "?s\<lparr>sm_slots := xs\<rparr> = (begin_event ev s)\<lparr>sm_slots := xs, sm_refs := 2\<rparr>"
    by (cases s) (simp add: begin_event_def)
  ultimately show ?thesis using k by (auto simp: start_event_def)
qed

lemma start_event_early:
  assumes "sm_body s"
  shows "\<exists>xs. start_event (Some v) ev n s =
      Some ((after_event ev v s)\<lparr>sm_slots := xs, sm_refs := 1, sm_next := Some n, sm_next_status := CB_None\<rparr>) \<and>
    sm_at n ((after_event ev v s)\<lparr>sm_slots := xs, sm_refs := 1, sm_next := Some n, sm_next_status := CB_None\<rparr>)"
proof -
  obtain k where k: "slots_arm 0 s = Some (s\<lparr>sm_slots := waiting_slot None # replicate k new_Slot, sm_refs := 2\<rparr>)"
    using slots_arm_body [OF assms] by blast
  let ?xs = "waiting_slot None # replicate k new_Slot"
  let ?s = "(after_event ev v s)\<lparr>sm_slots := ?xs, sm_refs := 2\<rparr>"
  have e: "end_event ev v (begin_event ev (s\<lparr>sm_slots := ?xs, sm_refs := 2\<rparr>)) = Some ?s"
    unfolding after_event_def event_effect_sm [symmetric] by (cases s) (simp add: end_event_def begin_event_def)
  have "\<exists>ys. do { s2 \<leftarrow> callbackhelper 0 CB_None ?s; slots_wait 0 n s2 } =
      Some (?s\<lparr>sm_slots := ys, sm_refs := 1, sm_next := Some n, sm_next_status := CB_None\<rparr>) \<and>
      sm_at n (?s\<lparr>sm_slots := ys, sm_refs := 1, sm_next := Some n, sm_next_status := CB_None\<rparr>)"
    using assms by (intro wait_early) (auto simp: sm_body_def after_event_def)
  then show ?thesis using k e by (auto simp: start_event_def)
qed

lemma complete_event_Some:
  assumes "sm_asleep n s" "\<not> sm_running s" "ev \<in> set (st_inflight s)"
  shows "\<exists>xs. complete_event ev v s = Some ((event_effect ev v (s\<lparr>st_inflight := remove1 ev (st_inflight s)\<rparr>))
      \<lparr>sm_slots := xs, sm_next := Some n, sm_next_status := CB_None, sm_queued := 1\<rparr>) \<and>
    sm_at n ((event_effect ev v (s\<lparr>st_inflight := remove1 ev (st_inflight s)\<rparr>))
      \<lparr>sm_slots := xs, sm_next := Some n, sm_next_status := CB_None, sm_queued := 1\<rparr>)"
proof -
  let ?s = "event_effect ev v (s\<lparr>st_inflight := remove1 ev (st_inflight s)\<rparr>)"
  have "sm_asleep n ?s" "\<not> sm_running ?s" using assms(1,2) by (simp_all add: sm_asleep_def slots_are_def)
  from callback_resumes [OF this] show ?thesis using assms(3) by (simp add: complete_event_def end_event_def)
qed

subsection \<open>Where a task is\<close>

text \<open>The variables that \<open>postRunOp\<close> sets before the call.\<close>

fun prepared :: "task_param \<Rightarrow> simple_sm \<Rightarrow> simple_sm" where
  "prepared (ReadLinkParam x n h) s = s\<lparr>st_bufferlen := min n 4097\<rparr>"
| "prepared (ReadDirParam x cookie n flags h) s = s\<lparr>st_entry_count := ucast n\<rparr>"
| "prepared _ s = s"

fun set_up :: "task_param \<Rightarrow> simple_sm \<Rightarrow> bool" where
  "set_up (ReadLinkParam x n h) s = (st_bufferlen s = min n 4097)"
| "set_up (ReadDirParam x cookie n flags h) s = (st_entry_count s = ucast n)"
| "set_up _ s = True"

definition decoded :: "request \<Rightarrow> simple_sm \<Rightarrow> bool" where
  "decoded rq s \<longleftrightarrow> (st_class s = NullTaskSM \<or> st_class s = NotImplementedTaskSM \<or> st_p s = Some (rq_param rq))"

definition call_events :: "request \<Rightarrow> task_event list" where
  "call_events rq = (case task_call (rq_param rq) of None \<Rightarrow> [] | Some c \<Rightarrow> [Ev_api c])"

text \<open>Before the call, and with the result of the call.\<close>

definition st_fresh :: "request \<Rightarrow> simple_sm \<Rightarrow> bool" where
  "st_fresh rq s \<longleftrightarrow> st_request s = rq \<and> st_trace s = [] \<and> st_inflight s = [] \<and> st_result s = None"

definition has_result :: "request \<Rightarrow> int \<times> task_out \<Rightarrow> simple_sm \<Rightarrow> bool" where
  "has_result rq v s \<longleftrightarrow> (case task_call (rq_param rq) of
     None \<Rightarrow> st_result s = None
   | Some c \<Rightarrow> st_result s = Some v \<and> st_ret s = fst v \<and> st_out s = api_write c (snd v))"

fun st_data :: "request \<Rightarrow> base_method ctl \<Rightarrow> simple_sm \<Rightarrow> bool" where
  "st_data rq (At B_init) s = st_fresh rq s"
| "st_data rq (At B_postDecodeInput) s = st_fresh rq s"
| "st_data rq (At B_waitDecodeInput) s = (st_fresh rq s \<and> decoded rq s)"
| "st_data rq (At B_postRunOp) s = (st_fresh rq s \<and> decoded rq s)"
| "st_data rq (Asleep B_waitRunOp) s = (st_request s = rq \<and> decoded rq s \<and> set_up (rq_param rq) s \<and>
     call_events rq \<noteq> [] \<and> st_trace s = call_events rq \<and> st_inflight s = call_events rq \<and> st_result s = None)"
| "st_data rq (At B_waitRunOp) s = (st_request s = rq \<and> decoded rq s \<and> set_up (rq_param rq) s \<and>
     st_trace s = call_events rq \<and> st_inflight s = [] \<and> (\<exists>v. has_result rq v s))"
| "st_data rq (At B_postReply) s = (st_request s = rq \<and> decoded rq s \<and> set_up (rq_param rq) s \<and>
     st_trace s = call_events rq \<and> st_inflight s = [] \<and> (\<exists>v. has_result rq v s))"
| "st_data rq (Asleep B_waitReply) s = (\<exists>v. has_result rq v s \<and> st_trace s = task_events rq v \<and> st_inflight s = [task_reply_event rq v])"
| "st_data rq (Asleep _) s = False"
| "st_data rq _ s = (\<exists>v. has_result rq v s \<and> st_trace s = task_events rq v \<and> st_inflight s = [])"

definition st_inv :: "request \<Rightarrow> base_method ctl \<Rightarrow> simple_sm \<Rightarrow> bool" where
  "st_inv rq c s \<longleftrightarrow> sm_ctl c s \<and> st_data rq c s \<and> param_class (rq_param rq) = Some (st_class s)"

text \<open>How many steps a task can still make.\<close>

fun st_rank :: "base_method ctl \<Rightarrow> bool \<Rightarrow> nat" where
  "st_rank (At B_init) run = (if run then 14 else 15)"
| "st_rank (At B_postDecodeInput) run = (if run then 13 else 14)"
| "st_rank (At B_waitDecodeInput) run = (if run then 12 else 13)"
| "st_rank (At B_postRunOp) run = (if run then 11 else 12)"
| "st_rank (Asleep B_waitRunOp) run = (if run then 10 else 9)"
| "st_rank (At B_waitRunOp) run = (if run then 7 else 8)"
| "st_rank (At B_postReply) run = (if run then 6 else 7)"
| "st_rank (Asleep _) run = (if run then 5 else 4)"
| "st_rank (At B_waitReply) run = (if run then 2 else 3)"
| "st_rank Done run = 1"
| "st_rank Dead run = 0"

lemma prepared_sm [simp]:
  "sm_body (prepared p s) = sm_body s" "sm_running (prepared p s) = sm_running s" "st_class (prepared p s) = st_class s"
  "st_request (prepared p s) = st_request s" "st_trace (prepared p s) = st_trace s" "st_inflight (prepared p s) = st_inflight s"
  "st_result (prepared p s) = st_result s" "st_p (prepared p s) = st_p s" "set_up p (prepared p s)"
  by (cases p; simp add: sm_body_def slots_are_def)+

text \<open>The data does not depend on the fields of the state machine.\<close>

definition same_task :: "simple_sm \<Rightarrow> simple_sm \<Rightarrow> bool" where
  "same_task s s1 \<longleftrightarrow> st_class s1 = st_class s \<and> st_request s1 = st_request s \<and> st_p s1 = st_p s \<and> st_ret s1 = st_ret s \<and>
     st_out s1 = st_out s \<and> st_bufferlen s1 = st_bufferlen s \<and> st_entry_count s1 = st_entry_count s \<and>
     st_inflight s1 = st_inflight s \<and> st_trace s1 = st_trace s \<and> st_result s1 = st_result s"

lemma set_up_same: "same_task s s1 \<Longrightarrow> set_up p s1 = set_up p s"
  by (cases p) (simp_all add: same_task_def)

lemma parts_same:
  assumes "same_task s s1"
  shows "decoded rq s1 = decoded rq s" "st_fresh rq s1 = st_fresh rq s" "has_result rq v s1 = has_result rq v s"
  using assms by (simp_all add: same_task_def decoded_def st_fresh_def has_result_def split: option.split)

lemma data_same:
  assumes "same_task s s1"
  shows "st_data rq c s1 = st_data rq c s"
  using parts_same [OF assms] set_up_same [OF assms] assms [unfolded same_task_def]
  by (cases "(rq, c, s)" rule: st_data.cases) simp_all

lemma inv_same: "same_task s s1 \<Longrightarrow> st_data rq c s \<Longrightarrow> param_class (rq_param rq) = Some (st_class s) \<Longrightarrow> sm_ctl c s1 \<Longrightarrow> st_inv rq c s1"
  using data_same [of s s1 rq c] by (simp add: st_inv_def same_task_def)

subsection \<open>Every step keeps to the plan\<close>

lemma postRunOp_eq:
  assumes "decoded rq s" "param_class (rq_param rq) = Some (st_class s)"
  shows "postRunOp (st_class s) early s = (case task_call (rq_param rq) of
      None \<Rightarrow> Some (setNextMethod B_waitRunOp CB_None s)
    | Some c \<Rightarrow> start_event early (Ev_api c) B_waitRunOp (prepared (rq_param rq) s))"
  using assms by (cases "rq_param rq")
    (auto simp: decoded_def lookup_postRunOp_def link_postRunOp_def symlink_postRunOp_def mkdir_postRunOp_def create_postRunOp_def
      commit_postRunOp_def null_postRunOp_def readlink_postRunOp_def readdir_postRunOp_def rename_postRunOp_def remove_postRunOp_def
      resize_postRunOp_def setattr_postRunOp_def getattr_postRunOp_def notimpl_postRunOp_def run_api_def ZOIDFS_PATH_MAX_def
      Let_def min_def not_less)

text \<open>The state in which the reply is sent.\<close>

definition coded :: "request \<Rightarrow> simple_sm \<Rightarrow> simple_sm" where
  "coded rq s = (if task_call (rq_param rq) = None then s else set_code s)"

lemma ucast_down_up: "ucast (ucast (n :: u32) :: u64) = n"
  by (rule bit_word_eqI) (simp add: bit_unsigned_iff)

lemma postReply_eq:
  assumes "decoded rq s" "param_class (rq_param rq) = Some (st_class s)" "set_up (rq_param rq) s" "st_request s = rq" "has_result rq v s"
  shows "base_postReply (st_class s) early s = start_event early (task_reply_event rq v) B_waitReply (coded rq s)"
  using assms by (cases "rq_param rq")
    (auto simp: decoded_def lookup_postReply_def link_postReply_def symlink_postReply_def mkdir_postReply_def create_postReply_def
      commit_postReply_def null_postReply_def readlink_postReply_def readdir_postReply_def rename_postReply_def remove_postReply_def
      resize_postReply_def setattr_postReply_def getattr_postReply_def notimpl_postReply_def send_reply_def set_code_def setReturnCode_def
      has_result_def task_reply_event_def coded_def when_ok_def if_ok_def no_out_def ucast_down_up Let_def split: option.splits)

lemma start_keeps:
  assumes "sm_body s" "param_class (rq_param rq) = Some (st_class s)"
    "st_data rq (Asleep n) (begin_event ev s)" "\<And>v. st_data rq (At n) (after_event ev v s)"
  shows "\<exists>s1 c1. start_event early ev n s = Some s1 \<and> st_inv rq c1 s1 \<and> sm_running s1 \<and> c1 \<in> {Asleep n, At n}"
proof (cases early)
  case None
  obtain xs where s: "start_event None ev n s = Some ((begin_event ev s)\<lparr>sm_slots := xs, sm_refs := 2\<rparr>)"
    "sm_asleep n ((begin_event ev s)\<lparr>sm_slots := xs, sm_refs := 2\<rparr>)" using start_event_late [OF assms(1)] by blast
  have "st_inv rq (Asleep n) ((begin_event ev s)\<lparr>sm_slots := xs, sm_refs := 2\<rparr>)"
    by (rule inv_same [OF _ assms(3)]) (use s(2) assms(2) in \<open>simp_all add: same_task_def begin_event_def\<close>)
  then show ?thesis using s(1) None assms(1) by (auto simp: sm_body_def begin_event_def)
next
  case (Some v)
  let ?a = "after_event ev v s"
  obtain xs where s: "start_event (Some v) ev n s = Some (?a\<lparr>sm_slots := xs, sm_refs := 1, sm_next := Some n, sm_next_status := CB_None\<rparr>)"
    "sm_at n (?a\<lparr>sm_slots := xs, sm_refs := 1, sm_next := Some n, sm_next_status := CB_None\<rparr>)" using start_event_early [OF assms(1)] by blast
  have "st_class ?a = st_class s" by (cases ev) (simp_all add: after_event_def)
  then have "st_inv rq (At n) (?a\<lparr>sm_slots := xs, sm_refs := 1, sm_next := Some n, sm_next_status := CB_None\<rparr>)"
    by (intro inv_same [OF _ assms(4) [of v]]) (use s(2) assms(2) in \<open>simp_all add: same_task_def\<close>)
  then show ?thesis using s(1) Some assms(1) by (auto simp: sm_body_def after_event_def)
qed

lemma next_keeps:
  assumes "sm_body s" "param_class (rq_param rq) = Some (st_class s)" "st_data rq (At n) s"
  shows "st_inv rq (At n) (setNextMethod n CB_None s) \<and> sm_running (setNextMethod n CB_None s)"
  using inv_same [of s "setNextMethod n CB_None s" rq "At n"] sm_at_set_next [OF assms(1), of n] assms
  by (simp add: same_task_def setNextMethod_def sm_body_def)

lemma run_keeps:
  assumes "sm_body s" "param_class (rq_param rq) = Some (st_class s)" "st_fresh rq s" "decoded rq s"
  shows "\<exists>s1 c1. postRunOp (st_class s) early s = Some s1 \<and> st_inv rq c1 s1 \<and> sm_running s1 \<and> c1 \<in> {Asleep B_waitRunOp, At B_waitRunOp}"
proof (cases "task_call (rq_param rq)")
  case None
  have "st_data rq (At B_waitRunOp) s" using None assms(3,4)
    by (cases "rq_param rq") (auto simp: st_fresh_def call_events_def has_result_def)
  from next_keeps [OF assms(1,2) this] show ?thesis unfolding postRunOp_eq [OF assms(4,2)] None option.case by blast
next
  case (Some c)
  let ?s = "prepared (rq_param rq) s"
  have d: "decoded rq (begin_event (Ev_api c) ?s)" "decoded rq (after_event (Ev_api c) v ?s)" for v
    using assms(4) by (simp_all add: decoded_def begin_event_def after_event_def)
  have u: "set_up (rq_param rq) (begin_event (Ev_api c) ?s)" "set_up (rq_param rq) (after_event (Ev_api c) v ?s)" for v
    by (cases "rq_param rq"; simp add: begin_event_def after_event_def)+
  have "st_data rq (Asleep B_waitRunOp) (begin_event (Ev_api c) ?s)" "st_data rq (At B_waitRunOp) (after_event (Ev_api c) v ?s)" for v
    using d u assms(3) Some by (auto simp: st_fresh_def call_events_def has_result_def begin_event_def after_event_def)
  from start_keeps [of ?s, OF _ _ this] show ?thesis using assms(1,2) postRunOp_eq [OF assms(4,2)] Some by simp
qed

lemma reply_keeps:
  assumes "sm_body s" "param_class (rq_param rq) = Some (st_class s)" "st_data rq (At B_postReply) s"
  shows "\<exists>s1 c1. base_postReply (st_class s) early s = Some s1 \<and> st_inv rq c1 s1 \<and> sm_running s1 \<and> c1 \<in> {Asleep B_waitReply, At B_waitReply}"
proof -
  obtain v where v: "decoded rq s" "set_up (rq_param rq) s" "st_request s = rq" "has_result rq v s" "st_trace s = call_events rq" "st_inflight s = []"
    using assms(3) by auto
  let ?s = "coded rq s" and ?e = "task_reply_event rq v"
  have e: "after_event ?e w ?s = ?s\<lparr>st_trace := st_trace ?s @ [?e]\<rparr>" for w
    by (simp add: after_event_def task_reply_event_def split: option.split)
  have t: "task_events rq v = call_events rq @ [?e]" by (simp add: task_events_def call_events_def)
  have s: "st_trace ?s = call_events rq" "st_inflight ?s = []" "st_class ?s = st_class s" "sm_body ?s"
    using v assms(1) by (simp_all add: coded_def set_code_def sm_body_def slots_are_def)
  have r: "has_result rq v (begin_event ?e ?s)" "has_result rq v (after_event ?e w ?s)" for w
    using v(4) unfolding e by (simp_all add: has_result_def begin_event_def coded_def set_code_def split: option.splits)
  have "st_data rq (Asleep B_waitReply) (begin_event ?e ?s)" "st_data rq (At B_waitReply) (after_event ?e w ?s)" for w
    unfolding st_data.simps by (intro exI [of _ v] conjI r; simp add: s t e begin_event_def)+
  from start_keeps [of ?s, OF s(4) _ this] show ?thesis using assms(2) s(3) postReply_eq [OF v(1) assms(2) v(2-4)] by simp
qed

lemma decode_ok:
  assumes "st_fresh rq s"
  shows "\<exists>s1. postDecodeInput (st_class s) s = Some (setNextMethod B_waitDecodeInput CB_None s1) \<and> sm_body s1 = sm_body s \<and>
    st_fresh rq s1 \<and> decoded rq s1 \<and> st_class s1 = st_class s"
proof -
  let ?s = "s\<lparr>st_p := Some (rq_param rq)\<rparr>"
  have "sm_body ?s = sm_body s" "st_fresh rq ?s" "decoded rq ?s" "decode_postDecodeInput s = Some (setNextMethod B_waitDecodeInput CB_None ?s)"
    using assms by (simp_all add: sm_body_def slots_are_def st_fresh_def decoded_def decode_postDecodeInput_def)
  moreover have "postDecodeInput (st_class s) s = decode_postDecodeInput s \<or>
      postDecodeInput (st_class s) s = skip_postDecodeInput s \<and> decoded rq s"
    by (cases "st_class s") (simp_all add: decoded_def)
  ultimately show ?thesis using assms by (elim disjE) (intro exI [of _ ?s], simp, intro exI [of _ s], simp add: skip_postDecodeInput_def)
qed

lemma method_keeps:
  assumes "st_inv rq c s" "sm_at m s" "sm_running s"
  shows "\<exists>s1 c1. exec_method (base_call early) s = Some s1 \<and> st_inv rq c1 s1 \<and> sm_running s1 \<and> st_rank c1 True < st_rank c True"
proof -
  let ?s = "s\<lparr>sm_next := None, sm_next_status := CB_None\<rparr>"
  have c: "c = At m" using assms(1,2) ctl_at by (auto simp: st_inv_def)
  note call = exec_method_at(1) [OF assms(2,3), of "base_call early"]
  note b = exec_method_at(2) [OF assms(2,3)]
  have p: "param_class (rq_param rq) = Some (st_class ?s)" and d: "st_data rq (At m) ?s"
    using assms(1) data_same [of s ?s rq "At m"] c by (simp_all add: st_inv_def same_task_def)
  have n: ?thesis if "st_data rq (At n) s1" "sm_body s1" "st_class s1 = st_class s" "st_rank (At n) True < st_rank c True"
    "base_call early m CB_None ?s = Some (setNextMethod n CB_None s1)" for n s1
    using next_keeps [OF that(2) _ that(1)] p that(3-5) unfolding call by (intro exI [of _ "setNextMethod n CB_None s1"] exI [of _ "At n"]) simp
  show ?thesis
  proof (cases m)
    case B_init
    then show ?thesis using d b by (intro n [of B_postDecodeInput ?s]) (simp_all add: c)
  next
    case B_postDecodeInput
    obtain s1 where s1: "postDecodeInput (st_class ?s) ?s = Some (setNextMethod B_waitDecodeInput CB_None s1)" "sm_body s1 = sm_body ?s"
      "st_fresh rq s1" "decoded rq s1" "st_class s1 = st_class ?s"
      using decode_ok [of rq ?s] d B_postDecodeInput by auto
    show ?thesis using s1 b B_postDecodeInput by (intro n [of B_waitDecodeInput s1]) (simp_all add: c)
  next
    case B_waitDecodeInput
    then show ?thesis using d b by (intro n [of B_postRunOp ?s]) (simp_all add: c)
  next
    case B_postRunOp
    then obtain s1 c1 where "base_call early m CB_None ?s = Some s1" "st_inv rq c1 s1" "sm_running s1" "c1 \<in> {Asleep B_waitRunOp, At B_waitRunOp}"
      using run_keeps [OF b p, of early] d by auto
    then show ?thesis using B_postRunOp unfolding call c by (intro exI [of _ s1] exI [of _ c1]) auto
  next
    case B_waitRunOp
    then show ?thesis using d b by (intro n [of B_postReply ?s]) (simp_all add: c)
  next
    case B_postReply
    then obtain s1 c1 where "base_call early m CB_None ?s = Some s1" "st_inv rq c1 s1" "sm_running s1" "c1 \<in> {Asleep B_waitReply, At B_waitReply}"
      using reply_keeps [OF b p, of early] d by auto
    then show ?thesis using B_postReply unfolding call c by (intro exI [of _ s1] exI [of _ c1]) auto
  next
    case B_waitReply
    have "st_inv rq Done ?s" using d b p B_waitReply by (simp add: st_inv_def)
    then show ?thesis using B_waitReply b unfolding call c by (auto simp: sm_body_def)
  qed
qed

lemma complete_data:
  assumes "st_data rq (Asleep n) s" "ev \<in> set (st_inflight s)"
  shows "st_data rq (At n) (event_effect ev v (s\<lparr>st_inflight := remove1 ev (st_inflight s)\<rparr>)) \<and> n \<in> {B_waitRunOp, B_waitReply}"
proof (cases n)
  case B_waitRunOp
  then obtain c where c: "task_call (rq_param rq) = Some c" "ev = Ev_api c" "st_inflight s = [ev]"
    using assms by (auto simp: call_events_def split: option.splits)
  let ?s = "event_effect ev v (s\<lparr>st_inflight := remove1 ev (st_inflight s)\<rparr>)"
  have "has_result rq v ?s" using c by (simp add: has_result_def)
  moreover have "decoded rq ?s = decoded rq s" "set_up (rq_param rq) ?s = set_up (rq_param rq) s"
    by (simp add: decoded_def c) (cases "rq_param rq"; simp add: c)
  moreover have "st_request ?s = st_request s" "st_trace ?s = st_trace s" "st_inflight ?s = []" using c by simp_all
  ultimately show ?thesis using assms(1) unfolding B_waitRunOp st_data.simps by (intro conjI exI [of _ v]) simp_all
next
  case B_waitReply
  then obtain w where w: "has_result rq w s" "st_trace s = task_events rq w" "st_inflight s = [task_reply_event rq w]"
    using assms(1) by auto
  then have "event_effect ev v (s\<lparr>st_inflight := remove1 ev (st_inflight s)\<rparr>) = s\<lparr>st_inflight := []\<rparr>"
    using assms(2) by (simp add: task_reply_event_def split: option.splits)
  moreover have "has_result rq w (s\<lparr>st_inflight := []\<rparr>)" using w(1) by (simp add: has_result_def split: option.splits)
  ultimately show ?thesis unfolding B_waitReply st_data.simps using w(2) by (intro conjI exI [of _ w]) simp_all
qed (use assms in auto)

lemma complete_keeps:
  assumes "st_inv rq c s" "\<not> sm_running s" "ev \<in> set (st_inflight s)"
  shows "\<exists>s1 c1. complete_event ev v s = Some s1 \<and> st_inv rq c1 s1 \<and> \<not> sm_running s1 \<and> st_rank c1 False < st_rank c False"
proof -
  have "\<exists>n. c = Asleep n" using assms(1,3) by (cases "(rq, c, s)" rule: st_data.cases) (auto simp: st_inv_def st_fresh_def)
  then obtain n where c: "c = Asleep n" ..
  then have as: "sm_asleep n s" using assms(1) by (simp add: st_inv_def)
  let ?e = "event_effect ev v (s\<lparr>st_inflight := remove1 ev (st_inflight s)\<rparr>)"
  have d: "st_data rq (At n) ?e" "n \<in> {B_waitRunOp, B_waitReply}" using complete_data [of rq n s ev v] assms(1,3) c by (simp_all add: st_inv_def)
  obtain xs where s1: "complete_event ev v s = Some (?e\<lparr>sm_slots := xs, sm_next := Some n, sm_next_status := CB_None, sm_queued := 1\<rparr>)"
    "sm_at n (?e\<lparr>sm_slots := xs, sm_next := Some n, sm_next_status := CB_None, sm_queued := 1\<rparr>)"
    using complete_event_Some [OF as assms(2,3), of v] by blast
  have "st_class ?e = st_class s" by (cases ev) simp_all
  then have "st_inv rq (At n) (?e\<lparr>sm_slots := xs, sm_next := Some n, sm_next_status := CB_None, sm_queued := 1\<rparr>)"
    using assms(1) s1(2) by (intro inv_same [OF _ d(1)]) (simp_all add: same_task_def st_inv_def)
  then show ?thesis using s1(1) assms(2) d(2) c
    by (intro exI [of _ "?e\<lparr>sm_slots := xs, sm_next := Some n, sm_next_status := CB_None, sm_queued := 1\<rparr>"] exI [of _ "At n"]) auto
qed

lemma step_keeps:
  assumes "st_inv rq c s" "st_step s s1"
  shows "\<exists>c1. st_inv rq c1 s1 \<and> st_rank c1 (sm_running s1) < st_rank c (sm_running s)"
  using assms(2)
proof (cases rule: st_step.cases)
  case (Start u)
  have r: "\<not> sm_running s" using Start by (auto simp: unit_start_def exec_start_def elim!: fault_elims)
  obtain m where m: "c = At m" "sm_ctl c s1" "s1 = s\<lparr>sm_queued := 0, sm_running := True\<rparr>"
    using ctl_start [of c s u s1] assms(1) Start by (auto simp: st_inv_def)
  have "st_inv rq c s1" using assms(1) m by (intro inv_same [of s]) (simp_all add: st_inv_def same_task_def)
  then show ?thesis using m r by (intro exI [of _ c]) (cases m; simp)
next
  case (Method early)
  obtain m where "sm_at m s" using assms(1) Method ctl_next [of c s] by (auto simp: st_inv_def exec_method_def elim!: fault_elims)
  from method_keeps [OF assms(1) this Method(1), of early] show ?thesis using Method by auto
next
  case (Stop u)
  have "(\<exists>m. c = Asleep m \<and> sm_ctl c s1 \<and> s1 = s\<lparr>sm_running := False, sm_refs := 1\<rparr>) \<or>
    c = Done \<and> sm_ctl Dead s1 \<and> s1 = s\<lparr>sm_running := False, sm_refs := 0, sm_alive := False\<rparr>"
    using ctl_stop [of c s u s1] assms(1) Stop by (simp add: st_inv_def)
  then show ?thesis
  proof (elim disjE exE conjE)
    fix m assume m: "c = Asleep m" "sm_ctl c s1" "s1 = s\<lparr>sm_running := False, sm_refs := 1\<rparr>"
    have "st_inv rq c s1" using assms(1) m by (intro inv_same [of s]) (simp_all add: st_inv_def same_task_def)
    then show ?thesis using m Stop(1) by (intro exI [of _ c]) (cases m; simp)
  next
    assume m: "c = Done" "sm_ctl Dead s1" "s1 = s\<lparr>sm_running := False, sm_refs := 0, sm_alive := False\<rparr>"
    have "st_data rq Dead s" using assms(1) m(1) by (simp add: st_inv_def)
    then have "st_inv rq Dead s1" using assms(1) m by (intro inv_same [of s]) (simp_all add: st_inv_def same_task_def)
    then show ?thesis using m by (intro exI [of _ Dead]) simp
  qed
next
  case (Complete ev v)
  have "ev \<in> set (st_inflight s)" using Complete by (auto simp: complete_event_def end_event_def elim!: fault_elims)
  from complete_keeps [OF assms(1) Complete(1) this, of v] show ?thesis using Complete by auto
qed

lemma alive_steps:
  assumes "st_inv rq c s" "sm_alive s"
  shows "\<exists>s1. st_step s s1"
proof (cases c)
  case (At m)
  then have a: "sm_at m s" using assms(1) by (simp add: st_inv_def)
  show ?thesis
  proof (cases "sm_running s")
    case True
    then show ?thesis using method_keeps [OF assms(1) a True, of None] st_step.Method by blast
  next
    case False
    then show ?thesis using start_at [OF a] a st_step.Start by (auto simp: sm_at_def)
  qed
next
  case (Asleep m)
  then have a: "sm_asleep m s" using assms(1) by (simp add: st_inv_def)
  show ?thesis
  proof (cases "sm_running s")
    case True
    have "exec_stops s" using a by (simp add: sm_asleep_def exec_stops_def)
    from st_step.Stop [OF True this stop_asleep(1,2) [OF a True]] show ?thesis by blast
  next
    case False
    have "st_inflight s \<noteq> []" using assms(1) Asleep by (cases m) (auto simp: st_inv_def)
    then obtain s1 where "complete_event (hd (st_inflight s)) (0, no_out) s = Some s1"
      using complete_keeps [OF assms(1) False, of "hd (st_inflight s)" "(0, no_out)"] by auto
    from st_step.Complete [OF False this] show ?thesis by blast
  qed
next
  case Done
  then have b: "sm_body s" using assms(1) by (simp add: st_inv_def)
  then have "exec_stops s" "sm_running s" by (simp_all add: sm_body_def exec_stops_def)
  from st_step.Stop [OF this(2,1) stop_dead(1,2) [OF b]] show ?thesis by blast
next
  case Dead
  then show ?thesis using assms by (simp add: st_inv_def sm_dead_def)
qed

lemma new_task_inv:
  assumes "request_ok rq" "TaskSMFactory rq = Some (Sch_simple s0)"
  shows "st_inv rq (At B_init) s0 \<and> \<not> sm_running s0"
proof -
  have "s0 = new_simple_task (simple_class (rq_opid rq)) rq" "param_class (rq_param rq) = Some (simple_class (rq_opid rq))"
    using assms by (auto simp: TaskSMFactory_def request_ok_def split: if_splits task_param.splits)
  then show ?thesis by (simp add: st_inv_def new_simple_task_def sm_at_def slots_are_def st_fresh_def)
qed

lemma run_inv:
  assumes "request_ok rq" "TaskSMFactory rq = Some (Sch_simple s0)" "(st_step ^^ n) s0 s"
  shows "\<exists>c. st_inv rq c s \<and> n + st_rank c (sm_running s) \<le> 15"
  using assms(3)
proof (induction n arbitrary: s)
  case 0
  then show ?case using new_task_inv [OF assms(1,2)] by (intro exI [of _ "At B_init"]) auto
next
  case (Suc n)
  then obtain t where t: "(st_step ^^ n) s0 t" "st_step t s" by auto
  obtain c where c: "st_inv rq c t" "n + st_rank c (sm_running t) \<le> 15" using Suc.IH [OF t(1)] by blast
  from step_keeps [OF c(1) t(2)] c(2) show ?case by force
qed

lemma task_prefix:
  assumes "st_data rq c s"
  shows "\<exists>v evs. task_events rq v = st_trace s @ evs \<and> (\<forall>w. st_result s = Some w \<longrightarrow> w = v)"
proof -
  have e: "task_events rq v = call_events rq @ [task_reply_event rq v]" for v by (simp add: task_events_def call_events_def)
  have r: "has_result rq v s \<Longrightarrow> st_result s = Some w \<Longrightarrow> w = v" for v w by (auto simp: has_result_def split: option.splits)
  consider "st_trace s = []" "st_result s = None" | "st_trace s = call_events rq" "st_result s = None"
    | v where "st_trace s = call_events rq" "has_result rq v s" | v where "st_trace s = task_events rq v" "has_result rq v s"
    using assms by (cases "(rq, c, s)" rule: st_data.cases) (auto simp: st_fresh_def)
  then show ?thesis
  proof cases
    case (3 v)
    then show ?thesis using e [of v] r [of v] by (intro exI [of _ v] exI [of _ "[task_reply_event rq v]"]) auto
  next
    case (4 v)
    then show ?thesis using r [of v] by (intro exI [of _ v] exI [of _ "[]"]) auto
  qed (use e in auto)
qed

text \<open>Executable runs, for concrete examples.\<close>

datatype st_action = Act_start | Act_method "(int \<times> task_out) option" | Act_stop | Act_complete task_event "int \<times> task_out"

fun st_act :: "st_action \<Rightarrow> simple_sm \<Rightarrow> simple_sm option" where
  "st_act Act_start s = do { s1 \<leftarrow> unit_start s; exec_start s1 }"
| "st_act (Act_method early) s = do { assert_that (sm_running s); exec_method (base_call early) s }"
| "st_act Act_stop s = do { assert_that (sm_running s \<and> exec_stops s); s1 \<leftarrow> exec_end s; sm_release s1 }"
| "st_act (Act_complete ev v) s = do { assert_that (\<not> sm_running s); complete_event ev v s }"

fun st_run :: "st_action list \<Rightarrow> simple_sm \<Rightarrow> simple_sm option" where
  "st_run [] s = Some s"
| "st_run (a # as) s = do { s1 \<leftarrow> st_act a s; st_run as s1 }"

lemma st_act_step: "st_act a s = Some s1 \<Longrightarrow> st_step s s1"
  by (cases a) (auto intro: st_step.intros elim!: fault_elims)

lemma st_run_steps: "st_run as s = Some s1 \<Longrightarrow> (st_step ^^ length as) s s1"
  by (induction as arbitrary: s) (auto simp del: relpowp.simps(2) intro: relpowp_Suc_I2 st_act_step elim!: fault_elims)

definition demo_lookup :: request where
  "demo_lookup = \<lparr>rq_opid = 3, rq_param = LookupParam \<lparr>fs_handle = None, fs_component = None, fs_full = Some [47]\<rparr> \<lparr>oh_list = 1, oh_copy = True\<rparr>,
     rq_returncode = 77\<rparr>"

definition demo_result :: "int \<times> task_out" where
  "demo_result = (0, no_out\<lparr>o_handle := Some [1, 2, 3]\<rparr>)"

definition demo_actions :: "st_action list" where
  "demo_actions = [Act_start, Act_method None, Act_method None, Act_method None, Act_method (Some demo_result), Act_method None,
     Act_method None, Act_stop, Act_complete (Ev_reply 0 (R_handle (Some (Some [1, 2, 3])))) demo_result, Act_start, Act_method None, Act_stop]"

lemma demo_ok: "request_ok demo_lookup" "TaskSMFactory demo_lookup = Some (Sch_simple (new_simple_task LookupTaskSM demo_lookup))"
  by (simp_all add: request_ok_def demo_lookup_def TaskSMFactory_def simple_class_def)

text \<open>
  (C14) Every task but a read or a write calls the I/O interface once and replies once. Whatever the order in
  which the thread pool and the completions run, and whether they come inside the call or later, the operations of a
  task are at any time a beginning of: the call for its request with the decoded parameters, then the reply with the
  return code of that call and the results it wrote, handles and attributes only when it succeeded. When the task is destroyed all
  of them have been made and none is outstanding. A request for an unknown operation gets the one reply with its own code.
\<close>

theorem simple_task_replies_once:
  assumes "request_ok rq" "TaskSMFactory rq = Some (Sch_simple s0)" "st_step\<^sup>*\<^sup>* s0 s"
  shows "\<exists>v evs. task_events rq v = st_trace s @ evs \<and> (\<forall>w. st_result s = Some w \<longrightarrow> w = v) \<and>
    (\<not> sm_alive s \<longrightarrow> evs = [] \<and> st_inflight s = [] \<and> (task_call (rq_param rq) \<noteq> None \<longrightarrow> st_result s = Some v))"
proof -
  obtain n where "(st_step ^^ n) s0 s" using assms(3) rtranclp_imp_relpowp by fastforce
  from run_inv [OF assms(1,2) this] obtain c where c: "st_inv rq c s" by blast
  show ?thesis
  proof (cases "sm_alive s")
    case True
    then show ?thesis using task_prefix [of rq c s] c by (simp add: st_inv_def)
  next
    case False
    then have "c = Dead" using c by (cases c) (auto simp: st_inv_def sm_state_defs)
    then obtain v where "has_result rq v s" "st_trace s = task_events rq v" "st_inflight s = []" using c by (auto simp: st_inv_def)
    then show ?thesis by (intro exI [of _ v] exI [of _ "[]"]) (auto simp: has_result_def split: option.splits)
  qed
qed

theorem simple_task_replies_once_witness:
  "\<exists>s v. st_run demo_actions (new_simple_task LookupTaskSM demo_lookup) = Some s \<and> \<not> sm_alive s \<and> st_result s = Some v \<and>
    st_trace s = task_events demo_lookup v \<and> Ev_reply 0 (R_handle (Some (Some [1, 2, 3]))) \<in> set (st_trace s)"
proof -
  have "map_option (\<lambda>s. (sm_alive s, st_result s \<noteq> None, last (st_trace s), length (st_trace s)))
      (st_run demo_actions (new_simple_task LookupTaskSM demo_lookup)) = Some (False, True, Ev_reply 0 (R_handle (Some (Some [1, 2, 3]))), 2)"
    by code_simp
  then obtain s where s: "st_run demo_actions (new_simple_task LookupTaskSM demo_lookup) = Some s" "\<not> sm_alive s" "st_result s \<noteq> None"
    "last (st_trace s) = Ev_reply 0 (R_handle (Some (Some [1, 2, 3])))" "length (st_trace s) = 2" by auto
  have "st_step\<^sup>*\<^sup>* (new_simple_task LookupTaskSM demo_lookup) s" using st_run_steps [OF s(1)] by (rule relpowp_imp_rtranclp)
  from simple_task_replies_once [OF demo_ok this] s(2,3) obtain v where "task_events demo_lookup v = st_trace s" "st_result s = Some v" by auto
  moreover have "Ev_reply 0 (R_handle (Some (Some [1, 2, 3]))) \<in> set (st_trace s)"
    using s(4,5) last_in_set [of "st_trace s"] by (cases "st_trace s") auto
  ultimately show ?thesis using s(1,2) by metis
qed

text \<open>
  (C23) Such a task always finishes. It makes at most fifteen steps, and as long as it exists there is a next
  one: no assertion fails, no slot is waited for twice, every operation in flight can complete.
\<close>

theorem simple_task_finishes:
  assumes "request_ok rq" "TaskSMFactory rq = Some (Sch_simple s0)" "(st_step ^^ n) s0 s"
  shows "n \<le> 15 \<and> (sm_alive s \<longrightarrow> (\<exists>s1. st_step s s1)) \<and>
    (\<forall>ev v. ev \<in> set (st_inflight s) \<and> \<not> sm_running s \<longrightarrow> complete_event ev v s \<noteq> None)"
proof -
  obtain c where c: "st_inv rq c s" "n + st_rank c (sm_running s) \<le> 15" using run_inv [OF assms] by blast
  have "complete_event ev v s \<noteq> None" if "ev \<in> set (st_inflight s)" "\<not> sm_running s" for ev v
    using complete_keeps [OF c(1) that(2,1), of v] by auto
  then show ?thesis using alive_steps [OF c(1)] c(2) by auto
qed

theorem simple_task_finishes_witness:
  "\<exists>s. st_run (take 8 demo_actions) (new_simple_task LookupTaskSM demo_lookup) = Some s \<and> sm_alive s \<and>
    length (st_inflight s) = 1 \<and> (\<exists>s1. st_step s s1)"
proof -
  have "map_option (\<lambda>s. (sm_alive s, length (st_inflight s))) (st_run (take 8 demo_actions) (new_simple_task LookupTaskSM demo_lookup)) =
      Some (True, 1)" by code_simp
  then obtain s where s: "st_run (take 8 demo_actions) (new_simple_task LookupTaskSM demo_lookup) = Some s" "sm_alive s"
    "length (st_inflight s) = 1" by auto
  then show ?thesis using simple_task_finishes [OF demo_ok st_run_steps [OF s(1)]] by blast
qed

end
