(* ===== verification/Spec2Isabelle.thy ===== *)
theory Spec2Isabelle
  imports Token_Resource Range_Sched IO_Callbacks Request_System Posix_Caches Simple_Tasks
begin

text \<open>
  IOFSL, the I/O Forwarding Scalability Layer. A client's file operations travel, encoded with XDR, to a server on
  an I/O node. There a factory makes a task, a state machine on the thread pool, for each request. A task decodes its
  parameters, gets buffers, moves the data, calls the I/O interface asynchronously and replies. Reads and writes pass
  through the request scheduler, which collects the extents of many requests, merges adjacent ones and issues them in
  batches; the POSIX dispatcher below keeps names and descriptors in caches. All paths here are relative
  to the directory \<open>src\<close> of the repository.

  \<^bold>\<open>How code becomes definitions.\<close> A class or struct is a record and an enumeration a datatype. A function that may
  fail an assertion, use an invalid pointer, overflow a signed integer or never return is a function into
  \<open>option\<close>, and \<open>None\<close> stands for all of these; loops without an evident bound are partial functions, so a
  loop that runs forever is \<open>None\<close> too. Where objects are shared or freed they live in an explicit store whose
  allocator is arbitrary within what \<open>operator new\<close> promises (\<open>heap_ok\<close>). Unsigned integers of a fixed width are
  words. A section of code under a lock is one atomic function, and an inductive relation interleaves the sections of
  all threads with the completions of the environment.

  \<^bold>\<open>The theories.\<close>
  \<^item> \<^theory_text>\<open>Iofsl_Prelude\<close>: assertions, the store, callbacks and their exceptions (\<open>iofwdevent/CBException.hh\<close>), shared lemmas;
    \<^theory_text>\<open>Std_Containers\<close>: the ordered containers of the C++ library.
  \<^item> \<^theory_text>\<open>Token_Resource\<close> (\<open>iofwdevent/TokenResource.cpp\<close>): the counting semaphore. Waiters are served in order and
    tokens conserved; \<open>cancel\<close> returns in few cases only.
  \<^item> \<^theory_text>\<open>Ranges\<close>, \<^theory_text>\<open>Base_Range_Set\<close>, \<^theory_text>\<open>Hier_Range_Set\<close> (\<open>iofwd/Range.hh\<close>, \<open>BaseRangeSet.hh\<close>,
    \<open>HierarchicalRangeSet.hh\<close>): merging of extents. The abstract class is the locale \<open>base_range_set\<close>, interpreted on the
    hierarchical set, whose ranges are shown to be the maximal runs of the bytes requested.
  \<^item> \<^theory_text>\<open>Range_Sched\<close> (\<open>iofwd/RangeScheduler.cpp\<close>): the FIFO and the merge scheduler, the latter for every range set
    that meets the locale. Nothing is lost or duplicated and each queue is served within a bound; the locale
    \<open>range_scheduler\<close> is what the request scheduler relies on.
  \<^item> \<^theory_text>\<open>IO_Callbacks\<close> (\<open>iofwd/tasksm/IOCBWrapper.hh\<close>, \<open>SharedIOCB.hh\<close>): counting completions and distributing results.
  \<^item> \<^theory_text>\<open>Request_Sched\<close>, \<^theory_text>\<open>Request_System\<close> (\<open>iofwd/RequestScheduler.cpp\<close>): submission, the scheduling thread,
    completion and shutdown, first as functions, then interleaved. Every request is called back once and no step can fail.
  \<^item> \<^theory_text>\<open>Sm_Slots\<close> (\<open>sm/SimpleSM.hh\<close>, \<open>SimpleSlots.hh\<close>, \<open>SMManager.cpp\<close>): state machines with callback slots.
    \<^theory_text>\<open>Pipeline_Segments\<close>, \<^theory_text>\<open>Task_Common\<close>, \<^theory_text>\<open>Task_Plan\<close>, \<^theory_text>\<open>Write_Task\<close>, \<^theory_text>\<open>Read_Task\<close>
    (\<open>iofwd/tasksm/WriteTaskSM.cpp\<close>, \<open>ReadTaskSM.cpp\<close>): pipelined transfers. The cutting into buffers is exact, and each task does
    all its work in order, replies last and never gets stuck.
  \<^item> \<^theory_text>\<open>Simple_Tasks\<close> (\<open>iofwd/tasksm/BaseTaskSM.hh\<close>, its fifteen derived classes and \<open>TaskSMFactory.cpp\<close>): the other operations,
    with one call and one reply each, and the factory, which also makes the reads and writes.
  \<^item> \<^theory_text>\<open>Codec\<close> and \<^theory_text>\<open>Xdr\<close> (\<open>encoder/\<close>, \<open>zoidfs/util/zoidfs-xdr.hh\<close>, \<open>FileSpecHelper.hh\<close>,
    \<open>zoidfs/client/zoidfs_xdr.c\<close>): encoding. The XDR library of the system is a parameter; the locale \<open>xdr_library\<close> states its documented
    behaviour and is interpreted on a concrete library. Round trips, equality of client and server, exact sizes.
  \<^item> \<^theory_text>\<open>Hints\<close> (\<open>zoidfs/hints/zoidfs-hints.c\<close>, \<open>zoidfs/util/OpHintHelper.hh\<close>): operation hints as a queue of values per key,
    and their transfer over any such library.
  \<^item> \<^theory_text>\<open>Hash_Table\<close>, \<^theory_text>\<open>Gencache\<close>, \<^theory_text>\<open>Posix_Caches\<close> (\<open>c-util/hash-table.c\<close>, \<open>c-util/gencache.c\<close>,
    \<open>zoidfs/dispatcher/posix/fcache.c\<close>, \<open>dcache.c\<close>): the hash table refines a map for every pair of key functions in the locale
    \<open>hash_keys\<close>, the cache refines a bounded list of entries with holders, and the two caches of the dispatcher are
    instances, whose key functions interpret the locale.

  \<^bold>\<open>Errors shown.\<close> Some theorems state that the code goes wrong: requests dropped with a quantum that is not positive,
  the hint of a merged range never set, a scheduler that hangs on shutdown, reads and writes with empty extents, empty
  extents in a pipeline, a cache that loses entries when the oldest one is refreshed.

  \<^bold>\<open>Bounds.\<close> There is no fuel. The numeric hypotheses are the limits of the types in the code: 536870914 operations on
  a hash table is where its entry count outgrows the list of primes, 2147483647 and \<open>2 ^ 32\<close> are the limits of \<open>int\<close> and \<open>uint32_t\<close>
  lengths. The property \<open>good_pipeline\<close> asks for extents that are not empty and do not wrap around.

  \<^bold>\<open>Not modelled.\<close> Code that mostly calls into the operating system or libraries: the network transports and frontends (BMI, RPC),
  the event resources and the thread pool, the system calls of the dispatchers, the client library and FUSE, logging,
  configuration files with their generated parser, statistics. For the parts that are modelled these are the environment: it
  completes operations at any time and in any order. Also left out are the range set on an interval tree,
  an alternative to the hierarchical set which would have to meet the same locale, the blocking tasks that the configuration can select
  instead of the state machines, the polling mode of state machines, and the copies of published hash routines, since the components that hash are proved for every hash
  function. Memory exhaustion is modelled in the hash table and the caches only, and instruction-level data races not at all.
\<close>

end
